(* ===== verification/Prelude.thy ===== *)
theory Prelude
  imports Main "HOL-Library.Word"
begin

text \<open>
  What the component theories share: the machine integer types, the result type of code that
  can fail, the guards that write an early exit, the map view of a keyed table, and the
  collections of simplification and elimination rules that carry the component proofs.
\<close>

unbundle bit_operations_syntax

section \<open>Machine integers\<close>

type_synonym u8 = "8 word"
type_synonym u16 = "16 word"
type_synonym u32 = "32 word"
type_synonym u64 = "64 word"

definition in_int64 :: "int \<Rightarrow> bool" where
  "in_int64 x \<longleftrightarrow> - (2 ^ 63) \<le> x \<and> x < 2 ^ 63"

lemma unat_plus_1: "x \<noteq> - 1 \<Longrightarrow> unat (x + 1) = Suc (unat (x :: u64))"
proof -
  assume "x \<noteq> - 1"
  then have "x + 1 \<noteq> 0" using add_eq_0_iff2 by blast
  then show ?thesis by (simp add: unatSuc add.commute)
qed

lemma less_plus_1: "x \<noteq> - 1 \<Longrightarrow> x < x + (1 :: u64)"
  by (simp add: word_less_nat_alt unat_plus_1)

lemma unat_less_u16: "unat (x :: u16) < 2 ^ 16"
  using unsigned_less [of x] by simp

lemma unat_u16_32: "unat (ucast (x :: u16) :: u32) = unat x"
  using unat_less_u16 [of x] by (simp add: unsigned_ucast_eq take_bit_nat_eq_self)

lemma unat_plus_le: "unat (x + y :: u32) \<le> unat x + unat y"
  by (simp add: unat_word_ariths)

lemma unat_of_nat_u32: "n < 2 ^ 32 \<Longrightarrow> unat (of_nat n :: u32) = n"
  by (simp add: unsigned_of_nat take_bit_nat_eq_self)

section \<open>Results and guards\<close>

text \<open>
  A call that can throw or abort returns a sum: \<open>Inl e\<close> is the failure, \<open>Inr x\<close> the value.
  \<open>check\<close> is the guard the sources write as \<open>check(cond, msg)\<close> or
  \<open>EOS_ASSERT(cond, exception, msg)\<close>: the continuation runs only if the condition holds.
\<close>

type_synonym ('e, 'a) result = "'e + 'a"

definition check :: "bool \<Rightarrow> 'e \<Rightarrow> ('e, 'a) result \<Rightarrow> ('e, 'a) result" where
  "check b e k = (if b then k else Inl e)"

definition bind_res :: "('e, 'a) result \<Rightarrow> ('a \<Rightarrow> ('e, 'b) result) \<Rightarrow> ('e, 'b) result" where
  "bind_res m f = (case m of Inl e \<Rightarrow> Inl e | Inr x \<Rightarrow> f x)"

text \<open>The range-for loop of the sources: each element updates the state or aborts the loop.\<close>

fun for_each :: "('a \<Rightarrow> 's \<Rightarrow> ('e, 's) result) \<Rightarrow> 'a list \<Rightarrow> 's \<Rightarrow> ('e, 's) result" where
  "for_each f [] s = Inr s"
| "for_each f (x # xs) s = bind_res (f x s) (for_each f xs)"

named_theorems run_simps \<open>unfolding of guards and binds\<close>
named_theorems run_elims \<open>elimination of successful runs\<close>

lemma check_simps [simp, run_simps]:
  "check True e k = k"
  "check False e k = Inl e"
  by (simp_all add: check_def)

lemma bind_res_simps [simp, run_simps]:
  "bind_res (Inr x) f = f x"
  "bind_res (Inl e) f = Inl e"
  by (simp_all add: bind_res_def)

lemma check_Inr_iff [run_simps]: "check b e k = Inr x \<longleftrightarrow> b \<and> k = Inr x"
  by (simp add: check_def)

lemma check_Inl_iff: "check b e k = Inl e' \<longleftrightarrow> (if b then k = Inl e' else e' = e)"
  by (auto simp: check_def)

lemma bind_res_Inr_iff [run_simps]: "bind_res m f = Inr y \<longleftrightarrow> (\<exists>x. m = Inr x \<and> f x = Inr y)"
  by (cases m) auto

lemma bind_res_Inl_iff:
  "bind_res m f = Inl e \<longleftrightarrow> m = Inl e \<or> (\<exists>x. m = Inr x \<and> f x = Inl e)"
  by (cases m) auto

lemma check_InrE [run_elims, elim!]:
  assumes "check b e k = Inr x"
  obtains "b" "k = Inr x"
  using assms by (simp add: check_Inr_iff)

lemma bind_res_InrE [run_elims, elim!]:
  assumes "bind_res m f = Inr y"
  obtains x where "m = Inr x" "f x = Inr y"
  using assms by (auto simp: bind_res_Inr_iff)

lemma bind_res_assoc: "bind_res (bind_res m f) g = bind_res m (\<lambda>x. bind_res (f x) g)"
  by (cases m) auto

lemma bind_res_cong [fundef_cong]:
  assumes "m = m'" and "\<And>x. m' = Inr x \<Longrightarrow> f x = f' x"
  shows "bind_res m f = bind_res m' f'"
  using assms by (cases m') auto

lemma for_each_append:
  "for_each f (xs @ ys) s = bind_res (for_each f xs s) (for_each f ys)"
proof (induction xs arbitrary: s)
  case Nil
  then show ?case by simp
next
  case (Cons x xs)
  then have "for_each f (xs @ ys) = (\<lambda>s. bind_res (for_each f xs s) (for_each f ys))"
    by blast
  then show ?case by (simp add: bind_res_assoc)
qed

text \<open>
  The two rules the loop proofs use: an invariant kept by the body is kept by the loop, and a
  fact that follows from each successful iteration holds of every element visited.
\<close>

lemma for_each_inv:
  assumes "for_each f xs s = Inr s'" and "P s"
    and "\<And>x s s'. x \<in> set xs \<Longrightarrow> P s \<Longrightarrow> f x s = Inr s' \<Longrightarrow> P s'"
  shows "P s'"
  using assms
proof (induction xs arbitrary: s)
  case Nil
  then show ?case by simp
next
  case (Cons x xs)
  from Cons.prems(1) obtain t where t: "f x s = Inr t" "for_each f xs t = Inr s'"
    by auto
  have "P t"
    using Cons.prems(3) [of x s t] Cons.prems(2) t(1) by simp
  with t(2) show ?case
    by (rule Cons.IH) (use Cons.prems(3) in auto)
qed

lemma for_each_rel:
  assumes "for_each f xs s = Inr s'"
    and refl: "\<And>s. R s s" and trans: "\<And>s t u. R s t \<Longrightarrow> R t u \<Longrightarrow> R s u"
    and body: "\<And>x s s'. x \<in> set xs \<Longrightarrow> f x s = Inr s' \<Longrightarrow> R s s'"
  shows "R s s'"
  using assms(1) body
proof (induction xs arbitrary: s)
  case Nil
  then show ?case by (simp add: refl)
next
  case (Cons x xs)
  from Cons.prems(1) obtain t where t: "f x s = Inr t" "for_each f xs t = Inr s'" by auto
  have "R s t" by (rule Cons.prems(2) [of x]) (simp_all add: t(1))
  moreover have "R t s'" by (rule Cons.IH [OF t(2)]) (use Cons.prems(2) in auto)
  ultimately show ?case by (rule trans)
qed

section \<open>Decimal strings\<close>

text \<open>\<open>std::to_string\<close> on an unsigned number: its decimal digits, most significant first.\<close>

fun dec_string :: "nat \<Rightarrow> string" where
  "dec_string n =
     (if n < 10 then [char_of (48 + n)] else dec_string (n div 10) @ [char_of (48 + n mod 10)])"

declare dec_string.simps [simp del]

text \<open>Reading decimal digits back, and the white space of \<open>isspace\<close> in the C locale.\<close>

definition is_digit :: "char \<Rightarrow> bool" where
  "is_digit c \<longleftrightarrow> 48 \<le> (of_char c :: nat) \<and> (of_char c :: nat) \<le> 57"

definition dec_value :: "string \<Rightarrow> nat" where
  "dec_value s = foldl (\<lambda>n c. 10 * n + (of_char c - 48)) 0 s"

lemma of_char_digit: "d < 10 \<Longrightarrow> (of_char (char_of (48 + d :: nat)) :: nat) = 48 + d"
  by simp

lemma dec_value_snoc: "d < 10 \<Longrightarrow> dec_value (s @ [char_of (48 + d)]) = 10 * dec_value s + d"
  by (simp add: dec_value_def)

lemma is_digit_char: "d < 10 \<Longrightarrow> is_digit (char_of (48 + d :: nat))"
  by (simp add: is_digit_def)

lemma dec_string_digits:
  "dec_string n \<noteq> [] \<and> list_all is_digit (dec_string n) \<and> dec_value (dec_string n) = n"
proof (induction n rule: dec_string.induct)
  case (1 n)
  show ?case
  proof (cases "n < 10")
    case True
    then show ?thesis
      using dec_value_snoc [of n "[]"] by (simp add: dec_string.simps [of n] is_digit_char dec_value_def)
  next
    case False
    have "n mod 10 < 10" by simp
    note d = dec_value_snoc [OF this] is_digit_char [OF this]
    from False 1 show ?thesis
      by (simp add: dec_string.simps [of n] d)
  qed
qed

lemma char_of_digit: "char_of (48 :: nat) = CHR ''0''" "char_of (49 :: nat) = CHR ''1''"
  using char_of_char [where 'a = nat, of "CHR ''0''"] char_of_char [where 'a = nat, of "CHR ''1''"]
  by simp_all

lemma padded_digits:
  "f < 10 ^ p \<Longrightarrow> \<exists>ds. dec_string (10 ^ p + f) = CHR ''1'' # ds \<and> length ds = p
     \<and> list_all is_digit ds \<and> dec_value ds = f"
proof (induction p arbitrary: f)
  case 0
  then show ?case by (simp add: dec_string.simps dec_value_def char_of_digit)
next
  case (Suc p)
  from Suc.prems have "f div 10 < 10 ^ p" by simp
  from Suc.IH [OF this] obtain ds where ds: "dec_string (10 ^ p + f div 10) = CHR ''1'' # ds"
      "length ds = p" "list_all is_digit ds" "dec_value ds = f div 10" by blast
  have *: "(10 ^ Suc p + f) div 10 = 10 ^ p + f div 10" "(10 ^ Suc p + f) mod 10 = f mod 10"
    by simp_all
  have "1 \<le> (10 :: nat) ^ p" by simp
  then have "\<not> 10 ^ Suc p + f < 10" unfolding power_Suc by linarith
  then have "dec_string (10 ^ Suc p + f) = CHR ''1'' # ds @ [char_of (48 + f mod 10)]"
    unfolding dec_string.simps [of "10 ^ Suc p + f"] * ds(1) by simp
  moreover have "f mod 10 < 10" by simp
  ultimately show ?case
    using ds dec_value_snoc is_digit_char by (intro exI [of _ "ds @ [char_of (48 + f mod 10)]"]) simp
qed

definition is_space :: "char \<Rightarrow> bool" where
  "is_space c \<longleftrightarrow> (of_char c :: nat) = 32 \<or> 9 \<le> (of_char c :: nat) \<and> (of_char c :: nat) \<le> 13"

section \<open>Keyed tables\<close>

text \<open>
  A table keyed by its primary key is a map. \<open>table_get\<close> is the lookup that aborts with a
  message when the key is absent, \<open>table_emplace\<close> the insertion that aborts when it is
  present; a row that is known to be there is changed by map update and erased by
  restricting the map.
\<close>

definition table_get :: "('k \<rightharpoonup> 'v) \<Rightarrow> 'k \<Rightarrow> 'e \<Rightarrow> ('e, 'v) result" where
  "table_get t k e = (case t k of None \<Rightarrow> Inl e | Some v \<Rightarrow> Inr v)"

definition table_emplace :: "('k \<rightharpoonup> 'v) \<Rightarrow> 'k \<Rightarrow> 'v \<Rightarrow> 'e \<Rightarrow> ('e, 'k \<rightharpoonup> 'v) result" where
  "table_emplace t k v e = (if t k = None then Inr (t(k \<mapsto> v)) else Inl e)"

definition table_erase :: "('k \<rightharpoonup> 'v) \<Rightarrow> 'k \<Rightarrow> ('k \<rightharpoonup> 'v)" where
  "table_erase t k = t(k := None)"

lemma table_get_Inr_iff [simp, run_simps]: "table_get t k e = Inr v \<longleftrightarrow> t k = Some v"
  by (simp add: table_get_def split: option.splits)

lemma table_get_Inl_iff [simp]: "table_get t k e = Inl e' \<longleftrightarrow> t k = None \<and> e' = e"
  by (auto simp: table_get_def split: option.splits)

lemma table_get_Some [simp]: "t k = Some v \<Longrightarrow> table_get t k e = Inr v"
  by simp

lemma table_get_None [simp]: "t k = None \<Longrightarrow> table_get t k e = Inl e"
  by simp

lemma table_emplace_Inr_iff [simp, run_simps]:
  "table_emplace t k v e = Inr t' \<longleftrightarrow> t k = None \<and> t' = t(k \<mapsto> v)"
  by (auto simp: table_emplace_def)

lemma table_emplace_Inl_iff [simp]:
  "table_emplace t k v e = Inl e' \<longleftrightarrow> t k \<noteq> None \<and> e' = e"
  by (auto simp: table_emplace_def)

lemma table_erase_apply [simp]: "table_erase t k x = (if x = k then None else t x)"
  by (simp add: table_erase_def)

lemma dom_table_erase [simp]: "dom (table_erase t k) = dom t - {k}"
  by (auto simp: table_erase_def)

text \<open>Sums over the rows of a finite table.\<close>

definition table_sum :: "('k \<rightharpoonup> 'v) \<Rightarrow> ('k \<Rightarrow> 'v \<Rightarrow> int) \<Rightarrow> int" where
  "table_sum t f = (\<Sum>k \<in> dom t. f k (the (t k)))"

lemma table_sum_upd:
  assumes "finite (dom t)"
  shows "table_sum (t(k \<mapsto> v)) f
    = table_sum t f - (case t k of None \<Rightarrow> 0 | Some w \<Rightarrow> f k w) + f k v"
proof -
  have eq: "(\<Sum>x \<in> dom t - {k}. f x (the ((t(k \<mapsto> v)) x))) = (\<Sum>x \<in> dom t - {k}. f x (the (t x)))"
    by (rule sum.cong) auto
  have "table_sum (t(k \<mapsto> v)) f = f k v + (\<Sum>x \<in> dom t - {k}. f x (the (t x)))"
    using assms eq by (simp add: table_sum_def sum.insert_remove)
  moreover have "table_sum t f
      = (case t k of None \<Rightarrow> 0 | Some w \<Rightarrow> f k w) + (\<Sum>x \<in> dom t - {k}. f x (the (t x)))"
  proof (cases "t k")
    case None
    then have "dom t - {k} = dom t" by auto
    with None show ?thesis by (simp add: table_sum_def)
  next
    case (Some w)
    then have "k \<in> dom t" by auto
    with assms Some show ?thesis
      by (simp add: table_sum_def sum.remove [where x = k])
  qed
  ultimately show ?thesis by simp
qed

lemma table_sum_erase:
  assumes "finite (dom t)" and "t k = Some v"
  shows "table_sum (table_erase t k) f = table_sum t f - f k v"
proof -
  have "k \<in> dom t" using assms(2) by auto
  have "(\<Sum>x \<in> dom t - {k}. f x (the (table_erase t k x))) = (\<Sum>x \<in> dom t - {k}. f x (the (t x)))"
    by (rule sum.cong) auto
  moreover have "table_sum t f = f k v + (\<Sum>x \<in> dom t - {k}. f x (the (t x)))"
    using assms \<open>k \<in> dom t\<close> by (simp add: table_sum_def sum.remove [where x = k])
  ultimately show ?thesis by (simp add: table_sum_def)
qed

lemma table_sum_cong:
  assumes "\<And>k v. t k = Some v \<Longrightarrow> f k v = g k v"
  shows "table_sum t f = table_sum t g"
  unfolding table_sum_def by (rule sum.cong) (use assms in auto)

lemma table_sum_zero:
  assumes "\<And>k v. t k = Some v \<Longrightarrow> f k v = 0"
  shows "table_sum t f = 0"
  unfolding table_sum_def by (rule sum.neutral) (use assms in auto)

end
