(* ===== verification/Name_Type.thy ===== *)
theory Name_Type
  imports Prelude
begin

text \<open>
  The account and action names of the chain (\<open>libraries/chain/include/eosio/chain/name.hpp\<close>
  and \<open>libraries/chain/name.cpp\<close>): up to thirteen characters packed into a 64-bit value, five
  bits for each of the first twelve characters and four for the last. A C string is the list
  of its bytes before the terminating NUL.
\<close>

type_synonym name = u64

datatype name_error = name_too_long | name_not_normalized

definition char_to_symbol :: "char \<Rightarrow> u64" where
  "char_to_symbol c =
     (let n = (of_char c :: nat) in
      if 97 \<le> n \<and> n \<le> 122 then of_nat (n - 97) + 6
      else if 49 \<le> n \<and> n \<le> 53 then of_nat (n - 49) + 1
      else 0)"

text \<open>
  The loop \<open>for (; str[i] && i < 12; ++i)\<close> with its two variables; it stops at the end of the
  string or at the twelfth character.
\<close>

fun string_to_name_loop :: "string \<Rightarrow> nat \<Rightarrow> u64 \<Rightarrow> u64 \<times> nat" where
  "string_to_name_loop [] i nm = (nm, i)"
| "string_to_name_loop (c # cs) i nm =
     (if i < 12
      then string_to_name_loop cs (Suc i)
             (nm OR push_bit (64 - 5 * (i + 1)) (char_to_symbol c AND 0x1f))
      else (nm, i))"

definition string_to_name :: "string \<Rightarrow> name" where
  "string_to_name str =
     (case string_to_name_loop str 0 0 of (nm, i) \<Rightarrow>
        if i = 12 then nm OR (if 12 < length str then char_to_symbol (str ! 12) else 0) AND 0x0F
        else nm)"

definition charmap :: string where
  "charmap = ''.12345abcdefghijklmnopqrstuvwxyz''"

text \<open>The body of the loop of \<open>name::operator string\<close>: one character, right to left.\<close>

definition name_char :: "nat \<Rightarrow> u64 \<times> string \<Rightarrow> u64 \<times> string" where
  "name_char i ts =
     (case ts of (tmp, str) \<Rightarrow>
        (drop_bit (if i = 0 then 4 else 5) tmp,
         str[12 - i := charmap ! unat (tmp AND (if i = 0 then 0x0f else 0x1f))]))"

text \<open>
  The trailing dots are removed by \<open>boost::algorithm::trim_right_if\<close>, which is not part of the
  repository: it is the parameter \<open>trim_right_if\<close>.
\<close>

type_synonym trimmer = "(char \<Rightarrow> bool) \<Rightarrow> string \<Rightarrow> string"

definition name_to_string :: "trimmer \<Rightarrow> name \<Rightarrow> string" where
  "name_to_string trim_right_if v =
     trim_right_if (\<lambda>c. c = CHR ''.'')
       (snd (fold name_char [0..<13] (v, replicate 13 CHR ''.'')))"

text \<open>
  \<open>name::set\<close>: the length check (\<open>strnlen(str, 14)\<close> is at most 13), the conversion, and the
  check that converting back gives the same string.
\<close>

definition name_set :: "trimmer \<Rightarrow> string \<Rightarrow> (name_error, name) result" where
  "name_set trim_right_if str =
     check (length str \<le> 13) name_too_long
       (let v = string_to_name str in
        check (name_to_string trim_right_if v = str) name_not_normalized (Inr v))"

text \<open>The reference: the text of a name, with its trailing dots dropped.\<close>

definition trim_right_dots :: "string \<Rightarrow> string" where
  "trim_right_dots s = rev (dropWhile (\<lambda>c. c = CHR ''.'') (rev s))"

definition name_text :: "name \<Rightarrow> string" where
  "name_text v =
     trim_right_dots (snd (fold name_char [0..<13] (v, replicate 13 CHR ''.'')))"

section \<open>Strings and names determine each other\<close>

text \<open>
  The strings that name a 64-bit value: at most thirteen characters of the alphabet, the
  thirteenth among the first sixteen of it, and no trailing dot.
\<close>

definition valid_name_string :: "string \<Rightarrow> bool" where
  "valid_name_string s \<longleftrightarrow>
     length s \<le> 13 \<and> set s \<subseteq> set charmap \<and>
     (length s = 13 \<longrightarrow> char_to_symbol (s ! 12) < 16) \<and>
     (s \<noteq> [] \<longrightarrow> last s \<noteq> CHR ''.'')"

text \<open>The thirteen characters of a value, before the trailing dots are trimmed.\<close>

definition name_digits :: "name \<Rightarrow> string" where
  "name_digits v =
     map (\<lambda>k. charmap ! unat (drop_bit k v AND 31)) [59, 54, 49, 44, 39, 34, 29, 24, 19, 14, 9, 4]
     @ [charmap ! unat (v AND 15)]"

lemma mask_lits: "(31::u64) = mask 5" "(15::u64) = mask 4" by (simp_all add: mask_eq_decr_exp)

lemma word_chunk:
  fixes v :: u64
  shows "push_bit k (drop_bit k v) = push_bit (k + 5) (drop_bit (k + 5) v) OR push_bit k (drop_bit k v AND 31)"
  unfolding mask_lits
proof (rule bit_word_eqI)
  fix n
  assume "n < LENGTH(64)"
  then show "bit (push_bit k (drop_bit k v)) n
    = bit (push_bit (k + 5) (drop_bit (k + 5) v) OR push_bit k (drop_bit k v AND mask 5)) n"
    by (cases "k + 5 \<le> n") (auto simp: bit_simps)
qed

lemma name_split: "(v::u64) = 
  push_bit 59 (drop_bit 59 v AND 31) OR (push_bit 54 (drop_bit 54 v AND 31) OR (push_bit 49 (drop_bit 49 v AND 31)
  OR (push_bit 44 (drop_bit 44 v AND 31) OR (push_bit 39 (drop_bit 39 v AND 31) OR (push_bit 34 (drop_bit 34 v AND 31)
  OR (push_bit 29 (drop_bit 29 v AND 31) OR (push_bit 24 (drop_bit 24 v AND 31) OR (push_bit 19 (drop_bit 19 v AND 31)
  OR (push_bit 14 (drop_bit 14 v AND 31) OR (push_bit 9 (drop_bit 9 v AND 31) OR (push_bit 4 (drop_bit 4 v AND 31) OR (v AND 15))))))))))))"
proof -
  define f where "f k = push_bit k (drop_bit k v)" for k :: nat
  define c where "c k = push_bit k (drop_bit k v AND 31)" for k :: nat
  have s: "f k = f (k + 5) OR c k" for k
    unfolding f_def c_def by (rule word_chunk)
  have v: "v = f 4 OR (v AND 15)"
    unfolding mask_lits f_def by (rule bit_word_eqI) (auto simp: bit_simps)
  have e: "f 64 = 0"
    unfolding f_def by (rule bit_word_eqI) (auto simp: bit_simps)
  have "f 4 = c 59 OR (c 54 OR (c 49 OR (c 44 OR (c 39 OR (c 34 OR (c 29 OR (c 24 OR (c 19 OR (c 14 OR (c 9 OR c 4))))))))))"
    using s [of 4] s [of 9] s [of 14] s [of 19] s [of 24] s [of 29] s [of 34] s [of 39]
      s [of 44] s [of 49] s [of 54] s [of 59] e
    by (simp add: or.assoc)
  with v show ?thesis
    unfolding c_def by (simp only: or.assoc)
qed

lemma charmap_symbol: "d < 32 \<Longrightarrow> char_to_symbol (charmap ! d) = of_nat d"
proof -
  have "\<forall>d \<in> set [0..<32]. char_to_symbol (charmap ! d) = of_nat d"
    by (simp add: upt_rec charmap_def char_to_symbol_def Let_def)
  then show "d < 32 \<Longrightarrow> char_to_symbol (charmap ! d) = of_nat d" by simp
qed

lemma and_mask_less: "unat (w AND 31 :: u64) < 32" "unat (w AND 15 :: u64) < 16"
proof -
  have "unat (w AND 31) \<le> unat (31::u64)" "unat (w AND 15) \<le> unat (15::u64)"
    by (rule word_and_le1 [THEN word_le_nat_alt [THEN iffD1]])+
  then show "unat (w AND 31 :: u64) < 32" "unat (w AND 15 :: u64) < 16" by simp_all
qed

lemma charmap_symbol_and: "char_to_symbol (charmap ! unat (w AND 31 :: u64)) = w AND 31"
   "char_to_symbol (charmap ! unat (w AND 15 :: u64)) = w AND 15"
  using and_mask_less [of w] by (simp_all add: charmap_symbol)

lemma name_chars: "snd (fold name_char [0..<13] (v, replicate 13 CHR ''.'')) = name_digits v"
  by (simp add: upt_rec numeral_eq_Suc name_char_def name_digits_def)

lemma string_to_name_13:
  "string_to_name [c0,c1,c2,c3,c4,c5,c6,c7,c8,c9,c10,c11,c12] =
  push_bit 59 (char_to_symbol c0 AND 31) OR (push_bit 54 (char_to_symbol c1 AND 31) OR (push_bit 49 (char_to_symbol c2 AND 31)
  OR (push_bit 44 (char_to_symbol c3 AND 31) OR (push_bit 39 (char_to_symbol c4 AND 31) OR (push_bit 34 (char_to_symbol c5 AND 31)
  OR (push_bit 29 (char_to_symbol c6 AND 31) OR (push_bit 24 (char_to_symbol c7 AND 31) OR (push_bit 19 (char_to_symbol c8 AND 31)
  OR (push_bit 14 (char_to_symbol c9 AND 31) OR (push_bit 9 (char_to_symbol c10 AND 31) OR (push_bit 4 (char_to_symbol c11 AND 31) OR (char_to_symbol c12 AND 15))))))))))))"
  by (simp add: string_to_name_def or.assoc)

lemma string_to_name_digits: "string_to_name (name_digits v) = v"
  unfolding name_digits_def
  by (simp only: list.map append.simps string_to_name_13 charmap_symbol_and and.assoc and.idem
    name_split [symmetric])

lemma loop_snoc_dot:
  "i \<le> 12 \<Longrightarrow> string_to_name_loop (s @ [CHR ''.'']) i nm = 
    (case string_to_name_loop s i nm of (m, j) \<Rightarrow> (m, if j < 12 then Suc j else j))"
  by (induction s i nm rule: string_to_name_loop.induct) (auto simp: char_to_symbol_def)

lemma loop_snd: "i \<le> 12 \<Longrightarrow> snd (string_to_name_loop s i nm) = min 12 (i + length s)"
  by (induction s i nm rule: string_to_name_loop.induct) auto

lemma string_to_name_snoc_dot: "string_to_name (s @ [CHR ''.'']) = string_to_name s"
  using loop_snd [of 0 s 0]
  by (auto simp: string_to_name_def loop_snoc_dot nth_append char_to_symbol_def split: prod.splits)

lemma string_to_name_dots: "string_to_name (s @ replicate n CHR ''.'') = string_to_name s"
proof (induction n)
  case (Suc n)
  have "s @ replicate (Suc n) CHR ''.'' = (s @ replicate n CHR ''.'') @ [CHR ''.'']"
    by (simp add: replicate_append_same)
  with Suc show ?case by (simp only: string_to_name_snoc_dot)
qed simp

lemma trim_right_dots_snoc [simp]:
  "trim_right_dots (s @ [c]) = (if c = CHR ''.'' then trim_right_dots s else s @ [c])"
  by (simp add: trim_right_dots_def)

lemma trim_right_dots_Nil [simp]: "trim_right_dots [] = []"
  by (simp add: trim_right_dots_def)

lemma string_to_name_trim: "string_to_name (trim_right_dots s) = string_to_name s"
  by (induction s rule: rev_induct) (auto simp: string_to_name_snoc_dot)

lemma string_to_name_text: "string_to_name (name_text v) = v"
  by (simp add: name_text_def name_chars string_to_name_trim string_to_name_digits)


lemma window_same:
  fixes x :: u64
  assumes "k \<le> 59"
  shows "drop_bit k (push_bit k (x AND 31)) AND 31 = x AND 31"
  unfolding mask_lits
  using assms by (intro bit_word_eqI) (auto simp: bit_simps)

lemma window_above:
  fixes x :: u64
  assumes "k + 5 \<le> j"
  shows "drop_bit k (push_bit j (x AND 31)) AND 31 = 0"
  unfolding mask_lits
  using assms by (intro bit_word_eqI) (auto simp: bit_simps)

lemma window_below:
  fixes x :: u64
  assumes "j + 5 \<le> k"
  shows "drop_bit k (push_bit j (x AND 31)) AND 31 = 0"
  unfolding mask_lits
  using assms by (intro bit_word_eqI) (auto simp: bit_simps)

lemma window_last:
  fixes x :: u64
  assumes "4 \<le> k"
  shows "drop_bit k (x AND 15) AND 31 = 0" and "push_bit k (x AND 31) AND 15 = 0"
  unfolding mask_lits
  using assms by (auto intro!: bit_word_eqI simp: bit_simps)

lemma charmap_chars:
  assumes "c \<in> set charmap"
  shows "charmap ! unat (char_to_symbol c AND 31) = c"
    and "char_to_symbol c < 16 \<Longrightarrow> charmap ! unat (char_to_symbol c AND 15) = c"
proof -
  have "\<forall>c \<in> set charmap. charmap ! unat (char_to_symbol c AND 31) = c \<and>
          (char_to_symbol c < 16 \<longrightarrow> charmap ! unat (char_to_symbol c AND 15) = c)"
    by (simp add: charmap_def char_to_symbol_def)
  with assms show "charmap ! unat (char_to_symbol c AND 31) = c"
    and "char_to_symbol c < 16 \<Longrightarrow> charmap ! unat (char_to_symbol c AND 15) = c"
    by blast+
qed

lemma name_digits_13:
  assumes "set [c0,c1,c2,c3,c4,c5,c6,c7,c8,c9,c10,c11,c12] \<subseteq> set charmap"
    and "char_to_symbol c12 < 16"
  shows "name_digits (string_to_name [c0,c1,c2,c3,c4,c5,c6,c7,c8,c9,c10,c11,c12])
    = [c0,c1,c2,c3,c4,c5,c6,c7,c8,c9,c10,c11,c12]"
proof -
  have W: "drop_bit k (push_bit j (x AND 31)) AND 31 = (if k = j then x AND 31 else 0)"
    if "k = j \<and> k \<le> 59 \<or> k + 5 \<le> j \<or> j + 5 \<le> k" for k j and x :: u64
    using that window_same window_above window_below by auto
  show ?thesis
    using assms 
    by (simp add: name_digits_def string_to_name_13 drop_bit_or bit.conj_disj_distrib2 window_last W
       charmap_chars  del: push_bit_and drop_bit_and push_bit_numeral)
qed

lemma name_text_eq: "name_text v = trim_right_dots (name_digits v)"
  by (simp add: name_text_def name_chars)

lemma set_trim_right_dots: "set (trim_right_dots s) \<subseteq> set s"
  by (induction s rule: rev_induct) auto

lemma length_trim_right_dots: "length (trim_right_dots s) \<le> length s"
  by (induction s rule: rev_induct) auto

lemma last_trim_right_dots: "trim_right_dots s \<noteq> [] \<Longrightarrow> last (trim_right_dots s) \<noteq> CHR ''.''"
  by (induction s rule: rev_induct) auto

lemma trim_right_dots_same_length:
  "length (trim_right_dots s) = length s \<Longrightarrow> trim_right_dots s = s"
proof (cases s rule: rev_cases)
  case (snoc xs c)
  assume "length (trim_right_dots s) = length s"
  then show ?thesis using snoc length_trim_right_dots [of xs] by (auto split: if_splits)
qed simp

lemma trim_right_dots_append:
  "(s \<noteq> [] \<longrightarrow> last s \<noteq> CHR ''.'') \<Longrightarrow> trim_right_dots (s @ replicate n CHR ''.'') = s"
proof (induction n)
  case 0
  then show ?case by (cases s rule: rev_cases) auto
next
  case (Suc n)
  have "s @ replicate (Suc n) CHR ''.'' = (s @ replicate n CHR ''.'') @ [CHR ''.'']"
    by (simp add: replicate_append_same)
  with Suc show ?case by (simp only: trim_right_dots_snoc) simp
qed

lemma length_name_digits [simp]: "length (name_digits v) = 13"
  by (simp add: name_digits_def)

lemma set_name_digits: "set (name_digits v) \<subseteq> set charmap"
proof -
  have "length charmap = 32" by (simp add: charmap_def)
  then have "charmap ! unat (w AND 31 :: u64) \<in> set charmap"
    and "charmap ! unat (w AND 15 :: u64) \<in> set charmap" for w
    using and_mask_less [of w] by simp_all
  then show ?thesis by (simp add: name_digits_def)
qed

lemma name_digits_last: "char_to_symbol (name_digits v ! 12) < 16"
proof -
  have "name_digits v ! 12 = charmap ! unat (v AND 15)"
    by (simp add: name_digits_def)
  then show ?thesis
    using and_mask_less(2) [of v] by (simp add: charmap_symbol_and word_less_nat_alt)
qed

lemma valid_name_text: "valid_name_string (name_text v)"
proof -
  let ?s = "trim_right_dots (name_digits v)"
  have "char_to_symbol (?s ! 12) < 16" if "length ?s = 13"
    using trim_right_dots_same_length [of "name_digits v"] that name_digits_last by simp
  then show ?thesis
    using set_trim_right_dots [of "name_digits v"] set_name_digits [of v]
      length_trim_right_dots [of "name_digits v"] last_trim_right_dots [of "name_digits v"]
    by (auto simp: valid_name_string_def name_text_eq)
qed

lemma length_13_conv:
  assumes "length p = 13"
  obtains c0 c1 c2 c3 c4 c5 c6 c7 c8 c9 c10 c11 c12
  where "p = [c0,c1,c2,c3,c4,c5,c6,c7,c8,c9,c10,c11,c12]"
  using assms by (auto simp: numeral_eq_Suc length_Suc_conv)

lemma name_digits_string_to_name:
  assumes "length p = 13" and "set p \<subseteq> set charmap" and "char_to_symbol (p ! 12) < 16"
  shows "name_digits (string_to_name p) = p"
  using assms by (elim length_13_conv) (simp only: name_digits_13 nth_Cons_numeral, simp add: name_digits_13)

lemma name_text_string_to_name:
  assumes "valid_name_string s"
  shows "name_text (string_to_name s) = s"
proof -
  let ?p = "s @ replicate (13 - length s) CHR ''.''"
  have dot: "CHR ''.'' \<in> set charmap" "char_to_symbol CHR ''.'' = 0"
    by (simp_all add: charmap_def char_to_symbol_def)
  have "char_to_symbol (?p ! 12) < 16"
    using assms dot by (cases "length s = 13") (auto simp: valid_name_string_def nth_append)
  moreover have "length ?p = 13" "set ?p \<subseteq> set charmap"
    using assms dot by (auto simp: valid_name_string_def)
  ultimately have "name_digits (string_to_name ?p) = ?p"
    by (rule name_digits_string_to_name [rotated 2])
  then show ?thesis
    using assms by (simp add: name_text_eq string_to_name_dots trim_right_dots_append
        valid_name_string_def)
qed

text \<open>
  What the code relies on of the trimming function: it drops the longest suffix of characters
  that satisfy the predicate. Under this law the printed name is the reference text.
\<close>

locale trim_right_library =
  fixes trim_right_if :: trimmer
  assumes trim_right_if: "trim_right_if P s = rev (dropWhile P (rev s))"
begin

lemma name_to_string_text: "name_to_string trim_right_if v = name_text v"
  by (simp add: name_to_string_def name_text_def trim_right_dots_def trim_right_if)

lemma value_of_string: "string_to_name (name_to_string trim_right_if v) = v"
  by (simp add: name_to_string_text string_to_name_text)

lemma name_set_Inr_iff:
  "name_set trim_right_if s = Inr v \<longleftrightarrow> valid_name_string s \<and> v = string_to_name s"
proof
  assume "name_set trim_right_if s = Inr v"
  then have "name_text v = s" "v = string_to_name s"
    by (auto simp: name_set_def Let_def name_to_string_text)
  then show "valid_name_string s \<and> v = string_to_name s"
    using valid_name_text [of v] by simp
next
  assume "valid_name_string s \<and> v = string_to_name s"
  then show "name_set trim_right_if s = Inr v"
    by (auto simp: name_set_def Let_def name_to_string_text name_text_string_to_name
        valid_name_string_def)
qed

end

definition reference_trim :: trimmer where
  "reference_trim P s = rev (dropWhile P (rev s))"

interpretation ref_trim: trim_right_library reference_trim
  by unfold_locales (simp add: reference_trim_def)

text \<open>
  C28: converting any 64-bit name to its string and back gives the same name, so no two
  accounts print alike.
\<close>

theorem name_value_roundtrip:
  assumes "trim_right_library trim_right_if"
  shows "string_to_name (name_to_string trim_right_if v) = v"
  using assms by (rule trim_right_library.value_of_string)

theorem name_value_roundtrip_witness:
  "string_to_name (name_to_string reference_trim 0x5530EA0000000000) = 0x5530EA0000000000"
  by (rule name_value_roundtrip [OF ref_trim.trim_right_library_axioms])

text \<open>
  C32: \<open>name::set\<close> accepts exactly the strings of at most thirteen characters over the name
  alphabet whose thirteenth character fits in four bits and that do not end in a dot, and the
  value it stores is the packed one; every other string is refused.
\<close>

theorem name_set_exact:
  assumes "trim_right_library trim_right_if"
  shows "name_set trim_right_if s = Inr v \<longleftrightarrow> valid_name_string s \<and> v = string_to_name s"
  using assms by (rule trim_right_library.name_set_Inr_iff)

theorem name_set_exact_witness:
  "\<forall>v. name_set reference_trim ''dreamoji.'' \<noteq> Inr v"
  using name_set_exact [OF ref_trim.trim_right_library_axioms, of "''dreamoji.''"]
  by (simp add: valid_name_string_def)

end
