(* ===== verification/Merkle.thy ===== *)
theory Merkle
  imports Prelude
begin

text \<open>
  The block and transaction Merkle trees
  (\<open>libraries/chain/merkle.cpp\<close>, \<open>libraries/chain/include/eosio/chain/merkle.hpp\<close> and
  \<open>incremental_merkle.hpp\<close>). A digest is the four 64-bit words of \<open>fc::sha256\<close>. The hash of a
  pair of digests is computed by a cryptographic library outside the repository, so it is the
  parameter \<open>H\<close> of every definition that hashes.
\<close>

datatype digest_type = Digest (hash0: u64) (hash1: u64) (hash2: u64) (hash3: u64)

definition null_digest :: digest_type where
  "null_digest = Digest 0 0 0 0"

section \<open>The batch tree\<close>

definition make_canonical_left :: "digest_type \<Rightarrow> digest_type" where
  "make_canonical_left val =
     Digest (hash0 val AND 0xFFFFFFFFFFFFFF7F) (hash1 val) (hash2 val) (hash3 val)"

definition make_canonical_right :: "digest_type \<Rightarrow> digest_type" where
  "make_canonical_right val = Digest (hash0 val OR 0x80) (hash1 val) (hash2 val) (hash3 val)"

definition is_canonical_left :: "digest_type \<Rightarrow> bool" where
  "is_canonical_left val \<longleftrightarrow> hash0 val AND 0x80 = 0"

definition is_canonical_right :: "digest_type \<Rightarrow> bool" where
  "is_canonical_right val \<longleftrightarrow> hash0 val AND 0x80 \<noteq> 0"

definition make_canonical_pair :: "digest_type \<Rightarrow> digest_type \<Rightarrow> digest_type \<times> digest_type" where
  "make_canonical_pair l r = (make_canonical_left l, make_canonical_right r)"

type_synonym pair_hash = "digest_type \<times> digest_type \<Rightarrow> digest_type"

text \<open>
  One turn of the outer loop of \<open>merkle\<close>: duplicate the last digest of an odd level, overwrite
  the first half in place with the hashes of the pairs, and shrink the vector.
\<close>

definition merkle_level :: "pair_hash \<Rightarrow> digest_type list \<Rightarrow> digest_type list" where
  "merkle_level H ids =
     (let ids = (if length ids mod 2 = 1 then ids @ [last ids] else ids);
          ids = fold (\<lambda>i ids. ids[i := H (make_canonical_pair (ids ! (2 * i)) (ids ! (2 * i + 1)))])
                  [0..<length ids div 2] ids
      in take (length ids div 2) ids)"

lemma length_fold_update:
  "length (fold (\<lambda>i xs. xs[i := f i xs]) is xs) = length xs"
  by (induction "is" arbitrary: xs) auto

lemma length_merkle_level [simp]: "length (merkle_level H ids) = (length ids + 1) div 2"
  unfolding merkle_level_def Let_def by (simp add: length_fold_update) presburger

function merkle_loop :: "pair_hash \<Rightarrow> digest_type list \<Rightarrow> digest_type list" where
  "merkle_loop H ids = (if 1 < length ids then merkle_loop H (merkle_level H ids) else ids)"
  by pat_completeness auto
termination
  by (relation "measure (\<lambda>(H, ids). length ids)") auto

declare merkle_loop.simps [simp del]

definition merkle :: "pair_hash \<Rightarrow> digest_type list \<Rightarrow> digest_type" where
  "merkle H ids = (if length ids = 0 then null_digest else hd (merkle_loop H ids))"

section \<open>The incremental tree\<close>

definition next_power_of_2 :: "u64 \<Rightarrow> u64" where
  "next_power_of_2 value =
     (let value = value - 1;
          value = value OR drop_bit 1 value;
          value = value OR drop_bit 2 value;
          value = value OR drop_bit 4 value;
          value = value OR drop_bit 8 value;
          value = value OR drop_bit 16 value;
          value = value OR drop_bit 32 value
      in value + 1)"

definition clz_power_2 :: "u64 \<Rightarrow> int" where
  "clz_power_2 value =
     (let lz = 64;
          lz = (if value \<noteq> 0 then lz - 1 else lz);
          lz = (if value AND 0x00000000FFFFFFFF \<noteq> 0 then lz - 32 else lz);
          lz = (if value AND 0x0000FFFF0000FFFF \<noteq> 0 then lz - 16 else lz);
          lz = (if value AND 0x00FF00FF00FF00FF \<noteq> 0 then lz - 8 else lz);
          lz = (if value AND 0x0F0F0F0F0F0F0F0F \<noteq> 0 then lz - 4 else lz);
          lz = (if value AND 0x3333333333333333 \<noteq> 0 then lz - 2 else lz);
          lz = (if value AND 0x5555555555555555 \<noteq> 0 then lz - 1 else lz)
      in lz)"

definition calcluate_max_depth :: "u64 \<Rightarrow> int" where
  "calcluate_max_depth node_count =
     (if node_count = 0 then 0 else clz_power_2 (next_power_of_2 node_count) + 1)"

record incremental_merkle =
  node_count :: u64
  active_nodes :: "digest_type list"

definition empty_incremental_merkle :: incremental_merkle where
  "empty_incremental_merkle = \<lparr>node_count = 0, active_nodes = []\<rparr>"

text \<open>
  The loop of \<open>append\<close>, on the number of levels left. Reading \<open>*active_iter\<close> past the end of the
  old active nodes is the result \<open>None\<close>.
\<close>

fun append_loop ::
  "pair_hash \<Rightarrow> nat \<Rightarrow> u64 \<Rightarrow> digest_type \<Rightarrow> digest_type list \<Rightarrow> digest_type list \<Rightarrow> bool
     \<Rightarrow> (digest_type \<times> digest_type list) option" where
  "append_loop H 0 index node active_iter updated partial = Some (node, updated)"
| "append_loop H (Suc depth) index node active_iter updated partial =
     (if index AND 1 = 0
      then append_loop H depth (drop_bit 1 index) (H (make_canonical_pair node node)) active_iter
             (if \<not> partial then updated @ [node] else updated) True
      else (case active_iter of
              [] \<Rightarrow> None
            | left_value # active_iter' \<Rightarrow>
                append_loop H depth (drop_bit 1 index) (H (make_canonical_pair left_value node))
                  active_iter' (if partial then updated @ [left_value] else updated) partial))"

definition merkle_append :: "pair_hash \<Rightarrow> digest_type \<Rightarrow> incremental_merkle \<Rightarrow> incremental_merkle option" where
  "merkle_append H digest m =
     (case append_loop H (nat (calcluate_max_depth (node_count m + 1) - 1)) (node_count m) digest
             (active_nodes m) [] False of
        None \<Rightarrow> None
      | Some (node, updated) \<Rightarrow>
          Some (m\<lparr>active_nodes := updated @ [node], node_count := node_count m + 1\<rparr>))"

definition get_root :: "incremental_merkle \<Rightarrow> digest_type" where
  "get_root m = (if 0 < node_count m then last (active_nodes m) else null_digest)"

text \<open>
  The interface the block header state relies on: a tree of leaves that can be extended one
  leaf at a time and whose root is, at every moment, the root of the batch construction over
  the leaves appended so far. \<open>capacity\<close> is the number of leaves the counter can carry.
\<close>

fun append_all :: "('d \<Rightarrow> 'm \<Rightarrow> 'm option) \<Rightarrow> 'd list \<Rightarrow> 'm \<Rightarrow> 'm option" where
  "append_all app [] m = Some m"
| "append_all app (x # xs) m = (case app x m of None \<Rightarrow> None | Some m' \<Rightarrow> append_all app xs m')"

locale append_tree =
  fixes empty :: 'm
    and app :: "'d \<Rightarrow> 'm \<Rightarrow> 'm option"
    and root :: "'m \<Rightarrow> 'd"
    and batch :: "'d list \<Rightarrow> 'd"
    and holds :: "'d list \<Rightarrow> 'm \<Rightarrow> bool"
    and capacity :: nat
  assumes holds_empty: "holds [] empty"
    and holds_app: "holds xs m \<Longrightarrow> length xs < capacity \<Longrightarrow> \<exists>m'. app x m = Some m' \<and> holds (xs @ [x]) m'"
    and holds_root: "holds xs m \<Longrightarrow> length xs \<le> capacity \<Longrightarrow> root m = batch xs"
begin

lemma append_all_holds:
  assumes "holds xs m" and "length xs + length ys \<le> capacity"
  shows "\<exists>m'. append_all app ys m = Some m' \<and> holds (xs @ ys) m'"
  using assms
proof (induction ys arbitrary: xs m)
  case Nil
  then show ?case by simp
next
  case (Cons y ys)
  then obtain m' where m': "app y m = Some m'" "holds (xs @ [y]) m'"
    using holds_app [of xs m y] by auto
  then have "\<exists>m''. append_all app ys m' = Some m'' \<and> holds ((xs @ [y]) @ ys) m''"
    using Cons.prems by (intro Cons.IH) auto
  with m' show ?case by simp
qed

lemma append_all_root:
  assumes "length ys \<le> capacity"
  shows "\<exists>m. append_all app ys empty = Some m \<and> root m = batch ys"
  using append_all_holds [OF holds_empty, of ys] assms holds_root by auto

end

section \<open>Levels of the tree\<close>

abbreviation node_hash :: "pair_hash \<Rightarrow> digest_type \<Rightarrow> digest_type \<Rightarrow> digest_type" where
  "node_hash H l r \<equiv> H (make_canonical_pair l r)"

lemma fold_level:
  assumes "k \<le> length ids div 2"
  shows "fold (\<lambda>i ids. ids[i := node_hash H (ids ! (2 * i)) (ids ! (2 * i + 1))]) [0..<k] ids
    = map (\<lambda>i. node_hash H (ids ! (2 * i)) (ids ! (2 * i + 1))) [0..<k] @ drop k ids"
  using assms
proof (induction k)
  case (Suc k)
  let ?pre = "map (\<lambda>i. node_hash H (ids ! (2 * i)) (ids ! (2 * i + 1))) [0..<k]"
  have "(?pre @ drop k ids) ! (2 * k) = ids ! (2 * k)"
    "(?pre @ drop k ids) ! (2 * k + 1) = ids ! (2 * k + 1)"
    using Suc.prems by (simp_all add: nth_append mult_2)
  moreover have "drop k ids = ids ! k # drop (Suc k) ids"
    using Suc.prems by (intro Cons_nth_drop_Suc [symmetric]) simp
  ultimately show ?case
    using Suc by (simp add: list_update_append)
qed simp

lemma merkle_level_even:
  assumes "length ids mod 2 = 0"
  shows "merkle_level H ids
    = map (\<lambda>i. node_hash H (ids ! (2 * i)) (ids ! (2 * i + 1))) [0..<length ids div 2]"
  using assms fold_level [of "length ids div 2" ids H]
  by (simp add: merkle_level_def Let_def)

lemma merkle_level_odd:
  assumes "length ids mod 2 = 1"
  shows "merkle_level H ids = merkle_level H (ids @ [last ids])"
proof -
  have "length (ids @ [last ids]) mod 2 = 0" using assms by simp presburger
  with assms show ?thesis by (simp add: merkle_level_def Let_def)
qed

lemma nth_merkle_level:
  assumes "i < (length ids + 1) div 2"
  shows "merkle_level H ids ! i =
    node_hash H (ids ! (2 * i)) (if 2 * i + 1 < length ids then ids ! (2 * i + 1) else ids ! (2 * i))"
proof (cases "length ids mod 2 = 0")
  case True
  then have "2 * i + 1 < length ids" "i < length ids div 2" using assms by presburger+
  with True show ?thesis by (simp add: merkle_level_even)
next
  case False
  then have odd: "length ids mod 2 = 1" "length (ids @ [last ids]) mod 2 = 0" by simp_all presburger
  then have "ids \<noteq> []" by auto
  then have "last ids = ids ! (length ids - 1)" by (rule last_conv_nth)
  moreover have "2 * i < length ids" "length ids - 1 = 2 * i \<or> 2 * i + 1 < length ids"
    using assms odd(1) by presburger+
  ultimately show ?thesis
    using odd assms by (auto simp: merkle_level_odd [OF odd(1)] merkle_level_even nth_append)
qed

abbreviation level :: "pair_hash \<Rightarrow> nat \<Rightarrow> digest_type list \<Rightarrow> digest_type list" where
  "level H l xs \<equiv> (merkle_level H ^^ l) xs"

lemma half_less: "k < (m::nat) div 2 \<Longrightarrow> 2 * k + 1 < m"
  by presburger

lemma half_odd: "odd (m::nat) \<Longrightarrow> 2 * (m div 2) = m - 1 \<and> m - 1 < m \<and> m \<noteq> 0"
  by presburger

lemma div_pow_Suc: "(n::nat) div 2 ^ Suc l = n div 2 ^ l div 2"
  by (simp only: power_Suc2 div_mult2_eq)

lemma length_level_snoc: "length (level H l (xs @ [x])) = length xs div 2 ^ l + 1"
  by (induction l) (simp_all add: div_pow_Suc del: power_Suc)

lemma length_level_ge: "length xs div 2 ^ l \<le> length (level H l xs)"
proof (induction l)
  case (Suc l)
  then have "length xs div 2 ^ l div 2 \<le> (length (level H l xs) + 1) div 2"
    by (intro div_le_mono) simp
  then show ?case by (simp add: div_pow_Suc del: power_Suc)
qed simp

text \<open>Appending a leaf leaves the nodes over complete groups of earlier leaves alone.\<close>

lemma level_snoc_stable:
  assumes "k < length xs div 2 ^ l"
  shows "level H l (xs @ [x]) ! k = level H l xs ! k"
  using assms
proof (induction l arbitrary: k)
  case 0
  then show ?case by (simp add: nth_append)
next
  case (Suc l)
  have lt: "2 * k + 1 < length xs div 2 ^ l"
    using Suc.prems unfolding div_pow_Suc by (rule half_less)
  with length_level_ge [of xs l H] have "k < (length (level H l xs) + 1) div 2" "2 * k + 1 < length (level H l xs)"
    by simp_all
  then show ?case
    using Suc.IH [of "2 * k"] Suc.IH [of "2 * k + 1"] lt
    by (simp add: nth_merkle_level length_level_snoc)
qed

lemma level_snoc_last:
  "last (level H (Suc l) (xs @ [x])) =
     (let m = length xs div 2 ^ l; node = last (level H l (xs @ [x])) in
      node_hash H (if even m then node else level H l xs ! (m - 1)) node)"
proof -
  let ?L = "level H l (xs @ [x])" and ?m = "length xs div 2 ^ l"
  have len: "length ?L = ?m + 1" by (rule length_level_snoc)
  then have last: "last ?L = ?L ! ?m" by (metis add_diff_cancel_right' last_conv_nth list.size(3) zero_neq_one add_is_0)
  have "last (merkle_level H ?L) = merkle_level H ?L ! (?m div 2)"
    using len by (subst last_conv_nth) (auto simp flip: length_0_conv)
  also have "\<dots> = node_hash H (?L ! (2 * (?m div 2))) (if 2 * (?m div 2) + 1 < length ?L then ?L ! (2 * (?m div 2) + 1) else ?L ! (2 * (?m div 2)))"
    by (rule nth_merkle_level) (simp add: len)
  finally have e: "last (merkle_level H ?L) = \<dots>" .
  show ?thesis
  proof (cases "even ?m")
    case True
    with e len last show ?thesis by (simp add: Let_def)
  next
    case False
    note half_odd [OF False]
    with e len last False show ?thesis
      by (simp add: Let_def level_snoc_stable)
  qed
qed

section \<open>The bit tricks\<close>

lemma smear_step:
  fixes v m :: u64
  assumes "ww = w + w" and "\<And>i. bit v i \<longleftrightarrow> (\<exists>j. i \<le> j \<and> j < i + w \<and> bit m j)"
  shows "bit (v OR drop_bit w v) i \<longleftrightarrow> (\<exists>j. i \<le> j \<and> j < i + ww \<and> bit m j)"
proof -
  have "bit (v OR drop_bit w v) i \<longleftrightarrow>
      (\<exists>j. i \<le> j \<and> j < i + w \<and> bit m j) \<or> (\<exists>j. w + i \<le> j \<and> j < w + i + w \<and> bit m j)"
    by (simp only: bit_or_iff bit_drop_bit_eq assms(2) o_def)
  also have "\<dots> \<longleftrightarrow> (\<exists>j. i \<le> j \<and> j < i + ww \<and> bit m j)"
  proof -
    have "i \<le> j \<and> j < i + ww \<longleftrightarrow> (i \<le> j \<and> j < i + w) \<or> (w + i \<le> j \<and> j < w + i + w)" for j
      unfolding assms(1) by arith
    then show ?thesis by blast
  qed
  finally show ?thesis .
qed

lemma next_power_of_2_bits:
  fixes v :: u64
  obtains r where "next_power_of_2 v = r + 1"
    and "\<And>i. bit r i \<longleftrightarrow> (\<exists>j. i \<le> j \<and> j < i + 64 \<and> bit (v - 1) j)"
proof -
  have b0: "bit (v - 1) i \<longleftrightarrow> (\<exists>j. i \<le> j \<and> j < i + 1 \<and> bit (v - 1) j)" for i
    by (auto simp: less_Suc_eq_le dest: order_antisym)
  have w: "2 = 1 + (1::nat)" "4 = 2 + (2::nat)" "8 = 4 + (4::nat)" "16 = 8 + (8::nat)"
    "32 = 16 + (16::nat)" "64 = 32 + (32::nat)" by simp_all
  note b1 = smear_step [OF w(1) b0]
  note b2 = smear_step [OF w(2) b1]
  note b4 = smear_step [OF w(3) b2]
  note b8 = smear_step [OF w(4) b4]
  note b16 = smear_step [OF w(5) b8]
  note b32 = smear_step [OF w(6) b16]
  show ?thesis
    by (rule that [OF _ b32]) (simp only: next_power_of_2_def Let_def)
qed

lemma bit_below:
  assumes "k < 2 ^ d" and "bit (k::nat) j"
  shows "j < d"
proof (rule ccontr)
  assume "\<not> j < d"
  then have "(2::nat) ^ d \<le> 2 ^ j" by simp
  with assms(1) have "k div 2 ^ j = 0" by (meson div_less less_le_trans)
  with assms(2) show False by (simp add: bit_iff_odd)
qed

lemma bit_top:
  assumes "2 ^ d \<le> (k::nat)" and "k < 2 ^ Suc d"
  shows "bit k d"
proof -
  have "k div 2 ^ d = 1"
    using assms by (simp add: div_nat_eqI)
  then show ?thesis by (simp add: bit_iff_odd)
qed

lemma next_power_of_2_eq:
  assumes "0 < n" and "n \<le> 2 ^ d" and "d = 0 \<or> 2 ^ (d - 1) < n" and "d < 64"
  shows "next_power_of_2 (of_nat n) = 2 ^ d"
proof -
  let ?m = "of_nat n - 1 :: u64"
  have n64: "n - 1 < 2 ^ 64"
    using assms(2,4) power_strict_increasing [of d 64 "2::nat"] by simp
  have "?m = of_nat (n - 1)" using assms(1) by (simp add: of_nat_diff)
  then have m: "unat ?m = n - 1" using n64 by (simp add: unat_of_nat)
  have bm: "bit ?m j \<longleftrightarrow> bit (n - 1) j" for j
    unfolding m [symmetric] by (simp add: bit_unsigned_iff del: unsigned_minus_1_eq_mask)
  obtain r where r: "next_power_of_2 (of_nat n) = r + 1"
    "\<And>i. bit r i \<longleftrightarrow> (\<exists>j. i \<le> j \<and> j < i + 64 \<and> bit ?m j)"
    using next_power_of_2_bits [of "of_nat n"] by blast
  have "bit r i \<longleftrightarrow> i < d" for i
  proof
    assume "bit r i"
    then obtain j where "i \<le> j" "bit (n - 1) j" using r(2) bm by auto
    moreover have "n - 1 < 2 ^ d" using assms(1,2) by simp
    ultimately show "i < d" using bit_below le_less_trans by blast
  next
    assume "i < d"
    then obtain e where e: "d = Suc e" by (cases d) auto
    then have "bit (n - 1) e" using assms(1-3) by (intro bit_top) auto
    with \<open>i < d\<close> e assms(4) show "bit r i" using r(2) bm by (auto intro!: exI [of _ e])
  qed
  then have "r = mask d"
    using assms(4) by (intro bit_word_eqI) (simp add: bit_mask_iff)
  then show ?thesis by (simp add: r(1) mask_eq_exp_minus_1)
qed

lemma clz_power_2_eq:
  assumes "d < 64"
  shows "clz_power_2 (2 ^ d) = int d"
proof -
  have "\<forall>d \<in> set [0..<64]. clz_power_2 (2 ^ d) = int d"
    by (simp add: upt_rec clz_power_2_def)
  with assms show ?thesis by simp
qed

lemma calcluate_max_depth_eq:
  assumes "0 < n" and "n \<le> 2 ^ d" and "d = 0 \<or> 2 ^ (d - 1) < n" and "d < 64"
  shows "calcluate_max_depth (of_nat n) = int d + 1"
proof -
  have "n < 2 ^ 64"
    using assms(2,4) power_strict_increasing [of d 64 "2::nat"] by simp
  then have "(of_nat n :: u64) \<noteq> 0"
    using assms(1) by (simp add: word_of_nat_eq_0_iff nat_dvd_not_less)
  then show ?thesis
    using assms by (simp add: calcluate_max_depth_def next_power_of_2_eq clz_power_2_eq)
qed

lemma ceil_log_exists: "0 < n \<Longrightarrow> \<exists>d. n \<le> 2 ^ d \<and> (d = 0 \<or> 2 ^ (d - 1) < (n::nat))"
proof -
  define d where "d = (LEAST d. n \<le> 2 ^ d)"
  have ex: "n \<le> 2 ^ n" by (simp add: less_imp_le)
  then have "n \<le> 2 ^ d" unfolding d_def by (rule LeastI)
  moreover have "d = 0 \<or> 2 ^ (d - 1) < n"
    unfolding d_def by (metis (mono_tags, lifting) diff_less less_one linorder_not_less neq0_conv not_less_Least)
  ultimately show ?thesis by blast
qed

section \<open>The active nodes\<close>

text \<open>
  The roots of the complete subtrees that a binary count of the leaves stands for, from the
  smallest to the largest; \<open>m\<close> is the number of complete groups of \<open>2 ^ l\<close> leaves.
\<close>

function active_from :: "pair_hash \<Rightarrow> nat \<Rightarrow> nat \<Rightarrow> digest_type list \<Rightarrow> digest_type list" where
  "active_from H l m xs =
     (if m = 0 then []
      else if odd m then level H l xs ! (m - 1) # active_from H (Suc l) (m div 2) xs
      else active_from H (Suc l) (m div 2) xs)"
  by pat_completeness auto
termination
  by (relation "measure (\<lambda>(H, l, m, xs). m)") auto

declare active_from.simps [simp del]

lemma active_from_0 [simp]: "active_from H l 0 xs = []"
  by (simp add: active_from.simps [of H l 0])

lemma active_from_odd: "odd m \<Longrightarrow>
    active_from H l m xs = level H l xs ! (m - 1) # active_from H (Suc l) (m div 2) xs"
  by (auto simp: active_from.simps [of H l m] dest: odd_pos)

lemma active_from_even: "even m \<Longrightarrow> active_from H l m xs = active_from H (Suc l) (m div 2) xs"
  by (cases "m = 0") (auto simp: active_from.simps [of H l m])

lemma active_from_pow2: "active_from H l (2 ^ d) xs = [level H (l + d) xs ! 0]"
proof (induction d arbitrary: l)
  case 0
  then show ?case by (simp add: active_from_odd)
next
  case (Suc d)
  then show ?case using Suc [of "Suc l"] by (simp add: active_from_even)
qed

lemma active_from_snoc:
  "m = length xs div 2 ^ l \<Longrightarrow> active_from H l m (xs @ [x]) = active_from H l m xs"
proof (induction m arbitrary: l rule: less_induct)
  case (less m)
  show ?case
  proof (cases "m = 0")
    case False
    then have "active_from H (Suc l) (m div 2) (xs @ [x]) = active_from H (Suc l) (m div 2) xs"
      using less by (intro less.IH) (auto simp: div_pow_Suc simp del: power_Suc)
    moreover have "level H l (xs @ [x]) ! (m - 1) = level H l xs ! (m - 1)"
      using less.prems False by (intro level_snoc_stable) simp
    ultimately show ?thesis
      by (cases "odd m") (simp_all add: active_from_odd active_from_even)
  qed simp
qed

lemma word_parity: "(of_nat m :: u64) AND 1 = 0 \<longleftrightarrow> even m"
  by (simp add: and_one_eq mod2_eq_if)

lemma word_half: "m < 2 ^ 64 \<Longrightarrow> drop_bit (Suc 0) (of_nat m :: u64) = of_nat (m div 2)"
proof -
  assume m: "m < 2 ^ 64"
  then have "unat (drop_bit (Suc 0) (of_nat m :: u64)) = drop_bit (Suc 0) m"
    by (simp only: unat_drop_bit_eq) (simp add: unat_of_nat)
  also have "\<dots> = unat (of_nat (m div 2) :: u64)"
    using m by (simp add: unat_of_nat drop_bit_eq_div)
  finally show ?thesis by (simp only: word_unat_eq_iff)
qed

lemma append_loop_partial:
  assumes "length xs < 2 ^ 64" and "length xs div 2 ^ (l + d) = 0"
  shows "append_loop H d (of_nat (length xs div 2 ^ l)) (last (level H l (xs @ [x])))
      (active_from H l (length xs div 2 ^ l) xs @ rest) updated True
    = Some (last (level H (l + d) (xs @ [x])), updated @ active_from H l (length xs div 2 ^ l) xs)"
  using assms(2)
proof (induction d arbitrary: l updated)
  case (Suc d)
  let ?m = "length xs div 2 ^ l"
  have m64: "?m < 2 ^ 64" using assms(1) div_le_dividend le_less_trans by blast
  have half: "length xs div 2 ^ Suc l = ?m div 2" by (rule div_pow_Suc)
  have IH: "append_loop H d (of_nat (?m div 2)) (last (level H (Suc l) (xs @ [x])))
      (active_from H (Suc l) (?m div 2) xs @ rest) u True
    = Some (last (level H (l + Suc d) (xs @ [x])), u @ active_from H (Suc l) (?m div 2) xs)" for u
    using Suc.IH [of "Suc l" u] Suc.prems by (simp only: half add_Suc_right add_Suc)
  show ?case
    using IH m64 level_snoc_last [of l H xs x]
    by (cases "even ?m")
      (simp_all add: word_parity word_half active_from_odd active_from_even Let_def)
qed simp

lemma append_loop_full:
  assumes "length xs < 2 ^ 64" and "length xs div 2 ^ (l + d) = 0"
    and "(length xs + 1) div 2 ^ l = length xs div 2 ^ l + 1"
  shows "append_loop H d (of_nat (length xs div 2 ^ l)) (last (level H l (xs @ [x])))
      (active_from H l (length xs div 2 ^ l) xs @ rest) updated False
    = Some (last (level H (l + d) (xs @ [x])),
        if length xs div 2 ^ l + 1 = 2 ^ d then updated
        else updated @ active_from H l (length xs div 2 ^ l + 1) (xs @ [x]))"
  using assms(2,3)
proof (induction d arbitrary: l updated)
  case (Suc d)
  let ?m = "length xs div 2 ^ l"
  have m64: "?m < 2 ^ 64" using assms(1) div_le_dividend le_less_trans by blast
  have half: "length xs div 2 ^ Suc l = ?m div 2" by (rule div_pow_Suc)
  show ?case
  proof (cases "even ?m")
    case True
    have nth: "last (level H l (xs @ [x])) = level H l (xs @ [x]) ! ?m"
      by (metis add_diff_cancel_right' add_is_0 last_conv_nth length_level_snoc list.size(3) zero_neq_one)
    have "(?m + 1) div 2 = ?m div 2" "odd (?m + 1)" using True by auto
    moreover from this(2) have "?m + 1 \<noteq> 2 ^ Suc d" by (metis even_power even_numeral zero_less_Suc)
    ultimately show ?thesis
      using append_loop_partial [OF assms(1), of "Suc l" d H x rest "updated @ [last (level H l (xs @ [x]))]"]
        Suc.prems(1) True level_snoc_last [of l H xs x] m64
        active_from_snoc [of "?m div 2" xs "Suc l" H x]
      by (simp add: word_parity word_half active_from_odd active_from_even Let_def half nth del: power_Suc)
  next
    case False
    have "(length xs + 1) div 2 ^ Suc l = ?m div 2 + 1"
      using Suc.prems(2) False by (simp add: div_pow_Suc del: power_Suc)
    then have IH: "append_loop H d (of_nat (?m div 2)) (last (level H (Suc l) (xs @ [x])))
        (active_from H (Suc l) (?m div 2) xs @ rest) updated False
      = Some (last (level H (l + Suc d) (xs @ [x])),
          if ?m div 2 + 1 = 2 ^ d then updated
          else updated @ active_from H (Suc l) (?m div 2 + 1) (xs @ [x]))"
      using Suc.IH [of "Suc l" updated] Suc.prems(1) by (simp only: half add_Suc_right add_Suc)
    have "(?m + 1) div 2 = ?m div 2 + 1" "even (?m + 1)" "?m + 1 = 2 ^ Suc d \<longleftrightarrow> ?m div 2 + 1 = 2 ^ d"
      using False by (auto elim!: oddE)
    then show ?thesis
      using IH m64 False level_snoc_last [of l H xs x]
      by (simp add: word_parity word_half active_from_odd active_from_even Let_def del: power_Suc)
  qed
qed simp

lemma merkle_loop_level:
  assumes "\<And>l. l < d \<Longrightarrow> 1 < length (level H l ys)"
  shows "merkle_loop H ys = merkle_loop H (level H d ys)"
  using assms
proof (induction d)
  case (Suc d)
  then have "merkle_loop H ys = merkle_loop H (level H d ys)" by simp
  also have "\<dots> = merkle_loop H (level H (Suc d) ys)"
    using Suc.prems [of d] by (subst merkle_loop.simps) simp
  finally show ?case .
qed simp

lemma merkle_snoc:
  assumes "length xs < 2 ^ d" and "d = 0 \<or> 2 ^ (d - 1) \<le> length xs"
  shows "merkle H (xs @ [x]) = last (level H d (xs @ [x]))"
proof -
  have "1 < length (level H l (xs @ [x]))" if "l < d" for l
  proof -
    have "2 ^ l \<le> length xs"
      using that assms(2) order_trans [OF power_increasing [of l "d - 1" "2::nat"]] by auto
    then show ?thesis by (simp add: length_level_snoc div_greater_zero_iff)
  qed
  then have "merkle_loop H (xs @ [x]) = merkle_loop H (level H d (xs @ [x]))"
    by (rule merkle_loop_level)
  moreover have len: "length (level H d (xs @ [x])) = 1"
    using assms(1) by (simp add: length_level_snoc)
  ultimately have "merkle_loop H (xs @ [x]) = level H d (xs @ [x])"
    by (subst (asm) (2) merkle_loop.simps) simp
  with len show ?thesis
    by (cases "level H d (xs @ [x])") (auto simp: merkle_def)
qed

text \<open>The tree holds exactly the leaves \<open>xs\<close>.\<close>

definition holds_leaves :: "pair_hash \<Rightarrow> digest_type list \<Rightarrow> incremental_merkle \<Rightarrow> bool" where
  "holds_leaves H xs m \<longleftrightarrow>
     node_count m = of_nat (length xs) \<and>
     (\<exists>rest. active_nodes m = active_from H 0 (length xs) xs @ rest) \<and>
     (xs \<noteq> [] \<longrightarrow> active_nodes m \<noteq> [] \<and> last (active_nodes m) = merkle H xs)"

lemma holds_leaves_empty: "holds_leaves H [] empty_incremental_merkle"
  by (simp add: holds_leaves_def empty_incremental_merkle_def)

lemma merkle_append_holds:
  assumes "holds_leaves H xs m" and "length xs < 2 ^ 63"
  shows "\<exists>m'. merkle_append H x m = Some m' \<and> holds_leaves H (xs @ [x]) m'"
proof -
  obtain d where d: "length xs + 1 \<le> 2 ^ d" "d = 0 \<or> 2 ^ (d - 1) < length xs + 1"
    using ceil_log_exists [of "length xs + 1"] by auto
  have d64: "d < 64"
  proof (rule ccontr)
    assume "\<not> d < 64"
    then have "(2::nat) ^ 63 \<le> 2 ^ (d - 1)" by (intro power_increasing) auto
    with d(2) assms(2) \<open>\<not> d < 64\<close> show False by simp
  qed
  obtain rest where m: "node_count m = of_nat (length xs)"
    "active_nodes m = active_from H 0 (length xs) xs @ rest"
    using assms(1) by (auto simp: holds_leaves_def)
  have depth: "nat (calcluate_max_depth (node_count m + 1) - 1) = d"
    using calcluate_max_depth_eq [of "length xs + 1" d] d d64 m(1) by (simp add: add.commute)
  have "length xs < 2 ^ 64" "length xs div 2 ^ (0 + d) = 0" using assms(2) d(1) by simp_all
  from append_loop_full [OF this, of H x rest "[]"]
  have loop: "append_loop H d (node_count m) x (active_nodes m) [] False
    = Some (last (level H d (xs @ [x])),
        if length xs + 1 = 2 ^ d then [] else active_from H 0 (length xs + 1) (xs @ [x]))"
    by (simp add: m)
  have root: "merkle H (xs @ [x]) = last (level H d (xs @ [x]))"
    using d by (intro merkle_snoc) auto
  let ?U = "if length xs + 1 = 2 ^ d then [] else active_from H 0 (length xs + 1) (xs @ [x])"
  let ?m = "m\<lparr>active_nodes := ?U @ [merkle H (xs @ [x])], node_count := node_count m + 1\<rparr>"
  have one: "length (level H d (xs @ [x])) = 1" using d(1) by (simp add: length_level_snoc)
  have "active_from H 0 (length xs + 1) (xs @ [x]) = [merkle H (xs @ [x])]" if "length xs + 1 = 2 ^ d"
    unfolding that root using one by (cases "level H d (xs @ [x])") (auto simp: active_from_pow2)
  then have "\<exists>rest. ?U @ [merkle H (xs @ [x])] = active_from H 0 (length xs + 1) (xs @ [x]) @ rest"
    by auto
  moreover have "node_count m + 1 = of_nat (length (xs @ [x]))" by (simp add: m(1))
  ultimately have "holds_leaves H (xs @ [x]) ?m" by (simp add: holds_leaves_def)
  moreover have "merkle_append H x m = Some ?m"
    unfolding merkle_append_def depth loop root by simp
  ultimately show ?thesis by blast
qed

lemma holds_leaves_root:
  assumes "holds_leaves H xs m" and "length xs < 2 ^ 64"
  shows "get_root m = merkle H xs"
proof (cases "xs = []")
  case False
  then have "(of_nat (length xs) :: u64) \<noteq> 0"
    using assms(2) by (simp add: word_of_nat_eq_0_iff nat_dvd_not_less)
  with assms False show ?thesis
    by (auto simp: holds_leaves_def get_root_def word_gt_0)
qed (use assms in \<open>simp add: holds_leaves_def get_root_def merkle_def\<close>)

interpretation imt: append_tree empty_incremental_merkle "merkle_append H" get_root "merkle H"
  "holds_leaves H" "2 ^ 63" for H
proof
  show "holds_leaves H [] empty_incremental_merkle" by (rule holds_leaves_empty)
  show "\<exists>m'. merkle_append H x m = Some m' \<and> holds_leaves H (xs @ [x]) m'"
    if "holds_leaves H xs m" and "length xs < 2 ^ 63" for xs m x
    using that by (rule merkle_append_holds)
  show "get_root m = merkle H xs" if "holds_leaves H xs m" and "length xs \<le> 2 ^ 63" for xs m
    using that by (intro holds_leaves_root) simp_all
qed

section \<open>Properties\<close>

text \<open>
  C6: appending any digests one at a time to an empty incremental tree never reads past the
  recorded active nodes and leaves a root equal to the root \<open>merkle\<close> computes over the whole
  list at once.
\<close>

theorem incremental_root_is_batch_root:
  "length ids \<le> 2 ^ 63 \<Longrightarrow>
   \<exists>m. append_all (merkle_append H) ids empty_incremental_merkle = Some m \<and> get_root m = merkle H ids"
  by (rule imt.append_all_root)

definition sample_hash :: pair_hash where
  "sample_hash = (\<lambda>(l, r). Digest (3 * hash0 l + hash0 r + 1) (hash1 l) (hash2 r) 7)"

theorem incremental_root_is_batch_root_witness:
  "length [Digest 1 0 0 0, Digest 2 0 0 0, Digest 3 0 0 0] \<le> 2 ^ 63 \<and>
   (\<exists>m. append_all (merkle_append sample_hash) [Digest 1 0 0 0, Digest 2 0 0 0, Digest 3 0 0 0]
          empty_incremental_merkle = Some m \<and>
        get_root m = merkle sample_hash [Digest 1 0 0 0, Digest 2 0 0 0, Digest 3 0 0 0])"
proof -
  have h: "length [Digest 1 0 0 0, Digest 2 0 0 0, Digest 3 0 0 0] \<le> 2 ^ 63" by simp
  show ?thesis
    using h incremental_root_is_batch_root [OF h, of sample_hash] by blast
qed

text \<open>
  C35: the depth \<open>calcluate_max_depth\<close> computes with shifts and masks is one more than the
  least \<open>d\<close> with at most \<open>2 ^ d\<close> nodes, for every count up to \<open>2 ^ 63\<close>.
\<close>

theorem max_depth_is_ceiling_log:
  "0 < n \<Longrightarrow> n \<le> 2 ^ 63 \<Longrightarrow>
   \<exists>d. calcluate_max_depth (of_nat n) = int d + 1 \<and> n \<le> 2 ^ d \<and> (\<forall>e. n \<le> 2 ^ e \<longrightarrow> d \<le> e)"
proof -
  assume n: "0 < n" "n \<le> 2 ^ 63"
  then obtain d where d: "n \<le> 2 ^ d" "d = 0 \<or> 2 ^ (d - 1) < n"
    using ceil_log_exists by blast
  have least: "d \<le> e" if "n \<le> 2 ^ e" for e
  proof (rule ccontr)
    assume "\<not> d \<le> e"
    then have "(2::nat) ^ e \<le> 2 ^ (d - 1)" by (intro power_increasing) auto
    moreover have "2 ^ (d - 1) < n" using d(2) \<open>\<not> d \<le> e\<close> by auto
    ultimately show False using that by linarith
  qed
  have "d < 64" using least [OF n(2)] by simp
  with n d least show ?thesis using calcluate_max_depth_eq by blast
qed

theorem max_depth_is_ceiling_log_witness:
  "(0::nat) < 5 \<and> (5::nat) \<le> 2 ^ 63 \<and>
   (\<exists>d. calcluate_max_depth (of_nat 5) = int d + 1 \<and> (5::nat) \<le> 2 ^ d \<and>
        (\<forall>e. (5::nat) \<le> 2 ^ e \<longrightarrow> d \<le> e))"
proof -
  have h: "(0::nat) < 5" "(5::nat) \<le> 2 ^ 63" by simp_all
  show ?thesis using h max_depth_is_ceiling_log [OF h] by blast
qed

end
