(* ===== verification/Safe_Int.thy ===== *)
theory Safe_Int
  imports Prelude "HOL-Library.Signed_Division"
begin

text \<open>
  The checked 64-bit integers \<open>fc::safe<int64_t>\<close> (\<open>libraries/fc/include/fc/safe.hpp\<close>). A value is
  an integer in the range of \<open>int64_t\<close>; each operator tests its operands before it computes and
  throws otherwise. Division and remainder truncate towards zero, as in C++.
\<close>

datatype safe_error = overflow_exception | underflow_exception | divide_by_zero_exception

abbreviation int64_max :: int where "int64_max \<equiv> 2 ^ 63 - 1"
abbreviation int64_min :: int where "int64_min \<equiv> - (2 ^ 63)"

definition safe_add :: "int \<Rightarrow> int \<Rightarrow> (safe_error, int) result" where
  "safe_add a b =
     check (\<not> (b > 0 \<and> a > int64_max - b)) overflow_exception
    (check (\<not> (b < 0 \<and> a < int64_min - b)) underflow_exception
    (Inr (a + b)))"

definition safe_sub :: "int \<Rightarrow> int \<Rightarrow> (safe_error, int) result" where
  "safe_sub a b =
     check (\<not> (b > 0 \<and> a < int64_min + b)) underflow_exception
    (check (\<not> (b < 0 \<and> a > int64_max + b)) overflow_exception
    (Inr (a - b)))"

definition safe_mul :: "int \<Rightarrow> int \<Rightarrow> (safe_error, int) result" where
  "safe_mul a b =
     (if a > 0
      then (if b > 0
            then check (\<not> a > int64_max sdiv b) overflow_exception (Inr (a * b))
            else check (\<not> b < int64_min sdiv a) underflow_exception (Inr (a * b)))
      else (if b > 0
            then check (\<not> a < int64_min sdiv b) underflow_exception (Inr (a * b))
            else check (\<not> (a \<noteq> 0 \<and> b < int64_max sdiv a)) overflow_exception (Inr (a * b))))"

definition safe_div :: "int \<Rightarrow> int \<Rightarrow> (safe_error, int) result" where
  "safe_div a b =
     check (b \<noteq> 0) divide_by_zero_exception
    (check (\<not> (a = int64_min \<and> b = -1)) overflow_exception
    (Inr (a sdiv b)))"

definition safe_mod :: "int \<Rightarrow> int \<Rightarrow> (safe_error, int) result" where
  "safe_mod a b =
     check (b \<noteq> 0) divide_by_zero_exception
    (check (\<not> (a = int64_min \<and> b = -1)) overflow_exception
    (Inr (a smod b)))"

definition safe_neg :: "int \<Rightarrow> (safe_error, int) result" where
  "safe_neg a = check (a \<noteq> int64_min) overflow_exception (Inr (- a))"

section \<open>Exactness\<close>

lemma safe_add_exact:
  assumes "in_int64 a" and "in_int64 b"
  shows "safe_add a b = Inr c \<longleftrightarrow> c = a + b \<and> in_int64 (a + b)"
  using assms by (auto simp: safe_add_def in_int64_def check_Inr_iff)

lemma safe_sub_exact:
  assumes "in_int64 a" and "in_int64 b"
  shows "safe_sub a b = Inr c \<longleftrightarrow> c = a - b \<and> in_int64 (a - b)"
  using assms by (auto simp: safe_sub_def in_int64_def check_Inr_iff)

lemma pos_quotient_le_iff:
  assumes "0 < (b::int)"
  shows "a \<le> m div b \<longleftrightarrow> a * b \<le> m"
proof
  assume "a \<le> m div b"
  then have "a * b \<le> m div b * b" using assms by (simp add: mult_right_mono)
  also have "\<dots> \<le> m" using assms by (simp add: minus_mod_eq_div_mult [symmetric])
  finally show "a * b \<le> m" .
next
  assume "a * b \<le> m"
  then have "a * b div b \<le> m div b" using assms by (rule zdiv_mono1)
  with assms show "a \<le> m div b" by simp
qed

lemma sdiv_pos_pos: "0 \<le> (a::int) \<Longrightarrow> 0 < b \<Longrightarrow> a sdiv b = a div b"
  by (cases "a = 0") (simp_all add: signed_divide_int_def)

lemma sdiv_neg_pos: "0 < (m::int) \<Longrightarrow> 0 < b \<Longrightarrow> (- m) sdiv b = - (m div b)"
  by (simp add: signed_divide_int_def)

lemma sdiv_pos_neg: "0 < (m::int) \<Longrightarrow> b < 0 \<Longrightarrow> m sdiv b = - (m div (- b))"
  by (simp add: signed_divide_int_def)

lemma safe_mul_exact:
  assumes "in_int64 a" and "in_int64 b"
  shows "safe_mul a b = Inr c \<longleftrightarrow> c = a * b \<and> in_int64 (a * b)"
proof -
  have lo: "- m \<le> x \<longleftrightarrow> - x \<le> m" for m x :: int by linarith
  consider "a > 0" "b > 0" | "a > 0" "b \<le> 0" | "a \<le> 0" "b > 0" | "a = 0" "b \<le> 0" | "a < 0" "b \<le> 0"
    by linarith
  then show ?thesis
  proof cases
    case 1
    have "0 \<le> a * b" using 1 by simp
    then have "int64_min \<le> a * b" by (rule order_trans [rotated]) simp
    then show ?thesis
      using 1 by (auto simp: safe_mul_def sdiv_pos_pos check_Inr_iff in_int64_def not_less
          pos_quotient_le_iff)
  next
    case 2
    have "a * b \<le> 0" using 2 by (simp add: mult_nonneg_nonpos)
    moreover have "int64_min sdiv a \<le> b \<longleftrightarrow> int64_min \<le> a * b"
      using 2 pos_quotient_le_iff [of a "- b" "2 ^ 63"] sdiv_neg_pos [of "2 ^ 63" a]
      by (simp add: lo mult.commute)
    ultimately show ?thesis
      using 2 by (auto simp: safe_mul_def check_Inr_iff in_int64_def not_less)
  next
    case 3
    have "a * b \<le> 0" using 3 by (simp add: mult_nonpos_nonneg)
    moreover have "int64_min sdiv b \<le> a \<longleftrightarrow> int64_min \<le> a * b"
      using 3 pos_quotient_le_iff [of b "- a" "2 ^ 63"] sdiv_neg_pos [of "2 ^ 63" b]
      by (simp add: lo)
    ultimately show ?thesis
      using 3 by (auto simp: safe_mul_def check_Inr_iff in_int64_def not_less)
  next
    case 4
    then show ?thesis by (auto simp: safe_mul_def check_Inr_iff in_int64_def)
  next
    case 5
    have "0 \<le> a * b" using 5 by (simp add: mult_nonpos_nonpos)
    moreover have "int64_max sdiv a \<le> b \<longleftrightarrow> a * b \<le> int64_max"
      using 5 pos_quotient_le_iff [of "- a" "- b" int64_max] sdiv_pos_neg [of int64_max a]
      by (simp add: mult.commute) linarith
    ultimately show ?thesis
      using 5 by (auto simp: safe_mul_def check_Inr_iff in_int64_def not_less)
  qed
qed

lemma abs_sdiv: "b \<noteq> 0 \<Longrightarrow> \<bar>a sdiv b\<bar> = \<bar>a\<bar> div \<bar>b::int\<bar>"
  by (cases "a = 0") (simp_all add: signed_divide_int_def abs_mult pos_imp_zdiv_nonneg_iff)

lemma in_int64_sdiv:
  assumes "in_int64 a" and "b \<noteq> 0" and "\<not> (a = int64_min \<and> b = -1)"
  shows "in_int64 (a sdiv b)"
proof (cases "\<bar>b\<bar> = 1")
  case True
  then have "b = 1 \<or> b = -1" by linarith
  with assms show ?thesis by (auto simp: in_int64_def signed_divide_int_def sgn_if split: if_splits)
next
  case False
  with assms(2) have "2 \<le> \<bar>b\<bar>" by linarith
  then have "\<bar>a\<bar> div \<bar>b\<bar> \<le> \<bar>a\<bar> div 2" by (intro zdiv_mono2) auto
  then have "\<bar>a sdiv b\<bar> \<le> \<bar>a\<bar> div 2" using assms(2) by (simp add: abs_sdiv)
  moreover have "\<bar>a\<bar> div 2 < 2 ^ 63" using assms(1) by (auto simp: in_int64_def)
  ultimately show ?thesis by (auto simp: in_int64_def)
qed

lemma safe_div_exact:
  assumes "in_int64 a" and "in_int64 b"
  shows "safe_div a b = Inr c \<longleftrightarrow> b \<noteq> 0 \<and> c = a sdiv b \<and> in_int64 (a sdiv b)"
proof (cases "a = int64_min \<and> b = -1")
  case True
  then show ?thesis by (simp add: safe_div_def in_int64_def signed_divide_int_def)
next
  case False
  with in_int64_sdiv [OF assms(1), of b] show ?thesis
    by (auto simp: safe_div_def check_Inr_iff)
qed

lemma safe_neg_exact:
  assumes "in_int64 a"
  shows "safe_neg a = Inr c \<longleftrightarrow> c = - a \<and> in_int64 (- a)"
  using assms by (auto simp: safe_neg_def in_int64_def check_Inr_iff)

text \<open>
  C33: on \<open>int64_t\<close> operands the checked operators of \<open>fc::safe\<close> return exactly the mathematical
  sum, difference, product, truncated quotient and negation when it fits in 64 bits (and the
  divisor is not zero), and throw in every other case.
\<close>

theorem safe_arithmetic_exact:
  assumes "in_int64 a" and "in_int64 b"
  shows "(safe_add a b = Inr c \<longleftrightarrow> c = a + b \<and> in_int64 (a + b))
    \<and> (safe_sub a b = Inr c \<longleftrightarrow> c = a - b \<and> in_int64 (a - b))
    \<and> (safe_mul a b = Inr c \<longleftrightarrow> c = a * b \<and> in_int64 (a * b))
    \<and> (safe_div a b = Inr c \<longleftrightarrow> b \<noteq> 0 \<and> c = a sdiv b \<and> in_int64 (a sdiv b))
    \<and> (safe_neg a = Inr c \<longleftrightarrow> c = - a \<and> in_int64 (- a))"
  using safe_add_exact [OF assms] safe_sub_exact [OF assms] safe_mul_exact [OF assms]
    safe_div_exact [OF assms] safe_neg_exact [OF assms(1)] by blast

theorem safe_arithmetic_exact_witness:
  "in_int64 (- 7) \<and> in_int64 2 \<and> (safe_mul (- 7) 2 = Inr (- 14) \<longleftrightarrow> (- 14 :: int) = - 7 * 2 \<and> in_int64 (- 7 * 2))"
proof -
  have h: "in_int64 (- 7)" "in_int64 2" by (simp_all add: in_int64_def)
  show ?thesis using h safe_arithmetic_exact [OF h, of "- 14"] by blast
qed

end
