(* ===== verification/Asset.thy ===== *)
theory Asset
  imports Safe_Int
begin

text \<open>
  Token symbols and quantities (\<open>libraries/chain/include/eosio/chain/symbol.hpp\<close>,
  \<open>asset.hpp\<close> and \<open>libraries/chain/asset.cpp\<close>). A symbol is the 64-bit value of the class: the
  low byte is the number of decimals, the bytes above it the letters of the name. Shifting a
  64-bit value by 64 bits or more is undefined in C++; its result is the parameter \<open>ub\<close>.
  Whitespace trimming and the conversion between integers and decimal strings are those of the
  Boost library, outside the repository: they are the fields of the parameter \<open>B\<close>.
\<close>

datatype chain_error =
    symbol_type_exception string
  | asset_type_exception string
  | parse_error_exception
  | int64_overflow
  | safe_exception safe_error

type_synonym symbol = u64

record boost =
  trim_copy :: "string \<Rightarrow> string"
  lexical_cast_int64 :: "string \<Rightarrow> int option"
  lexical_cast_string :: "int \<Rightarrow> string"

section \<open>Symbols\<close>

definition max_precision :: nat where
  "max_precision = 18"

definition is_upper :: "char \<Rightarrow> bool" where
  "is_upper c \<longleftrightarrow> 65 \<le> (of_char c :: nat) \<and> (of_char c :: nat) \<le> 90"

definition shift_left :: "(u64 \<Rightarrow> nat \<Rightarrow> u64) \<Rightarrow> u64 \<Rightarrow> nat \<Rightarrow> u64" where
  "shift_left ub x n = (if n < 64 then push_bit n x else ub x n)"

fun string_to_symbol_loop ::
  "(u64 \<Rightarrow> nat \<Rightarrow> u64) \<Rightarrow> string \<Rightarrow> nat \<Rightarrow> u64 \<Rightarrow> (chain_error, u64) result" where
  "string_to_symbol_loop ub [] i r = Inr r"
| "string_to_symbol_loop ub (c # cs) i r =
     check (is_upper c) (symbol_type_exception ''invalid character in symbol name'')
       (string_to_symbol_loop ub cs (Suc i) (r OR shift_left ub (of_char c) (8 * (i + 1))))"

text \<open>The argument is a C string: it ends at its first zero byte.\<close>

definition string_to_symbol ::
  "(u64 \<Rightarrow> nat \<Rightarrow> u64) \<Rightarrow> u8 \<Rightarrow> string \<Rightarrow> (chain_error, u64) result" where
  "string_to_symbol ub precision str =
     bind_res (string_to_symbol_loop ub (takeWhile (\<lambda>c. c \<noteq> CHR 0x00) str) 0 0) (\<lambda>result. Inr (result OR ucast precision))"

definition decimals :: "symbol \<Rightarrow> u8" where
  "decimals m_value = ucast (m_value AND 0xFF)"

function symbol_name_loop :: "u64 \<Rightarrow> string \<Rightarrow> string" where
  "symbol_name_loop v result =
     (if v > 0 then symbol_name_loop (drop_bit 8 v) (result @ [char_of (unat (v AND 0xFF))]) else result)"
  by pat_completeness auto
termination
proof (relation "measure (\<lambda>(v, r). unat v)")
  fix v :: u64 and r :: string
  assume "v > 0"
  then have "0 < unat v" by (simp add: unat_gt_0 word_gt_0)
  moreover have "unat (drop_bit 8 v) = unat v div 2 ^ 8"
    by (subst unat_drop_bit_eq) (rule drop_bit_eq_div)
  ultimately show "((drop_bit 8 v, r @ [char_of (unat (v AND 0xFF))]), v, r) \<in> measure (\<lambda>(v, r). unat v)"
    by simp
qed simp

declare symbol_name_loop.simps [simp del]

definition symbol_name :: "symbol \<Rightarrow> string" where
  "symbol_name m_value = symbol_name_loop (drop_bit 8 m_value) []"

definition valid_name :: "string \<Rightarrow> bool" where
  "valid_name name = list_all is_upper name"

definition symbol_valid :: "symbol \<Rightarrow> bool" where
  "symbol_valid s \<longleftrightarrow> unat (decimals s) \<le> max_precision \<and> valid_name (symbol_name s)"

definition symbol_of_value :: "u64 \<Rightarrow> (chain_error, symbol) result" where
  "symbol_of_value v = check (symbol_valid v) (symbol_type_exception ''invalid symbol'') (Inr v)"

definition symbol_of :: "(u64 \<Rightarrow> nat \<Rightarrow> u64) \<Rightarrow> u8 \<Rightarrow> string \<Rightarrow> (chain_error, symbol) result" where
  "symbol_of ub p s = bind_res (string_to_symbol ub p s) symbol_of_value"

definition find_char :: "char \<Rightarrow> string \<Rightarrow> nat option" where
  "find_char c s = (let n = length (takeWhile (\<lambda>x. x \<noteq> c) s) in if n < length s then Some n else None)"

definition to_int64 :: "boost \<Rightarrow> string \<Rightarrow> (chain_error, int) result" where
  "to_int64 B s = (case lexical_cast_int64 B s of None \<Rightarrow> Inl parse_error_exception | Some n \<Rightarrow> Inr n)"

text \<open>\<open>symbol::from_string\<close>; the assignment to \<open>uint8_t\<close> keeps the low byte of the parsed number.\<close>

definition symbol_from_string ::
  "boost \<Rightarrow> (u64 \<Rightarrow> nat \<Rightarrow> u64) \<Rightarrow> string \<Rightarrow> (chain_error, symbol) result" where
  "symbol_from_string B ub from =
     (let s = trim_copy B from in
      check (s \<noteq> []) (symbol_type_exception ''creating symbol from empty string'')
     (case find_char CHR '','' s of
        None \<Rightarrow> Inl (symbol_type_exception ''missing comma in symbol'')
      | Some comma_pos \<Rightarrow>
          bind_res (to_int64 B (take comma_pos s)) (\<lambda>n.
            let p = (of_int n :: u8); name_part = drop (comma_pos + 1) s in
            check (unat p \<le> max_precision) (symbol_type_exception ''precision should be <= 18'')
           (bind_res (string_to_symbol ub p name_part) symbol_of_value))))"

definition to_symbol_code :: "symbol \<Rightarrow> u64" where
  "to_symbol_code s = drop_bit 8 s"

text \<open>\<open>symbol::precision\<close>: the loop multiplies by ten once for each decimal.\<close>

fun p10_loop :: "nat \<Rightarrow> u64 \<Rightarrow> u64" where
  "p10_loop 0 p10 = p10"
| "p10_loop (Suc p) p10 = p10_loop p (p10 * 10)"

definition precision :: "symbol \<Rightarrow> (chain_error, u64) result" where
  "precision s =
     check (unat (decimals s) \<le> max_precision) (symbol_type_exception ''precision should be <= 18'')
       (Inr (p10_loop (unat (decimals s)) 1))"

definition symbol_to_string :: "symbol \<Rightarrow> string" where
  "symbol_to_string s = dec_string (unat (decimals s)) @ '','' @ symbol_name s"

section \<open>Assets\<close>

record asset =
  amount :: int
  sym :: symbol

definition max_amount :: int where
  "max_amount = 2 ^ 62 - 1"

definition is_amount_within_range :: "asset \<Rightarrow> bool" where
  "is_amount_within_range a \<longleftrightarrow> - max_amount \<le> amount a \<and> amount a \<le> max_amount"

definition is_valid :: "asset \<Rightarrow> bool" where
  "is_valid a \<longleftrightarrow> is_amount_within_range a \<and> symbol_valid (sym a)"

definition make_asset :: "int \<Rightarrow> symbol \<Rightarrow> (chain_error, asset) result" where
  "make_asset n s =
     (let a = \<lparr>amount = n, sym = s\<rparr> in
      check (is_amount_within_range a)
        (asset_type_exception ''magnitude of asset amount must be less than 2^62'')
     (check (symbol_valid s) (asset_type_exception ''invalid symbol'')
     (Inr a)))"

text \<open>
  The compound assignments add and subtract without a range check; an amount that leaves the
  range of \<open>int64_t\<close> is undefined behaviour in C++ and the error \<open>int64_overflow\<close> here.
\<close>

definition asset_plus_assign :: "asset \<Rightarrow> asset \<Rightarrow> (chain_error, asset) result" where
  "asset_plus_assign a b =
     check (sym a = sym b)
       (asset_type_exception ''addition between two different asset is not allowed'')
    (check (in_int64 (amount a + amount b)) int64_overflow
    (Inr (a\<lparr>amount := amount a + amount b\<rparr>)))"

definition asset_minus_assign :: "asset \<Rightarrow> asset \<Rightarrow> (chain_error, asset) result" where
  "asset_minus_assign a b =
     check (sym a = sym b)
       (asset_type_exception ''subtraction between two different asset is not allowed'')
    (check (in_int64 (amount a - amount b)) int64_overflow
    (Inr (a\<lparr>amount := amount a - amount b\<rparr>)))"

definition asset_neg :: "asset \<Rightarrow> (chain_error, asset) result" where
  "asset_neg a = check (in_int64 (- amount a)) int64_overflow (make_asset (- amount a) (sym a))"

definition asset_eq :: "asset \<Rightarrow> asset \<Rightarrow> bool" where
  "asset_eq a b \<longleftrightarrow> sym a = sym b \<and> amount a = amount b"

definition asset_less :: "asset \<Rightarrow> asset \<Rightarrow> (chain_error, bool) result" where
  "asset_less a b =
     check (sym a = sym b)
       (asset_type_exception ''logical operation between two different asset is not allowed'')
       (Inr (amount a < amount b \<or> amount a = amount b \<and> sym a < sym b))"

definition asset_minus :: "asset \<Rightarrow> asset \<Rightarrow> (chain_error, asset) result" where
  "asset_minus a b =
     check (sym a = sym b)
       (asset_type_exception ''subtraction between two different asset is not allowed'')
    (check (in_int64 (amount a - amount b)) int64_overflow
    (make_asset (amount a - amount b) (sym a)))"

definition asset_plus :: "asset \<Rightarrow> asset \<Rightarrow> (chain_error, asset) result" where
  "asset_plus a b =
     check (sym a = sym b)
       (asset_type_exception ''addition between two different asset is not allowed'')
    (check (in_int64 (amount a + amount b)) int64_overflow
    (make_asset (amount a + amount b) (sym a)))"

text \<open>\<open>asset::to_string\<close>: sign, whole part, and the fraction padded by adding the precision.\<close>

definition asset_to_string :: "boost \<Rightarrow> asset \<Rightarrow> (chain_error, string) result" where
  "asset_to_string B a =
     bind_res (precision (sym a)) (\<lambda>p10.
       let sign = (if amount a < 0 then ''-'' else []);
           abs_amount = \<bar>amount a\<bar>;
           result = lexical_cast_string B (abs_amount sdiv sint p10);
           result = (if decimals (sym a) \<noteq> 0
                     then result @ ''.''
                       @ drop 1 (lexical_cast_string B (sint p10 + abs_amount smod sint p10))
                     else result)
       in Inr (sign @ result @ '' '' @ symbol_name (sym a)))"

definition lift_safe :: "(safe_error, 'a) result \<Rightarrow> (chain_error, 'a) result" where
  "lift_safe r = (case r of Inl e \<Rightarrow> Inl (safe_exception e) | Inr x \<Rightarrow> Inr x)"

definition asset_from_string ::
  "boost \<Rightarrow> (u64 \<Rightarrow> nat \<Rightarrow> u64) \<Rightarrow> string \<Rightarrow> (chain_error, asset) result" where
  "asset_from_string B ub from =
     (let s = trim_copy B from in
      case find_char CHR '' '' s of
        None \<Rightarrow> Inl (asset_type_exception ''the amount and symbol should be separated with space'')
      | Some space_pos \<Rightarrow>
         (let symbol_str = trim_copy B (drop (space_pos + 1) s);
              amount_str = take space_pos s;
              dot_pos = find_char CHR ''.'' amount_str
          in check (dot_pos \<noteq> Some (length amount_str - 1))
               (asset_type_exception ''Missing decimal fraction after decimal point'')
            (let precision_digit_str =
                   (case dot_pos of
                      Some d \<Rightarrow> dec_string (length amount_str - d - 1)
                    | None \<Rightarrow> ''0'')
             in bind_res (symbol_from_string B ub (precision_digit_str @ '','' @ symbol_str)) (\<lambda>sy.
                bind_res (case dot_pos of
                    Some d \<Rightarrow>
                      bind_res (to_int64 B (take d amount_str)) (\<lambda>int_part.
                      bind_res (to_int64 B (drop (d + 1) amount_str)) (\<lambda>fract_part.
                      bind_res (if take 1 amount_str = ''-'' then lift_safe (safe_mul fract_part (-1))
                                else Inr fract_part) (\<lambda>fract_part.
                      Inr (int_part, fract_part))))
                  | None \<Rightarrow> bind_res (to_int64 B amount_str) (\<lambda>int_part. Inr (int_part, 0)))
                (\<lambda>(int_part, fract_part).
                bind_res (precision sy) (\<lambda>p10.
                bind_res (lift_safe (safe_mul int_part (sint p10))) (\<lambda>n.
                bind_res (lift_safe (safe_add n fract_part)) (\<lambda>n.
                make_asset n sy))))))))"

section \<open>Symbol codes are their letters\<close>

lemma unat_of_char: "unat (of_char c :: u64) = of_char c"
proof -
  have "(of_char c :: nat) < 256" by simp
  then have "(of_char c :: nat) < 2 ^ 64" by (rule less_trans) simp
  then have "unat (of_nat (of_char c) :: u64) = of_char c" by (simp add: unat_of_nat)
  then show ?thesis by (simp only: of_nat_of_char)
qed

lemma char_of_byte: "char_of (unat (of_char c :: u64)) = c"
  by (simp only: unat_of_char char_of_char)

lemma of_char_byte: "take_bit 8 (of_char c :: u64) = of_char c"
  unfolding word_unat_eq_iff unsigned_take_bit_eq unat_of_char by (simp add: take_bit_eq_mod)

lemma low_byte: "v AND 0xFF = take_bit 8 (v :: u64)"
  by (simp add: take_bit_eq_mask mask_eq_exp_minus_1)

lemma split_low_byte: "take_bit 8 v OR push_bit 8 (drop_bit 8 v) = (v :: u64)"
proof (rule bit_word_eqI)
  fix n show "n < LENGTH(64) \<Longrightarrow> bit (take_bit 8 v OR push_bit 8 (drop_bit 8 v)) n = bit v n"
    by (cases "n < 8") (auto simp: bit_simps)
qed

lemma ucast_ucast_byte: "ucast (ucast (take_bit 8 v) :: u8) = take_bit 8 (v :: u64)"
  by (rule bit_word_eqI) (auto simp: bit_simps)

lemma of_char_char_of: "of_char (char_of (unat (v AND 0xFF))) = (v AND 0xFF :: u64)"
  unfolding low_byte word_unat_eq_iff unat_of_char unsigned_take_bit_eq
  by (simp add: take_bit_eq_mod)

text \<open>The letters of a name as the bytes of a number, the first letter lowest.\<close>

fun letters :: "string \<Rightarrow> u64" where
  "letters [] = 0"
| "letters (c # cs) = of_char c OR push_bit 8 (letters cs)"

lemma take_bit_letters: "length cs \<le> n \<Longrightarrow> take_bit (8 * n) (letters cs) = letters cs"
proof (induction cs arbitrary: n)
  case (Cons c cs)
  then obtain k where n: "n = Suc k" by (cases n) auto
  have "take_bit (8 * n) (of_char c :: u64) = of_char c"
    using of_char_byte [of c] n by (metis min.absorb2 mult_Suc_right le_add1 take_bit_take_bit)
  moreover have "take_bit (8 * n) (push_bit 8 (letters cs)) = push_bit 8 (take_bit (8 * k) (letters cs))"
    unfolding n by (rule bit_word_eqI) (auto simp: bit_simps)
  ultimately show ?case
    using Cons n by (simp add: take_bit_or)
qed simp

lemma letters_Cons:
  assumes "length cs \<le> 7"
  shows "letters (c # cs) AND 0xFF = of_char c" and "drop_bit 8 (letters (c # cs)) = letters cs"
proof -
  have "take_bit 8 (letters (c # cs)) = take_bit 8 (of_char c)"
    by (rule bit_word_eqI) (auto simp: bit_simps)
  then show "letters (c # cs) AND 0xFF = of_char c" by (simp only: low_byte of_char_byte)
  have "drop_bit 8 (of_char c :: u64) = 0"
    using of_char_byte [of c] by (metis drop_bit_take_bit diff_self_eq_0 take_bit_0)
  moreover have "drop_bit 8 (push_bit 8 (letters cs)) = take_bit (8 * 7) (letters cs)"
    by (rule bit_word_eqI) (auto simp: bit_simps)
  ultimately show "drop_bit 8 (letters (c # cs)) = letters cs"
    using take_bit_letters [OF assms] by (simp add: drop_bit_or)
qed

lemma unat_drop_byte: "v \<noteq> 0 \<Longrightarrow> unat (drop_bit 8 v) < unat (v :: u64)"
proof -
  assume "v \<noteq> 0"
  then have "0 < unat v" by (simp add: unat_gt_0)
  moreover have "unat (drop_bit 8 v) = unat v div 2 ^ 8"
    by (subst unat_drop_bit_eq) (rule drop_bit_eq_div)
  ultimately show ?thesis by simp
qed

lemma symbol_name_loop_acc: "symbol_name_loop v r = r @ symbol_name_loop v []"
proof (induction "unat v" arbitrary: v r rule: less_induct)
  case less
  let ?c = "char_of (unat (v AND 0xFF))" and ?d = "drop_bit 8 v"
  show ?case
  proof (cases "v = 0")
    case False
    then have "symbol_name_loop ?d r' = r' @ symbol_name_loop ?d []" for r'
      using less unat_drop_byte by blast
    then have "symbol_name_loop ?d (r @ [?c]) = r @ symbol_name_loop ?d [?c]" by (metis append_assoc)
    with False show ?thesis
      by (simp add: symbol_name_loop.simps [of v r] symbol_name_loop.simps [of v "[]"] word_gt_0)
  qed (simp add: symbol_name_loop.simps)
qed

lemma symbol_name_loop_Cons:
  "v \<noteq> 0 \<Longrightarrow> symbol_name_loop v [] = char_of (unat (v AND 0xFF)) # symbol_name_loop (drop_bit 8 v) []"
  using symbol_name_loop_acc [of "drop_bit 8 v" "[char_of (unat (v AND 0xFF))]"]
  by (simp add: symbol_name_loop.simps [of v "[]"] word_gt_0)

lemma symbol_name_loop_0 [simp]: "symbol_name_loop 0 r = r"
  by (simp add: symbol_name_loop.simps)

lemma is_upper_nonzero: "is_upper c \<Longrightarrow> (of_char c :: u64) \<noteq> 0"
  unfolding word_unat_eq_iff unat_of_char by (auto simp: is_upper_def)

lemma name_of_letters:
  "list_all is_upper s \<Longrightarrow> length s \<le> 8 \<Longrightarrow> symbol_name_loop (letters s) [] = s"
proof (induction s)
  case (Cons c cs)
  have "letters (c # cs) \<noteq> 0"
    using letters_Cons(1) [of cs c] is_upper_nonzero [of c] Cons.prems by auto
  with Cons letters_Cons [of cs c] show ?case
    by (simp add: symbol_name_loop_Cons char_of_byte del: letters.simps)
qed simp

lemma letters_of_name: "letters (symbol_name_loop v []) = v"
proof (induction "unat v" arbitrary: v rule: less_induct)
  case less
  show ?case
  proof (cases "v = 0")
    case False
    then have "letters (symbol_name_loop (drop_bit 8 v) []) = drop_bit 8 v"
      using less unat_drop_byte by blast
    moreover have "v = (v AND 0xFF) OR push_bit 8 (drop_bit 8 v)"
      unfolding low_byte by (simp only: split_low_byte)
    ultimately show ?thesis
      using False by (simp add: symbol_name_loop_Cons of_char_char_of)
  qed simp
qed

lemma length_symbol_name: "take_bit (8 * n) v = v \<Longrightarrow> length (symbol_name_loop v []) \<le> n"
proof (induction n arbitrary: v)
  case (Suc n)
  show ?case
  proof (cases "v = 0")
    case False
    have "take_bit (8 * n) (drop_bit 8 v) = drop_bit 8 v"
      using Suc.prems by (metis add.commute drop_bit_take_bit mult_Suc_right diff_add_inverse)
    with Suc.IH False show ?thesis by (simp add: symbol_name_loop_Cons)
  qed simp
qed simp

lemma string_to_symbol_loop_eq:
  assumes "list_all is_upper s" and "i + length s \<le> 7"
  shows "string_to_symbol_loop ub s i r = Inr (r OR push_bit (8 * (i + 1)) (letters s))"
  using assms
proof (induction s arbitrary: i r)
  case (Cons c cs)
  have "push_bit (8 * (i + 1)) (letters (c # cs))
      = push_bit (8 * (i + 1)) (of_char c) OR push_bit (8 * (Suc i + 1)) (letters cs)"
    by (simp add: push_bit_or algebra_simps)
  with Cons show ?case
    by (simp add: shift_left_def or.assoc)
qed simp

lemma upper_not_nul: "\<not> is_upper CHR 0x00"
  by (simp add: is_upper_def)

lemma upper_c_str: "list_all is_upper s \<Longrightarrow> takeWhile (\<lambda>c. c \<noteq> CHR 0x00) s = s"
  unfolding takeWhile_eq_all_conv list_all_iff using upper_not_nul by metis

lemma symbol_parts:
  assumes "length s \<le> 7" and v_def: "v = push_bit 8 (letters s) OR ucast (p :: u8)"
  shows "decimals v = p" and "drop_bit 8 v = letters s"
proof -
  show "decimals v = p"
    unfolding v_def decimals_def low_byte by (rule bit_word_eqI) (auto simp: bit_simps)
  have "drop_bit 8 (push_bit 8 (letters s)) = take_bit (8 * 7) (letters s)"
    by (rule bit_word_eqI) (auto simp: bit_simps)
  moreover have "drop_bit 8 (ucast p :: u64) = 0"
    by (rule bit_word_eqI) (auto simp: bit_simps dest: bit_imp_le_length)
  ultimately show "drop_bit 8 v = letters s"
    using take_bit_letters [OF assms(1)] by (simp add: v_def drop_bit_or)
qed

lemma symbol_of_eq:
  assumes "list_all is_upper s" and "length s \<le> 7" and "unat p \<le> max_precision"
  shows "\<exists>v. symbol_of ub p s = Inr v \<and> decimals v = p \<and> symbol_name v = s"
proof -
  let ?v = "push_bit 8 (letters s) OR ucast p"
  have "symbol_name ?v = s" "decimals ?v = p"
    using symbol_parts [OF assms(2) refl, of p] assms by (simp_all add: symbol_name_def name_of_letters)
  then show ?thesis
    using assms by (auto simp: symbol_of_def string_to_symbol_def upper_c_str string_to_symbol_loop_eq
        symbol_of_value_def symbol_valid_def valid_name_def)
qed

lemma symbol_of_valid: "symbol_of ub p s = Inr v \<Longrightarrow> symbol_valid v"
  by (auto simp: symbol_of_def symbol_of_value_def)

lemma symbol_of_parts:
  assumes "symbol_valid v"
  shows "symbol_of ub (decimals v) (symbol_name v) = Inr v"
proof -
  have "take_bit (8 * 7) (drop_bit 8 v) = drop_bit 8 v"
    by (rule bit_word_eqI) (auto simp: bit_simps dest: bit_imp_le_length)
  then have len: "length (symbol_name v) \<le> 7"
    unfolding symbol_name_def by (rule length_symbol_name)
  have up: "list_all is_upper (symbol_name v)"
    using assms by (simp add: symbol_valid_def valid_name_def)
  have "push_bit 8 (drop_bit 8 v) OR ucast (decimals v) = v"
    using split_low_byte [of v] by (simp add: decimals_def low_byte or.commute ucast_ucast_byte)
  then show ?thesis
    using assms len up string_to_symbol_loop_eq [of "symbol_name v" 0 ub 0]
    by (simp add: symbol_of_def string_to_symbol_def upper_c_str symbol_of_value_def symbol_name_def
        letters_of_name)
qed

text \<open>
  C31: Every precision of at most 18 and every name of at most seven capital letters make a
  symbol whose decimals and name are the ones given, and every valid symbol is rebuilt from
  its decimals and its name: the 64-bit value and the pair (precision, name) determine each
  other, and no shift of the construction is undefined.
\<close>

theorem symbol_roundtrip:
  "(list_all is_upper s \<and> length s \<le> 7 \<and> unat p \<le> max_precision \<longrightarrow>
      (\<exists>v. symbol_of ub p s = Inr v \<and> symbol_valid v \<and> decimals v = p \<and> symbol_name v = s))
   \<and> (symbol_valid v \<longrightarrow> symbol_of ub (decimals v) (symbol_name v) = Inr v)"
  using symbol_of_eq symbol_of_valid symbol_of_parts by metis

theorem symbol_roundtrip_witness:
  "\<exists>v. symbol_of (\<lambda>x n. 0) 4 ''DREAM'' = Inr v \<and> decimals v = 4 \<and> symbol_name v = ''DREAM''
    \<and> symbol_of (\<lambda>x n. 0) (decimals v) (symbol_name v) = Inr v"
proof -
  have "list_all is_upper ''DREAM'' \<and> length ''DREAM'' \<le> 7 \<and> unat (4 :: u8) \<le> max_precision"
    by (simp add: is_upper_def max_precision_def)
  then obtain v where v: "symbol_of (\<lambda>x n. 0) 4 ''DREAM'' = Inr v" "symbol_valid v" "decimals v = 4"
      "symbol_name v = ''DREAM''"
    using symbol_roundtrip [of "''DREAM''" 4 "\<lambda>x n. 0"] by blast
  moreover have "symbol_of (\<lambda>x n. 0) (decimals v) (symbol_name v) = Inr v"
    using symbol_roundtrip [of "[]" 0 "\<lambda>x n. 0" v] v(2) by blast
  ultimately show ?thesis by blast
qed

section \<open>The conversions of Boost\<close>

text \<open>
  What the code relies on of Boost: trimming a text with no white space at its ends is the
  identity, the conversions between integers of 64 bits and their decimal texts are the usual
  ones. The laws hold of a plain implementation of the three functions.
\<close>

locale boost_strings =
  fixes B :: boost
  assumes trim_id: "s \<noteq> [] \<Longrightarrow> \<not> is_space (hd s) \<Longrightarrow> \<not> is_space (last s) \<Longrightarrow> trim_copy B s = s"
    and cast_digits: "s \<noteq> [] \<Longrightarrow> list_all is_digit s \<Longrightarrow> dec_value s < 2 ^ 63 \<Longrightarrow>
      lexical_cast_int64 B s = Some (int (dec_value s))"
    and cast_neg: "s \<noteq> [] \<Longrightarrow> list_all is_digit s \<Longrightarrow> dec_value s < 2 ^ 63 \<Longrightarrow>
      lexical_cast_int64 B (CHR ''-'' # s) = Some (- int (dec_value s))"
    and cast_string: "0 \<le> n \<Longrightarrow> n < 2 ^ 63 \<Longrightarrow> lexical_cast_string B n = dec_string (nat n)"

definition reference_boost :: boost where
  "reference_boost = \<lparr>
     trim_copy = (\<lambda>s. rev (dropWhile is_space (rev (dropWhile is_space s)))),
     lexical_cast_int64 = (\<lambda>s.
       let neg = take 1 s = ''-''; ds = (if neg then drop 1 s else s) in
       if ds \<noteq> [] \<and> list_all is_digit ds \<and> dec_value ds < 2 ^ 63
       then Some (if neg then - int (dec_value ds) else int (dec_value ds)) else None),
     lexical_cast_string = (\<lambda>n. (if n < 0 then ''-'' else []) @ dec_string (nat \<bar>n\<bar>))\<rparr>"

lemma minus_not_digit: "\<not> is_digit CHR ''-''"
  by (simp add: is_digit_def)

lemma dropWhile_id: "s \<noteq> [] \<Longrightarrow> \<not> P (hd s) \<Longrightarrow> dropWhile P s = s"
  by (cases s) auto

interpretation ref: boost_strings reference_boost
proof
  fix s
  show "s \<noteq> [] \<Longrightarrow> \<not> is_space (hd s) \<Longrightarrow> \<not> is_space (last s) \<Longrightarrow> trim_copy reference_boost s = s"
    by (simp add: reference_boost_def dropWhile_id hd_rev)
  show "s \<noteq> [] \<Longrightarrow> list_all is_digit s \<Longrightarrow> dec_value s < 2 ^ 63 \<Longrightarrow>
      lexical_cast_int64 reference_boost s = Some (int (dec_value s))"
    using minus_not_digit by (cases s) (auto simp: reference_boost_def Let_def)
  show "s \<noteq> [] \<Longrightarrow> list_all is_digit s \<Longrightarrow> dec_value s < 2 ^ 63 \<Longrightarrow>
      lexical_cast_int64 reference_boost (CHR ''-'' # s) = Some (- int (dec_value s))"
    by (simp add: reference_boost_def)
qed (simp add: reference_boost_def)


section \<open>Printing and parsing\<close>

lemma find_char_found: "c \<notin> set xs \<Longrightarrow> find_char c (xs @ c # ys) = Some (length xs)"
proof -
  assume "c \<notin> set xs"
  then have "takeWhile (\<lambda>x. x \<noteq> c) (xs @ c # ys) = xs" by (subst takeWhile_append2) auto
  then show ?thesis by (simp add: find_char_def Let_def)
qed

lemma find_char_none: "c \<notin> set xs \<Longrightarrow> find_char c xs = None"
proof -
  assume "c \<notin> set xs"
  then have "takeWhile (\<lambda>x. x \<noteq> c) xs = xs" by (auto simp: takeWhile_eq_all_conv)
  then show ?thesis unfolding find_char_def Let_def by (simp only:) simp
qed

lemma digit_chars: "is_digit c \<Longrightarrow> \<not> is_space c \<and> c \<noteq> CHR ''.'' \<and> c \<noteq> CHR '' '' \<and> c \<noteq> CHR '','' \<and> c \<noteq> CHR ''-''"
  by (auto simp: is_digit_def is_space_def)

lemma upper_not_space: "is_upper c \<Longrightarrow> \<not> is_space c"
  by (auto simp: is_upper_def is_space_def)

lemma digits_chars:
  assumes "list_all is_digit s"
  shows "CHR ''.'' \<notin> set s" "CHR '' '' \<notin> set s" "CHR '','' \<notin> set s" "s \<noteq> [] \<Longrightarrow> \<not> is_space (hd s)"
    "take 1 s \<noteq> ''-''"
  using assms digit_chars by (cases s; fastforce simp: list_all_iff)+

lemma p10_loop_eq: "p10_loop p r = r * 10 ^ p"
  by (induction p arbitrary: r) (auto simp: algebra_simps)

lemma pow10_bound: "p \<le> 18 \<Longrightarrow> (10 :: int) ^ p \<le> 10 ^ 18"
  by (rule power_increasing) simp_all

lemma sint_of_int: "in_int64 x \<Longrightarrow> sint (of_int x :: u64) = x"
  by (simp add: in_int64_def signed_of_int signed_take_bit_int_eq_self)

lemma in_int64_pow10: "p \<le> 18 \<Longrightarrow> in_int64 (10 ^ p)"
proof -
  assume "p \<le> 18"
  then have "(10 :: int) ^ p \<le> 10 ^ 18" by (rule pow10_bound)
  then have "(10 :: int) ^ p < 2 ^ 63" by (rule order.strict_trans1) simp
  moreover have "- (2 ^ 63) \<le> (10 :: int) ^ p" by (rule order_trans [of _ 0]) simp_all
  ultimately show ?thesis by (simp only: in_int64_def)
qed

lemma sint_pow10: "p \<le> 18 \<Longrightarrow> sint (10 ^ p :: u64) = 10 ^ p"
  using sint_of_int [OF in_int64_pow10] by simp

lemma precision_eq:
  "symbol_valid s \<Longrightarrow> \<exists>w. precision s = Inr w \<and> sint w = 10 ^ unat (decimals s)"
  by (simp add: precision_def symbol_valid_def max_precision_def p10_loop_eq sint_pow10)

lemma symbol_from_printed:
  assumes "boost_strings B" and v: "symbol_valid v" and ne: "symbol_name v \<noteq> []"
  shows "symbol_from_string B ub (dec_string (unat (decimals v)) @ '','' @ symbol_name v) = Inr v"
proof -
  let ?ds = "dec_string (unat (decimals v))"
  have ds: "?ds \<noteq> []" "list_all is_digit ?ds" "dec_value ?ds = unat (decimals v)"
    using dec_string_digits by blast+
  have up: "list_all is_upper (symbol_name v)"
    using v by (simp add: symbol_valid_def valid_name_def)
  have "trim_copy B (?ds @ '','' @ symbol_name v) = ?ds @ '','' @ symbol_name v"
    using ds(1) ne digits_chars(4) [OF ds(2,1)] up upper_not_space
    by (intro boost_strings.trim_id [OF assms(1)]) (auto simp: list_all_iff)
  moreover have "lexical_cast_int64 B ?ds = Some (int (unat (decimals v)))"
    using boost_strings.cast_digits [OF assms(1) ds(1,2)] ds(3) v
    by (simp add: symbol_valid_def max_precision_def)
  moreover have "find_char CHR '','' (?ds @ CHR '','' # symbol_name v) = Some (length ?ds)"
    by (rule find_char_found [OF digits_chars(3) [OF ds(2)]])
  ultimately show ?thesis
    using symbol_of_parts [OF v, of ub] v
    by (simp add: symbol_from_string_def Let_def to_int64_def symbol_of_def symbol_valid_def)
qed

definition amount_string :: "int \<Rightarrow> nat \<Rightarrow> string" where
  "amount_string n p =
     (if n < 0 then ''-'' else []) @ dec_string (nat \<bar>n\<bar> div 10 ^ p) @
     (if p = 0 then [] else ''.'' @ drop 1 (dec_string (10 ^ p + nat \<bar>n\<bar> mod 10 ^ p)))"

lemma nonneg_sdiv: "0 \<le> a \<Longrightarrow> 0 < b \<Longrightarrow> (a :: int) sdiv b = a div b"
  by (cases "a = 0") (simp_all add: signed_divide_int_def)

lemma nonneg_smod: "0 \<le> a \<Longrightarrow> 0 < b \<Longrightarrow> (a :: int) smod b = a mod b"
  by (cases "a = 0") (simp_all add: signed_modulo_int_def)

lemma asset_to_string_eq:
  assumes "boost_strings B" and "is_valid a"
  shows "asset_to_string B a =
    Inr (amount_string (amount a) (unat (decimals (sym a))) @ '' '' @ symbol_name (sym a))"
proof -
  let ?p = "unat (decimals (sym a))" and ?n = "nat \<bar>amount a\<bar>"
  have v: "symbol_valid (sym a)" and r: "\<bar>amount a\<bar> < 2 ^ 62"
    using assms(2) by (auto simp: is_valid_def is_amount_within_range_def max_amount_def)
  obtain w where w: "precision (sym a) = Inr w" "sint w = 10 ^ ?p"
    using precision_eq [OF v] by blast
  have p: "(10 :: int) ^ ?p \<le> 10 ^ 18"
    using v by (intro pow10_bound) (simp add: symbol_valid_def max_precision_def)
  have q: "\<bar>amount a\<bar> div 10 ^ ?p = int (?n div 10 ^ ?p)"
    and f: "\<bar>amount a\<bar> mod 10 ^ ?p = int (?n mod 10 ^ ?p)"
    by (simp_all add: zdiv_int zmod_int)
  have "?n div 10 ^ ?p \<le> ?n" by (rule div_le_dividend)
  then have "int (?n div 10 ^ ?p) \<le> \<bar>amount a\<bar>" by linarith
  with r have "int (?n div 10 ^ ?p) < 2 ^ 63" by simp
  then have 1: "lexical_cast_string B (\<bar>amount a\<bar> div 10 ^ ?p) = dec_string (?n div 10 ^ ?p)"
    unfolding q by (subst boost_strings.cast_string [OF assms(1)]) simp_all
  have "\<bar>amount a\<bar> mod 10 ^ ?p < 10 ^ ?p" by simp
  with p have "10 ^ ?p + \<bar>amount a\<bar> mod 10 ^ ?p < 2 * 10 ^ 18" by linarith
  then have "10 ^ ?p + \<bar>amount a\<bar> mod 10 ^ ?p < 2 ^ 63" by simp
  then have 2: "lexical_cast_string B (10 ^ ?p + \<bar>amount a\<bar> mod 10 ^ ?p)
      = dec_string (10 ^ ?p + ?n mod 10 ^ ?p)"
    unfolding f by (subst boost_strings.cast_string [OF assms(1)]) (simp_all add: nat_add_distrib nat_power_eq)
  show ?thesis
    using 1 2 by (cases "decimals (sym a) = 0") (auto simp: asset_to_string_def w nonneg_sdiv
        nonneg_smod amount_string_def unat_eq_zero Let_def)
qed

lemma amount_string_parts:
  assumes "boost_strings B" and "\<bar>n\<bar> < 2 ^ 62" and "p \<le> 18"
  obtains I F where "amount_string n p = I @ (if p = 0 then [] else CHR ''.'' # F)"
    and "CHR ''.'' \<notin> set I" "CHR '' '' \<notin> set I" "I \<noteq> []" "\<not> is_space (hd I)" "take 1 I = ''-'' \<longleftrightarrow> n < 0"
    and "to_int64 B I = Inr (sgn n * (\<bar>n\<bar> div 10 ^ p))"
    and "p \<noteq> 0 \<Longrightarrow> CHR '' '' \<notin> set F" "p \<noteq> 0 \<Longrightarrow> length F = p"
      "p \<noteq> 0 \<Longrightarrow> to_int64 B F = Inr (\<bar>n\<bar> mod 10 ^ p)"
proof -
  let ?m = "nat \<bar>n\<bar>"
  let ?D = "dec_string (?m div 10 ^ p)" and ?sg = "if n < 0 then ''-'' else []"
  have m: "?m < 2 ^ 63" using assms(2) by simp
  have D: "?D \<noteq> []" "list_all is_digit ?D" "dec_value ?D = ?m div 10 ^ p"
    using dec_string_digits by blast+
  obtain F where F: "dec_string (10 ^ p + ?m mod 10 ^ p) = CHR ''1'' # F" "length F = p"
      "list_all is_digit F" "dec_value F = ?m mod 10 ^ p"
    using padded_digits [of "?m mod 10 ^ p" p] by auto
  have "?m div 10 ^ p \<le> ?m" "?m mod 10 ^ p \<le> ?m" by simp_all
  with m have lt: "dec_value ?D < 2 ^ 63" "dec_value F < 2 ^ 63"
    unfolding D F by (meson order.strict_trans1)+
  have q: "int (?m div 10 ^ p) = \<bar>n\<bar> div 10 ^ p" "int (?m mod 10 ^ p) = \<bar>n\<bar> mod 10 ^ p"
    by (simp_all add: zdiv_int zmod_int)
  have I: "to_int64 B (?sg @ ?D) = Inr (sgn n * (\<bar>n\<bar> div 10 ^ p))"
    using boost_strings.cast_digits [OF assms(1) D(1,2) lt(1), unfolded D(3)]
      boost_strings.cast_neg [OF assms(1) D(1,2) lt(1), unfolded D(3)] q
    by (cases "n = 0") (auto simp: to_int64_def sgn_if)
  have FI: "p \<noteq> 0 \<Longrightarrow> to_int64 B F = Inr (\<bar>n\<bar> mod 10 ^ p)"
    using boost_strings.cast_digits [OF assms(1) _ F(3) lt(2)] F(2,4) q
    by (cases F) (auto simp: to_int64_def)
  have sp: "\<not> is_space CHR ''-''" by (simp add: is_space_def)
  show ?thesis
    by (rule that [of "?sg @ ?D" F])
      (use D F I FI sp digits_chars [OF D(2)] digits_chars [OF F(3)] in \<open>auto simp: amount_string_def\<close>)
qed

lemma small_int64: "\<bar>x\<bar> < 2 ^ 62 \<Longrightarrow> in_int64 x"
  by (simp add: in_int64_def abs_less_iff)

lemma sgn_parts: "sgn n * (\<bar>n\<bar> div k) * k + sgn n * (\<bar>n\<bar> mod k) = (n :: int)"
proof -
  have "sgn n * ((\<bar>n\<bar> div k) * k + \<bar>n\<bar> mod k) = n" by (simp add: sgn_mult_abs)
  then show ?thesis by (simp only: distrib_left mult.assoc)
qed

lemma rebuild_amount:
  assumes "\<bar>n\<bar> < 2 ^ 62" and "p \<le> 18"
  shows "bind_res (lift_safe (safe_mul (sgn n * (\<bar>n\<bar> div 10 ^ p)) (10 ^ p))) (\<lambda>m.
      lift_safe (safe_add m (sgn n * (\<bar>n\<bar> mod 10 ^ p)))) = Inr n"
proof -
  let ?k = "10 ^ p :: int" and ?q = "sgn n * (\<bar>n\<bar> div 10 ^ p)" and ?f = "sgn n * (\<bar>n\<bar> mod 10 ^ p)"
  have k: "0 < ?k" "in_int64 ?k"
    using in_int64_pow10 [OF assms(2)] by simp_all
  have nn: "0 \<le> \<bar>n\<bar> mod ?k" "0 \<le> \<bar>n\<bar> div ?k"
    using k(1) by (simp_all add: pos_imp_zdiv_nonneg_iff)
  from nn(2) have "\<bar>n\<bar> div ?k * 1 \<le> \<bar>n\<bar> div ?k * ?k"
    by (rule mult_left_mono [rotated]) simp
  moreover have "\<bar>n\<bar> div ?k * ?k + \<bar>n\<bar> mod ?k = \<bar>n\<bar>"
    by (rule div_mult_mod_eq)
  ultimately have le: "\<bar>n\<bar> div ?k \<le> \<bar>n\<bar>" "\<bar>n\<bar> div ?k * ?k \<le> \<bar>n\<bar>" "\<bar>n\<bar> mod ?k \<le> \<bar>n\<bar>"
    using nn by linarith+
  have ab: "\<bar>?q\<bar> \<le> \<bar>n\<bar>" "\<bar>?q * ?k\<bar> \<le> \<bar>n\<bar>" "\<bar>?f\<bar> \<le> \<bar>n\<bar>"
    using le nn k(1) by (simp_all add: abs_mult abs_sgn_eq abs_of_nonneg)
  then have "in_int64 ?q" "in_int64 (?q * ?k)" "in_int64 ?f" "in_int64 n"
    using assms(1) small_int64 by (meson order.strict_trans1)+
  then have "safe_mul ?q ?k = Inr (?q * ?k)" "safe_add (?q * ?k) ?f = Inr n"
    using k(2) by (simp_all add: safe_mul_exact safe_add_exact sgn_parts)
  then show ?thesis by (simp add: lift_safe_def)
qed

lemma signed_fraction:
  assumes "\<bar>n\<bar> < 2 ^ 62"
  shows "(if n < 0 then lift_safe (safe_mul (\<bar>n\<bar> mod 10 ^ p) (- 1)) else Inr (\<bar>n\<bar> mod 10 ^ p))
    = Inr (sgn n * (\<bar>n\<bar> mod 10 ^ p))"
proof -
  have "\<bar>n\<bar> mod 10 ^ p \<le> \<bar>n\<bar>" "0 \<le> \<bar>n\<bar> mod 10 ^ p" by (simp_all add: zmod_le_nonneg_dividend)
  with assms have "in_int64 (\<bar>n\<bar> mod 10 ^ p)" "in_int64 (- (\<bar>n\<bar> mod 10 ^ p))" "in_int64 (- 1)"
    by (auto intro!: small_int64)
  then have "safe_mul (\<bar>n\<bar> mod 10 ^ p) (- 1) = Inr (- (\<bar>n\<bar> mod 10 ^ p))"
    by (simp add: safe_mul_exact)
  then show ?thesis by (cases "n = 0") (auto simp: lift_safe_def sgn_if simp del: abs_of_neg)
qed

lemma printed_asset_parses:
  assumes B: "boost_strings B" and a: "is_valid a" and ne: "symbol_name (sym a) \<noteq> []"
  shows "asset_from_string B ub (amount_string (amount a) (unat (decimals (sym a))) @ '' '' @ symbol_name (sym a))
    = Inr a"
proof -
  let ?p = "unat (decimals (sym a))" and ?n = "amount a" and ?nm = "symbol_name (sym a)"
  have v: "symbol_valid (sym a)" and r: "\<bar>?n\<bar> < 2 ^ 62" and p: "?p \<le> 18"
    using a by (auto simp: is_valid_def is_amount_within_range_def max_amount_def symbol_valid_def
        max_precision_def)
  have nm: "\<not> is_space (hd ?nm)" "\<not> is_space (last ?nm)"
    using v ne upper_not_space by (auto simp: symbol_valid_def valid_name_def list_all_iff)
  obtain w where w: "precision (sym a) = Inr w" "sint w = 10 ^ ?p"
    using precision_eq [OF v] by blast
  obtain I F where S: "amount_string ?n ?p = I @ (if ?p = 0 then [] else CHR ''.'' # F)"
    and I: "CHR ''.'' \<notin> set I" "CHR '' '' \<notin> set I" "I \<noteq> []" "\<not> is_space (hd I)"
      "take 1 I = ''-'' \<longleftrightarrow> ?n < 0" "to_int64 B I = Inr (sgn ?n * (\<bar>?n\<bar> div 10 ^ ?p))"
    and F: "?p \<noteq> 0 \<Longrightarrow> CHR '' '' \<notin> set F" "?p \<noteq> 0 \<Longrightarrow> length F = ?p"
      "?p \<noteq> 0 \<Longrightarrow> to_int64 B F = Inr (\<bar>?n\<bar> mod 10 ^ ?p)"
    using amount_string_parts [OF B r p] by blast
  let ?S = "amount_string ?n ?p"
  have t1: "trim_copy B (?S @ CHR '' '' # ?nm) = ?S @ CHR '' '' # ?nm"
    using I nm ne S by (subst boost_strings.trim_id [OF B]) auto
  have t2: "trim_copy B ?nm = ?nm"
    by (rule boost_strings.trim_id [OF B ne nm])
  have f1: "find_char CHR '' '' (?S @ CHR '' '' # ?nm) = Some (length ?S)"
    using I(2) F(1) S by (intro find_char_found) auto
  have f2: "find_char CHR ''.'' ?S = (if ?p = 0 then None else Some (length I))"
    using I(1) S by (simp add: find_char_found find_char_none)
  have sy: "symbol_from_string B ub (dec_string ?p @ CHR '','' # ?nm) = Inr (sym a)"
    using symbol_from_printed [OF B v ne] by simp
  have rb: "bind_res (lift_safe (safe_mul (sgn ?n * (\<bar>?n\<bar> div 10 ^ ?p)) (10 ^ ?p))) (\<lambda>m.
      bind_res (lift_safe (safe_add m (sgn ?n * (\<bar>?n\<bar> mod 10 ^ ?p)))) g) = g ?n" for g
    using rebuild_amount [OF r p] by (simp flip: bind_res_assoc)
  have in_range: "make_asset ?n (sym a) = Inr a"
    using a by (simp add: make_asset_def is_valid_def is_amount_within_range_def Let_def)
  show ?thesis
  proof (cases "?p = 0")
    case True
    then have "?S = I" using S by simp
    with True t1 t2 f1 f2 sy I(6) w show ?thesis
      using rb [of "\<lambda>m. make_asset m (sym a)"] in_range
      by (simp add: asset_from_string_def Let_def dec_string.simps [of 0] char_of_digit)
  next
    case False
    then have S': "?S = I @ CHR ''.'' # F" and d: "find_char CHR ''.'' ?S = Some (length I)"
      using S f2 by simp_all
    have parts: "take (length I) ?S = I" "drop (Suc (length I)) ?S = F" using S' by simp_all
    have neg: "take (Suc 0) ?S = ''-'' \<longleftrightarrow> ?n < 0" using S' I(3,5) by (cases I) auto
    have len: "length ?S - Suc (length I) = ?p" "length I \<noteq> length ?S - Suc 0" using S' F(2) False by auto
    have fr: "(if ?n < 0 then lift_safe (safe_mul (\<bar>?n\<bar> mod 10 ^ ?p) (- 1)) else Inr (\<bar>?n\<bar> mod 10 ^ ?p))
        = Inr (sgn ?n * (\<bar>?n\<bar> mod 10 ^ ?p))"
      by (rule signed_fraction [OF r])
    show ?thesis
      using in_range F(3) False
      by (simp add: rb asset_from_string_def t1 t2 f1 d sy w I(6) neg len fr Let_def parts split del: if_split)
  qed
qed

text \<open>
  C29: For a valid asset whose symbol has a name, \<open>to_string\<close> succeeds and \<open>from_string\<close> reads
  the printed text back to the same amount and the same symbol, sign, precision and leading
  zeros of the fraction included. The conversions of Boost enter through the laws of
  \<open>boost_strings\<close> alone.
\<close>

theorem asset_print_parse:
  assumes "boost_strings B" and "is_valid a" and "symbol_name (sym a) \<noteq> []"
  shows "\<exists>s. asset_to_string B a = Inr s \<and> asset_from_string B ub s = Inr a"
  using asset_to_string_eq [OF assms(1,2)] printed_asset_parses [OF assms] by simp

theorem asset_print_parse_witness:
  "\<exists>s. asset_to_string reference_boost \<lparr>amount = - 5, sym = 0x4D4145524402\<rparr> = Inr s
    \<and> asset_from_string reference_boost (\<lambda>x n. 0) s = Inr \<lparr>amount = - 5, sym = 0x4D4145524402\<rparr>"
proof -
  have "is_valid \<lparr>amount = - 5, sym = 0x4D4145524402\<rparr>"
    "symbol_name (sym \<lparr>amount = - 5, sym = 0x4D4145524402\<rparr>) \<noteq> []"
    by code_simp+
  from asset_print_parse [OF ref.boost_strings_axioms this] show ?thesis .
qed


section \<open>Arithmetic of assets\<close>

lemma valid_amount: "is_valid a \<Longrightarrow> \<bar>amount a\<bar> < 2 ^ 62"
  by (auto simp: is_valid_def is_amount_within_range_def max_amount_def)

lemma valid_sum_int64:
  assumes "is_valid a" and "is_valid b"
  shows "in_int64 (amount a + amount b)" and "in_int64 (amount a - amount b)"
  using valid_amount [OF assms(1)] valid_amount [OF assms(2)]
  by (auto simp: in_int64_def abs_less_iff)

text \<open>
  C34: On valid assets \<open>operator+\<close> and \<open>operator-\<close> return exactly when the symbols agree and
  the exact result is again a valid asset, which is then the result; the compound assignments
  return whenever the symbols agree, with the exact sum or difference and the symbol kept, and
  never overflow 64 bits.
\<close>

theorem asset_arithmetic:
  assumes "is_valid a" and "is_valid b"
  shows "(asset_plus a b = Inr c \<longleftrightarrow>
        sym a = sym b \<and> c = \<lparr>amount = amount a + amount b, sym = sym a\<rparr> \<and> is_valid c)
    \<and> (asset_minus a b = Inr c \<longleftrightarrow>
        sym a = sym b \<and> c = \<lparr>amount = amount a - amount b, sym = sym a\<rparr> \<and> is_valid c)
    \<and> (asset_plus_assign a b = Inr c \<longleftrightarrow>
        sym a = sym b \<and> c = \<lparr>amount = amount a + amount b, sym = sym a\<rparr>)
    \<and> (asset_minus_assign a b = Inr c \<longleftrightarrow>
        sym a = sym b \<and> c = \<lparr>amount = amount a - amount b, sym = sym a\<rparr>)"
proof -
  have "symbol_valid (sym a)" using assms(1) by (simp add: is_valid_def)
  then show ?thesis
    using valid_sum_int64 [OF assms]
    by (cases a) (auto simp: asset_plus_def asset_minus_def asset_plus_assign_def
        asset_minus_assign_def make_asset_def is_valid_def is_amount_within_range_def
        Let_def check_Inr_iff)
qed

theorem asset_arithmetic_witness:
  "is_valid \<lparr>amount = max_amount, sym = 0x4D4145524402\<rparr>
   \<and> asset_plus_assign \<lparr>amount = max_amount, sym = 0x4D4145524402\<rparr> \<lparr>amount = 1, sym = 0x4D4145524402\<rparr>
      = Inr \<lparr>amount = 2 ^ 62, sym = 0x4D4145524402\<rparr>"
proof -
  have h: "is_valid \<lparr>amount = max_amount, sym = 0x4D4145524402\<rparr>"
    "is_valid \<lparr>amount = 1, sym = 0x4D4145524402\<rparr>" by code_simp+
  show ?thesis
    using asset_arithmetic [OF h, of "\<lparr>amount = 2 ^ 62, sym = 0x4D4145524402\<rparr>"] h
    by (simp add: max_amount_def)
qed

end
