(* ===== verification/Double64.thy ===== *)
theory Double64
  imports Complex_Main Prelude
begin

text \<open>
  The \<open>double\<close> arithmetic the contract uses: IEEE 754 binary64 values, a finite one being its
  exact rational, with multiplication, division and conversions rounded to nearest, ties to
  even. The sign of a zero is not represented; no operation of the contract tells the two
  zeros apart.
\<close>

datatype double = DFinite rat | DInfinite bool | DNaN

function ilog2 :: "int \<Rightarrow> int" where
  "ilog2 n = (if n < 2 then 0 else 1 + ilog2 (n div 2))"
  by pat_completeness auto
termination by (relation "measure nat") auto

declare ilog2.simps [simp del]

text \<open>The exponent of the binade of a positive rational: the integer part of its binary logarithm.\<close>

definition binade :: "rat \<Rightarrow> int" where
  "binade x =
     (case quotient_of x of (n, d) \<Rightarrow>
        let k = ilog2 n - ilog2 d in
        if 2 powi k \<le> x then k else k - 1)"

definition round_half_even :: "rat \<Rightarrow> int" where
  "round_half_even q =
     (let f = \<lfloor>q\<rfloor>; r = q - of_int f in
      if r < 1 / 2 then f else if r > 1 / 2 then f + 1 else if even f then f else f + 1)"

text \<open>Rounding to 53 significant bits, with the spacing \<open>2\<^sup>-\<^sup>1\<^sup>0\<^sup>7\<^sup>4\<close> of the subnormal numbers.\<close>

definition rnd :: "rat \<Rightarrow> rat" where
  "rnd x =
     (if x = 0 then 0
      else let e = max (binade \<bar>x\<bar> - 52) (- 1074) in
           of_int (round_half_even (x / 2 powi e)) * 2 powi e)"

definition to_double :: "rat \<Rightarrow> double" where
  "to_double x = (let y = rnd x in if \<bar>y\<bar> < 2 ^ 1024 then DFinite y else DInfinite (y < 0))"

fun d_neg_sign :: "double \<Rightarrow> bool" where
  "d_neg_sign (DFinite x) \<longleftrightarrow> x < 0"
| "d_neg_sign (DInfinite b) \<longleftrightarrow> b"
| "d_neg_sign DNaN \<longleftrightarrow> False"

fun d_mul :: "double \<Rightarrow> double \<Rightarrow> double" where
  "d_mul (DFinite x) (DFinite y) = to_double (x * y)"
| "d_mul DNaN y = DNaN"
| "d_mul x DNaN = DNaN"
| "d_mul (DInfinite a) (DInfinite b) = DInfinite (a \<noteq> b)"
| "d_mul (DInfinite a) (DFinite y) = (if y = 0 then DNaN else DInfinite (a \<noteq> (y < 0)))"
| "d_mul (DFinite x) (DInfinite b) = (if x = 0 then DNaN else DInfinite ((x < 0) \<noteq> b))"

fun d_div :: "double \<Rightarrow> double \<Rightarrow> double" where
  "d_div (DFinite x) (DFinite y) =
     (if y \<noteq> 0 then to_double (x / y) else if x = 0 then DNaN else DInfinite (x < 0))"
| "d_div DNaN y = DNaN"
| "d_div x DNaN = DNaN"
| "d_div (DInfinite a) (DInfinite b) = DNaN"
| "d_div (DInfinite a) (DFinite y) = DInfinite (a \<noteq> (y < 0))"
| "d_div (DFinite x) (DInfinite b) = DFinite 0"

fun d_le :: "double \<Rightarrow> double \<Rightarrow> bool" where
  "d_le (DFinite x) (DFinite y) \<longleftrightarrow> x \<le> y"
| "d_le DNaN y \<longleftrightarrow> False"
| "d_le x DNaN \<longleftrightarrow> False"
| "d_le (DInfinite a) (DInfinite b) \<longleftrightarrow> a \<or> \<not> b"
| "d_le (DInfinite a) (DFinite y) \<longleftrightarrow> a"
| "d_le (DFinite x) (DInfinite b) \<longleftrightarrow> \<not> b"

definition d_less :: "double \<Rightarrow> double \<Rightarrow> bool" where
  "d_less x y \<longleftrightarrow> d_le x y \<and> \<not> d_le y x"

definition d_zero :: double where
  "d_zero = DFinite 0"

definition d_one :: double where
  "d_one = DFinite 1"

definition d_of_int :: "int \<Rightarrow> double" where
  "d_of_int n = to_double (of_int n)"

text \<open>
  The conversion to \<open>int64_t\<close> drops the fraction; a value outside the 64-bit range, an
  infinity or a NaN has no conversion (the WebAssembly instruction traps).
\<close>

definition d_trunc :: "rat \<Rightarrow> int" where
  "d_trunc x = (if x < 0 then - \<lfloor>- x\<rfloor> else \<lfloor>x\<rfloor>)"

fun d_to_int64 :: "double \<Rightarrow> int option" where
  "d_to_int64 (DFinite x) = (if in_int64 (d_trunc x) then Some (d_trunc x) else None)"
| "d_to_int64 (DInfinite b) = None"
| "d_to_int64 DNaN = None"

section \<open>Rounding\<close>

lemma round_half_even_of_int [simp]: "round_half_even (of_int n) = n"
  by (simp add: round_half_even_def)

lemma ilog2_less: "n < 2 ^ k \<Longrightarrow> 0 < k \<Longrightarrow> 0 \<le> ilog2 n \<and> ilog2 n < int k"
proof (induction k arbitrary: n)
  case (Suc k)
  show ?case
  proof (cases "n < 2")
    case False
    then have "0 < k" using Suc.prems(1) by (cases k) auto
    with Suc.IH [of "n div 2"] Suc.prems(1) False show ?thesis
      by (simp add: ilog2.simps [of n])
  qed (simp add: ilog2.simps [of n])
qed simp

text \<open>Integers of at most 53 bits are represented exactly.\<close>

lemma rnd_of_int:
  assumes "0 \<le> n" and "n < 2 ^ 53"
  shows "rnd (of_int n) = of_int n"
proof (cases "n = 0")
  case False
  define e where "e = max (binade \<bar>of_int n\<bar> - 52) (- 1074)"
  have q: "quotient_of (of_int n) = (n, 1)" by (simp add: of_int_rat quotient_of_Fract Rat.normalize_def)
  have "ilog2 1 = 0" by (simp add: ilog2.simps)
  then have e: "e \<le> 0"
    using ilog2_less [of n 53] assms by (auto simp: e_def binade_def q Let_def)
  define k where "k = nat (- e)"
  have powi: "2 powi e = 1 / (2 ^ k :: rat)"
    using e by (cases "e = 0") (auto simp: k_def power_int_def inverse_eq_divide power_divide)
  have "rnd (of_int n) = of_int (round_half_even (of_int n / 2 powi e)) * 2 powi e"
    using False assms(1) by (simp add: rnd_def e_def Let_def)
  also have "of_int n / (2 powi e :: rat) = of_int (n * 2 ^ k)"
    by (simp add: powi)
  finally show ?thesis by (simp only: round_half_even_of_int) (simp add: powi)
qed (simp add: rnd_def)

lemma d_of_int_exact: "0 \<le> n \<Longrightarrow> n < 2 ^ 53 \<Longrightarrow> d_of_int n = DFinite (of_int n)"
proof -
  assume n: "0 \<le> n" "n < 2 ^ 53"
  have "(of_int n :: rat) < of_int (2 ^ 53)" using n(2) by (simp only: of_int_less_iff)
  also have "\<dots> < 2 ^ 1024" by simp
  finally show ?thesis using n by (simp add: d_of_int_def to_double_def rnd_of_int)
qed

lemma to_double_exact: "0 \<le> n \<Longrightarrow> n < 2 ^ 53 \<Longrightarrow> to_double (of_int n) = DFinite (of_int n)"
  using d_of_int_exact by (simp add: d_of_int_def)

end
