(* ===== verification/Dreamoji_State.thy ===== *)
theory Dreamoji_State
  imports Asset Name_Type Double64
begin

text \<open>
  The data of the Dreamoji contract (\<open>NFT-Contracts/include/dreamoji.hpp\<close>): the rows of its
  tables, the tables as maps from primary keys, the actions a transaction leaves to be sent,
  and the two parameters of the model. The contract is compiled against the EOSIO contract
  development toolkit, which is not part of the repository; what the contract uses of it is
  the record \<open>cdt\<close>. The chain the contract runs on is the record \<open>env\<close>: the contract's
  account, the authorizations of the action, the accounts that exist, the time of the block
  and the depth to which WebAssembly calls may nest.
\<close>

type_synonym msg = string
type_synonym symbol_code = u64
type_synonym time_point_sec = u32
type_synonym 'a run = "(msg, 'a) result"

record cdt =
  code_is_valid :: "symbol_code \<Rightarrow> bool"
  code_of_text :: "string \<Rightarrow> symbol_code"
  symbol_ctor :: "symbol_code \<Rightarrow> u8 \<Rightarrow> symbol"
  symbol_precision :: "symbol \<Rightarrow> u8"
  symbol_code_of :: "symbol \<Rightarrow> symbol_code"
  asset_ctor :: "int \<Rightarrow> symbol \<Rightarrow> asset run"
  asset_add :: "asset \<Rightarrow> asset \<Rightarrow> asset run"
  asset_sub :: "asset \<Rightarrow> asset \<Rightarrow> asset run"
  asset_equal :: "asset \<Rightarrow> asset \<Rightarrow> bool"
  asset_is_valid :: "asset \<Rightarrow> bool"
  name_ctor :: "string \<Rightarrow> name run"
  sec_plus :: "time_point_sec \<Rightarrow> u32 \<Rightarrow> time_point_sec"

text \<open>
  Two reads of the contract have no defined value in C++: a field read through a reference to
  a row that was erased (\<open>stale\<close>, applied to the value the field had) and the first element of
  an empty vector (\<open>no_element\<close>). They are fields of the environment.
\<close>

record env =
  self :: name
  has_auth :: "name \<Rightarrow> bool"
  is_account :: "name \<Rightarrow> bool"
  now :: time_point_sec
  call_depth :: nat
  stale :: "u64 \<Rightarrow> u64"
  no_element :: u64

section \<open>Rows\<close>

record lockednfts =
  lk_nft_id :: u64

record linkednfts =
  ln_nft_id :: u64

record asks =
  ask_batch_id :: u64
  ask_nft_ids :: "u64 list"
  ask_seller :: name
  ask_amount :: asset
  ask_expiration :: time_point_sec

record tokenconfigs =
  cfg_standard :: name
  cfg_version :: string
  cfg_symbol :: symbol_code
  cfg_category_name_id :: u64
  cfg_next_nft_id :: u64
  cfg_next_licence_id :: u64

record categoryinfo =
  cat_category :: name

record dreamstats =
  st_fungible :: bool
  st_burnable :: bool
  st_sellable :: bool
  st_transferable :: bool
  st_issuer :: name
  st_rev_partner :: name
  st_token_name :: name
  st_category_name_id :: u64
  st_max_supply :: asset
  st_max_issue_window :: time_point_sec
  st_current_supply :: asset
  st_issued_supply :: asset
  st_rev_split :: double
  st_base_uri :: string

record dreams =
  dr_id :: u64
  dr_serial_number :: u64
  dr_owner :: name
  dr_category :: name
  dr_token_name :: name
  dr_relative_uri :: "string option"
  dr_children :: "u64 list"

record accounts =
  ac_category_name_id :: u64
  ac_category :: name
  ac_token_name :: name
  ac_amount :: asset

record sales =
  sl_nft_id :: u64
  sl_seller :: name
  sl_price :: asset
  sl_lcnc_limit :: u16
  sl_end_of_sale :: time_point_sec
  sl_lcnc_period_sec :: u64

record licences =
  lc_licence_id :: u64
  lc_nft_id :: u64
  lc_owner :: name
  lc_licensed_to :: "name list"
  lc_expiration :: time_point_sec
  lc_relicense :: bool

section \<open>The state\<close>

text \<open>
  Every table but three lives in the scope of the contract and is a map from its primary key;
  \<open>dreamstats\<close> is scoped by category, \<open>accounts\<close> by owner and \<open>licences\<close> by an account name,
  and their keys are pairs of scope and primary key. \<open>outbox\<close> is what the transaction sends:
  notifications and inline actions, in order.
\<close>

datatype message =
    Notify name
  | Token_Transfer name name asset string
  | Log_Call u64
  | Log_Sale "u64 list" name name name
  | Log_License u64

record dreamoji =
  lock_table :: "u64 \<rightharpoonup> lockednfts"
  link_table :: "u64 \<rightharpoonup> linkednfts"
  ask_table :: "u64 \<rightharpoonup> asks"
  config_table :: "tokenconfigs option"
  category_table :: "name \<rightharpoonup> categoryinfo"
  stats_table :: "name \<times> name \<rightharpoonup> dreamstats"
  dream_table :: "u64 \<rightharpoonup> dreams"
  account_table :: "name \<times> u64 \<rightharpoonup> accounts"
  sale_table :: "u64 \<rightharpoonup> sales"
  licence_table :: "name \<times> u64 \<rightharpoonup> licences"
  outbox :: "message list"

definition empty_dreamoji :: dreamoji where
  "empty_dreamoji = \<lparr>lock_table = Map.empty, link_table = Map.empty, ask_table = Map.empty,
     config_table = None, category_table = Map.empty, stats_table = Map.empty,
     dream_table = Map.empty, account_table = Map.empty, sale_table = Map.empty,
     licence_table = Map.empty, outbox = []\<rparr>"

definition send :: "message \<Rightarrow> dreamoji \<Rightarrow> dreamoji" where
  "send m s = s\<lparr>outbox := outbox s @ [m]\<rparr>"

abbreviation require_auth :: "env \<Rightarrow> name \<Rightarrow> 'a run \<Rightarrow> 'a run" where
  "require_auth E n k \<equiv> check (has_auth E n) ''missing required authority'' k"

abbreviation duplicate_key :: msg where
  "duplicate_key \<equiv> ''row with this primary key exists''"

section \<open>What the contract relies on of the toolkit\<close>

text \<open>
  The laws of the toolkit: an asset is made of an amount below \<open>2\<^sup>6\<^sup>2\<close> in magnitude and a valid
  symbol, compound assignment on assets of the same symbol is exact or aborts, two assets are
  equal when their amounts and symbols are, and a symbol has the code and the precision it was
  built from.
\<close>

locale cdt_library =
  fixes C :: cdt
  assumes asset_ctor_Inr: "asset_ctor C n sy = Inr a \<Longrightarrow> a = \<lparr>amount = n, sym = sy\<rparr>"
    and asset_add_Inr: "asset_add C a b = Inr c \<Longrightarrow>
      sym a = sym b \<and> c = \<lparr>amount = amount a + amount b, sym = sym a\<rparr>"
    and asset_sub_Inr: "asset_sub C a b = Inr c \<Longrightarrow>
      sym a = sym b \<and> c = \<lparr>amount = amount a - amount b, sym = sym a\<rparr>"
    and asset_equal_iff: "asset_equal C a b \<longleftrightarrow> a = b"

text \<open>
  The laws hold of a toolkit built from the chain's own symbols, assets and names, with
  out-of-range sums refused.
\<close>

definition asset_exact :: "int \<Rightarrow> symbol \<Rightarrow> asset run" where
  "asset_exact n sy =
     (case make_asset n sy of Inl e \<Rightarrow> Inl ''invalid asset'' | Inr a \<Rightarrow> Inr a)"

definition chain_cdt :: cdt where
  "chain_cdt = \<lparr>
     code_is_valid = (\<lambda>c. c \<noteq> 0 \<and> valid_name (symbol_name_loop c [])),
     code_of_text = (\<lambda>s. fold (\<lambda>c r. push_bit 8 r OR of_char c) (rev s) 0),
     symbol_ctor = (\<lambda>c p. push_bit 8 c OR ucast p),
     symbol_precision = decimals,
     symbol_code_of = to_symbol_code,
     asset_ctor = asset_exact,
     asset_add = (\<lambda>a b. check (sym a = sym b) ''attempt to add asset with different symbol''
       (asset_exact (amount a + amount b) (sym a))),
     asset_sub = (\<lambda>a b. check (sym a = sym b) ''attempt to subtract asset with different symbol''
       (asset_exact (amount a - amount b) (sym a))),
     asset_equal = (\<lambda>a b. a = b),
     asset_is_valid = is_valid,
     name_ctor = (\<lambda>s. case name_set reference_trim s of Inl e \<Rightarrow> Inl ''invalid name'' | Inr n \<Rightarrow> Inr n),
     sec_plus = (\<lambda>t d. t + d)\<rparr>"

lemma asset_exact_Inr: "asset_exact n sy = Inr a \<Longrightarrow> a = \<lparr>amount = n, sym = sy\<rparr>"
  by (auto simp: asset_exact_def make_asset_def Let_def check_def split: sum.splits if_splits)

interpretation chain: cdt_library chain_cdt
  by unfold_locales (auto simp: chain_cdt_def dest: asset_exact_Inr)

end
