(* ===== verification/Dreamoji_Token.thy ===== *)
theory Dreamoji_Token
  imports Dreamoji_State
begin

text \<open>
  Creation, issue, burning and transfer of tokens
  (\<open>NFT-Contracts/src/dreamoji.cpp\<close>, lines 1 to 299 and the private methods they call). Every
  action takes the toolkit, the environment, its arguments and the state, and returns the new
  state or the message it aborts with; an abort undoes the transaction, so the state before it
  is the state after it.
\<close>

section \<open>Private methods\<close>

definition config_get :: "dreamoji \<Rightarrow> tokenconfigs run" where
  "config_get s =
     (case config_table s of None \<Rightarrow> Inl ''singleton does not exist'' | Some c \<Rightarrow> Inr c)"

definition checkasset :: "cdt \<Rightarrow> asset \<Rightarrow> bool \<Rightarrow> dreamoji \<Rightarrow> unit run" where
  "checkasset C a fungible s =
     bind_res
       (if fungible
        then check (amount a > 0) ''amount must be positive'' (Inr ())
        else check (symbol_precision C (sym a) = 0) ''NFT must be an int, precision of 0''
            (check (amount a \<ge> 1) ''NFT amount must be >= 1'' (Inr ())))
     (\<lambda>_. bind_res (config_get s) (\<lambda>cfg.
          check (cfg_symbol cfg = symbol_code_of C (sym a)) ''Symbol must match symbol in config''
         (check (asset_is_valid C a) ''invalid amount''
         (Inr ()))))"

definition nextnftid :: "dreamoji \<Rightarrow> (u64 \<times> dreamoji) run" where
  "nextnftid s =
     (case config_table s of
        None \<Rightarrow> Inl ''dreamoji config table does not exist, instantiate first''
      | Some cfg \<Rightarrow>
          Inr (cfg_next_nft_id cfg,
               s\<lparr>config_table := Some (cfg\<lparr>cfg_next_nft_id := cfg_next_nft_id cfg + 1\<rparr>)\<rparr>))"

definition nextlicenceid :: "dreamoji \<Rightarrow> (u64 \<times> dreamoji) run" where
  "nextlicenceid s =
     (case config_table s of
        None \<Rightarrow> Inl ''dreamoji config table does not exist, instantiate first''
      | Some cfg \<Rightarrow>
          Inr (cfg_next_licence_id cfg,
               s\<lparr>config_table := Some (cfg\<lparr>cfg_next_licence_id := cfg_next_licence_id cfg + 1\<rparr>)\<rparr>))"

definition add_balance :: "cdt \<Rightarrow> name \<Rightarrow> name \<Rightarrow> name \<Rightarrow> u64 \<Rightarrow> asset \<Rightarrow> dreamoji \<Rightarrow> dreamoji run" where
  "add_balance C owner category token_name category_name_id quantity s =
     (case account_table s (owner, category_name_id) of
        None \<Rightarrow>
          Inr (s\<lparr>account_table := (account_table s)((owner, category_name_id) \<mapsto>
            \<lparr>ac_category_name_id = category_name_id, ac_category = category,
             ac_token_name = token_name, ac_amount = quantity\<rparr>)\<rparr>)
      | Some acct \<Rightarrow>
          bind_res (asset_add C (ac_amount acct) quantity) (\<lambda>a.
          Inr (s\<lparr>account_table := (account_table s)((owner, category_name_id) \<mapsto> acct\<lparr>ac_amount := a\<rparr>)\<rparr>)))"

definition sub_balance :: "cdt \<Rightarrow> name \<Rightarrow> u64 \<Rightarrow> asset \<Rightarrow> dreamoji \<Rightarrow> dreamoji run" where
  "sub_balance C owner category_name_id quantity s =
     bind_res (table_get (account_table s) (owner, category_name_id) ''token does not exist in account'') (\<lambda>acct.
     check (amount (ac_amount acct) \<ge> amount quantity) ''quantity is more than account balance''
    (if amount (ac_amount acct) = amount quantity
     then Inr (s\<lparr>account_table := table_erase (account_table s) (owner, category_name_id)\<rparr>)
     else bind_res (asset_sub C (ac_amount acct) quantity) (\<lambda>a.
          Inr (s\<lparr>account_table := (account_table s)((owner, category_name_id) \<mapsto> acct\<lparr>ac_amount := a\<rparr>)\<rparr>))))"

definition mint :: "name \<Rightarrow> name \<Rightarrow> name \<Rightarrow> asset \<Rightarrow> string \<Rightarrow> dreamoji \<Rightarrow> dreamoji run" where
  "mint to category token_name issued_supply relative_uri s =
     bind_res (nextnftid s) (\<lambda>(nft_id, s).
     bind_res (table_emplace (dream_table s) nft_id
         \<lparr>dr_id = nft_id, dr_serial_number = of_int (amount issued_supply + 1), dr_owner = to,
          dr_category = category, dr_token_name = token_name,
          dr_relative_uri = Some relative_uri, dr_children = []\<rparr> duplicate_key) (\<lambda>t.
     Inr (send (Log_Call nft_id) (s\<lparr>dream_table := t\<rparr>))))"

text \<open>
  \<open>_changeowner\<close> calls itself on the children of every token it moves. The first argument is
  the number of nested calls the virtual machine still allows; a call beyond it aborts.
  \<open>owner_step\<close> is the body of the loop, over the recursive call, and \<open>move_token\<close> its end, from
  the notifications on.
\<close>

definition move_token ::
  "cdt \<Rightarrow> name \<Rightarrow> name \<Rightarrow> dreamstats \<Rightarrow> dreams \<Rightarrow> u64 \<Rightarrow> dreamoji \<Rightarrow> dreamoji run" where
  "move_token C from to dream_stats token nft_id s =
     (let s = send (Notify to) (send (Notify from) s);
          s = s\<lparr>dream_table := (dream_table s)(nft_id \<mapsto> token\<lparr>dr_owner := to\<rparr>)\<rparr>
      in bind_res (asset_ctor C 1 (sym (st_max_supply dream_stats))) (\<lambda>quantity.
         bind_res (sub_balance C from (st_category_name_id dream_stats) quantity s) (\<lambda>s.
         add_balance C to (dr_category token) (dr_token_name token)
           (st_category_name_id dream_stats) quantity s)))"

definition owner_step ::
  "(u64 list \<Rightarrow> dreamoji \<Rightarrow> dreamoji run) \<Rightarrow> cdt \<Rightarrow> name \<Rightarrow> name \<Rightarrow> bool \<Rightarrow> u64 \<Rightarrow> dreamoji \<Rightarrow> dreamoji run" where
  "owner_step rec C from to istransfer nft_id s =
     bind_res (table_get (dream_table s) nft_id ''token does not exist'') (\<lambda>token.
     check (lock_table s nft_id = None) ''token locked, cannot transfer''
    (bind_res (if dr_children token \<noteq> [] then rec (dr_children token) s else Inr s) (\<lambda>s.
     bind_res (table_get (stats_table s) (dr_category token, dr_token_name token)
                 ''dreamoji stats not found'') (\<lambda>dream_stats.
     bind_res (if istransfer
               then check (dr_owner token = from) ''must be token owner''
                   (check (st_transferable dream_stats) ''not transferable'' (Inr ()))
               else Inr ()) (\<lambda>_.
     move_token C from to dream_stats token nft_id s)))))"

fun changeowner ::
  "nat \<Rightarrow> cdt \<Rightarrow> name \<Rightarrow> name \<Rightarrow> bool \<Rightarrow> u64 list \<Rightarrow> dreamoji \<Rightarrow> dreamoji run" where
  "changeowner 0 C from to istransfer nft_ids s = Inl ''call depth exceeded''"
| "changeowner (Suc depth) C from to istransfer nft_ids s =
     check (length nft_ids \<le> 20) ''max batch size of 20''
    (for_each (owner_step (changeowner depth C from to False) C from to istransfer) nft_ids s)"

section \<open>Actions\<close>

definition instantiate :: "cdt \<Rightarrow> env \<Rightarrow> symbol_code \<Rightarrow> string \<Rightarrow> dreamoji \<Rightarrow> dreamoji run" where
  "instantiate C E sy version s =
     require_auth E (self E)
    (check (code_is_valid C sy) ''not valid symbol''
    (bind_res (name_ctor C ''dreamoji'') (\<lambda>standard.
     let cfg = (case config_table s of
                  None \<Rightarrow> \<lparr>cfg_standard = standard, cfg_version = version, cfg_symbol = sy,
                           cfg_category_name_id = 0, cfg_next_nft_id = 0, cfg_next_licence_id = 0\<rparr>
                | Some cfg \<Rightarrow> cfg)
     in Inr (s\<lparr>config_table := Some (cfg\<lparr>cfg_version := version\<rparr>)\<rparr>))))"

text \<open>
  \<open>create\<close>: the supply checks with the end of the issue window (zero when the supply is bounded
  by \<open>max_supply\<close>), the category row made at its first use, and the action.
\<close>

definition issue_window :: "cdt \<Rightarrow> env \<Rightarrow> bool \<Rightarrow> u32 \<Rightarrow> asset \<Rightarrow> dreamoji \<Rightarrow> time_point_sec run" where
  "issue_window C E fungible max_issue_days max_supply s =
     (if max_issue_days = 0
      then bind_res (checkasset C max_supply fungible s) (\<lambda>_. Inr 0)
      else let max_issue_seconds = max_issue_days * 24 * 3600;
               max_issue_window = sec_plus C (now E) max_issue_seconds
           in check (amount max_supply \<ge> 0) ''max supply must be 0 or greater''
             (if \<not> fungible
              then check (symbol_precision C (sym max_supply) = 0)
                     ''NFT must have max supply as int, precision of 0'' (Inr max_issue_window)
              else Inr max_issue_window))"

definition add_category :: "name \<Rightarrow> dreamoji \<Rightarrow> dreamoji" where
  "add_category category s =
     (if category_table s category = None
      then s\<lparr>category_table := (category_table s)(category \<mapsto> \<lparr>cat_category = category\<rparr>)\<rparr>
      else s)"

definition create ::
  "cdt \<Rightarrow> env \<Rightarrow> name \<Rightarrow> name \<Rightarrow> name \<Rightarrow> name \<Rightarrow> bool \<Rightarrow> bool \<Rightarrow> bool \<Rightarrow> bool \<Rightarrow> double \<Rightarrow> string \<Rightarrow>
   u32 \<Rightarrow> asset \<Rightarrow> dreamoji \<Rightarrow> dreamoji run" where
  "create C E issuer rev_partner category token_name fungible burnable sellable transferable
     rev_split base_uri max_issue_days max_supply s =
     (let s = send (Notify issuer) s in
      check (is_account E issuer) ''issuer account does not exist''
     (require_auth E issuer
     (bind_res (issue_window C E fungible max_issue_days max_supply s) (\<lambda>max_issue_window.
      check (is_account E rev_partner) ''rev_partner account does not exist''
     (check (d_le rev_split d_one \<and> d_le d_zero rev_split) ''rev_split must be between 0 and 1''
     (check (config_table s \<noteq> None) ''Symbol table does not exist, instantiate first''
     (bind_res (config_get s) (\<lambda>cfg.
      let category_name_id = cfg_category_name_id cfg;
          s = add_category category s;
          supply_symbol = symbol_ctor C (cfg_symbol cfg) (symbol_precision C (sym max_supply))
      in bind_res (asset_ctor C 0 supply_symbol) (\<lambda>current_supply.
         bind_res (asset_ctor C 0 supply_symbol) (\<lambda>issued_supply.
         check (stats_table s (category, token_name) = None) ''Token with category and token_name exists''
        (bind_res (table_emplace (stats_table s) (category, token_name)
            \<lparr>st_fungible = fungible, st_burnable = burnable, st_sellable = sellable,
             st_transferable = transferable, st_issuer = issuer, st_rev_partner = rev_partner,
             st_token_name = token_name, st_category_name_id = category_name_id,
             st_max_supply = max_supply, st_max_issue_window = max_issue_window,
             st_current_supply = current_supply, st_issued_supply = issued_supply,
             st_rev_split = rev_split, st_base_uri = base_uri\<rparr> duplicate_key) (\<lambda>t.
         Inr (s\<lparr>stats_table := t,
                config_table := Some (cfg\<lparr>cfg_category_name_id := cfg_category_name_id cfg + 1\<rparr>)\<rparr>)))))))))))))"

text \<open>The minting loop of \<open>issue\<close>: one token for each unit, the running supply numbering them.\<close>

fun mint_loop :: "cdt \<Rightarrow> name \<Rightarrow> name \<Rightarrow> name \<Rightarrow> string \<Rightarrow> asset \<Rightarrow> nat \<Rightarrow> asset \<Rightarrow> dreamoji \<Rightarrow> dreamoji run" where
  "mint_loop C to category token_name relative_uri one_token 0 issued_supply s = Inr s"
| "mint_loop C to category token_name relative_uri one_token (Suc n) issued_supply s =
     bind_res (mint to category token_name issued_supply relative_uri s) (\<lambda>s.
     bind_res (asset_add C issued_supply one_token) (\<lambda>issued_supply.
     mint_loop C to category token_name relative_uri one_token n issued_supply s))"

definition mint_units :: "cdt \<Rightarrow> name \<Rightarrow> name \<Rightarrow> name \<Rightarrow> asset \<Rightarrow> string \<Rightarrow> dreamstats \<Rightarrow> dreamoji \<Rightarrow> dreamoji run" where
  "mint_units C to category token_name quantity relative_uri dream_stats s =
     (if \<not> st_fungible dream_stats
      then check (amount quantity \<le> 100) ''can issue up to 100 at a time''
          (bind_res (asset_ctor C 1 (sym (st_max_supply dream_stats))) (\<lambda>one_token.
           mint_loop C to category token_name relative_uri one_token (nat (amount quantity))
             (st_issued_supply dream_stats) s))
      else Inr s)"

definition issue ::
  "cdt \<Rightarrow> env \<Rightarrow> name \<Rightarrow> name \<Rightarrow> name \<Rightarrow> asset \<Rightarrow> string \<Rightarrow> string \<Rightarrow> dreamoji \<Rightarrow> dreamoji run" where
  "issue C E to category token_name quantity relative_uri memo s =
     check (is_account E to) ''to account does not exist''
    (check (length memo \<le> 256) ''memo has more than 256 bytes''
    (bind_res (table_get (stats_table s) (category, token_name)
                 ''Token with category and token_name does not exist'') (\<lambda>dream_stats.
     require_auth E (st_issuer dream_stats)
    (bind_res (checkasset C quantity (st_fungible dream_stats) s) (\<lambda>_.
     check (sym quantity = sym (st_max_supply dream_stats)) ''precision of quantity must match''
    (check (st_max_issue_window dream_stats \<noteq> 0 \<longrightarrow> now E \<le> st_max_issue_window dream_stats)
       ''issue window has closed, cannot issue more''
    (check (amount (st_max_supply dream_stats) \<noteq> 0 \<longrightarrow>
            amount quantity \<le> amount (st_max_supply dream_stats) - amount (st_issued_supply dream_stats))
       ''Cannot issue more than max supply''
    (bind_res (mint_units C to category token_name quantity relative_uri dream_stats s) (\<lambda>s.
     bind_res (add_balance C to category token_name (st_category_name_id dream_stats) quantity s) (\<lambda>s.
     bind_res (asset_add C (st_current_supply dream_stats) quantity) (\<lambda>current_supply.
     bind_res (asset_add C (st_issued_supply dream_stats) quantity) (\<lambda>issued_supply.
     Inr (s\<lparr>stats_table := (stats_table s)((category, token_name) \<mapsto>
            dream_stats\<lparr>st_current_supply := current_supply, st_issued_supply := issued_supply\<rparr>)\<rparr>)))))))))))))"

definition freezemaxsup :: "env \<Rightarrow> name \<Rightarrow> name \<Rightarrow> dreamoji \<Rightarrow> dreamoji run" where
  "freezemaxsup E category token_name s =
     require_auth E (self E)
    (bind_res (table_get (stats_table s) (category, token_name)
                 ''Token with category and token_name does not exist'') (\<lambda>dream_stats.
     check (st_max_issue_window dream_stats \<noteq> 0) ''cannot freeze max supply unless time based minting''
    (check (amount (st_issued_supply dream_stats) \<noteq> 0) ''need to issue at least one token before freezing''
    (Inr (s\<lparr>stats_table := (stats_table s)((category, token_name) \<mapsto>
            dream_stats\<lparr>st_max_supply := st_issued_supply dream_stats, st_max_issue_window := 0\<rparr>)\<rparr>)))))"

text \<open>
  The body of the loop of \<open>burnnft\<close>. When the supply reaches zero the statistics row is erased
  and its \<open>category_name_id\<close> is then read through the reference to the erased row.
\<close>

definition burn_token :: "cdt \<Rightarrow> env \<Rightarrow> name \<Rightarrow> u64 \<Rightarrow> dreamoji \<Rightarrow> dreamoji run" where
  "burn_token C E owner nft_id s =
     bind_res (table_get (dream_table s) nft_id ''token does not exist'') (\<lambda>token.
     check (dr_owner token = owner) ''must be token owner''
    (let stats_key = (dr_category token, dr_token_name token) in
     bind_res (table_get (stats_table s) stats_key ''dreamoji stats not found'') (\<lambda>dream_stats.
     check (st_burnable dream_stats) ''Not burnable''
    (check (\<not> st_fungible dream_stats) ''Cannot call burnnft on fungible token, call burnft instead''
    (check (lock_table s nft_id = None) ''token locked''
    (bind_res (asset_ctor C 1 (sym (st_max_supply dream_stats))) (\<lambda>quantity.
     bind_res (asset_sub C (st_current_supply dream_stats) quantity) (\<lambda>current_supply.
     bind_res (asset_sub C (st_issued_supply dream_stats) quantity) (\<lambda>issued_supply.
     let dream_stats = dream_stats\<lparr>st_current_supply := current_supply, st_issued_supply := issued_supply\<rparr>;
         s = s\<lparr>stats_table := (stats_table s)(stats_key \<mapsto> dream_stats)\<rparr>
     in bind_res (asset_ctor C 0 (sym (st_max_supply dream_stats))) (\<lambda>burned_out.
        let erased = asset_equal C (st_current_supply dream_stats) burned_out;
            s = (if erased then s\<lparr>stats_table := table_erase (stats_table s) stats_key\<rparr> else s);
            category_name_id = (if erased then stale E (st_category_name_id dream_stats)
                                else st_category_name_id dream_stats)
        in bind_res (sub_balance C owner category_name_id quantity s) (\<lambda>s.
           Inr (s\<lparr>dream_table := table_erase (dream_table s) nft_id\<rparr>))))))))))))"

definition burnnft :: "cdt \<Rightarrow> env \<Rightarrow> name \<Rightarrow> u64 list \<Rightarrow> dreamoji \<Rightarrow> dreamoji run" where
  "burnnft C E owner nft_ids s =
     require_auth E owner
    (check (length nft_ids \<le> 20) ''max batch size of 20''
    (for_each (burn_token C E owner) nft_ids s))"

definition burnft :: "cdt \<Rightarrow> env \<Rightarrow> name \<Rightarrow> u64 \<Rightarrow> asset \<Rightarrow> dreamoji \<Rightarrow> dreamoji run" where
  "burnft C E owner category_name_id quantity s =
     require_auth E owner
    (bind_res (table_get (account_table s) (owner, category_name_id) ''token does not exist in account'') (\<lambda>acct.
     let stats_key = (ac_category acct, ac_token_name acct) in
     bind_res (table_get (stats_table s) stats_key ''dreamoji stats not found'') (\<lambda>dream_stats.
     bind_res (checkasset C quantity True s) (\<lambda>_.
     check (sym quantity = sym (st_max_supply dream_stats)) ''precision of quantity must match''
    (bind_res (sub_balance C owner category_name_id quantity s) (\<lambda>s.
     bind_res (asset_sub C (st_current_supply dream_stats) quantity) (\<lambda>current_supply.
     Inr (s\<lparr>stats_table := (stats_table s)(stats_key \<mapsto>
            dream_stats\<lparr>st_current_supply := current_supply\<rparr>)\<rparr>))))))))"

definition transfernft :: "cdt \<Rightarrow> env \<Rightarrow> name \<Rightarrow> name \<Rightarrow> u64 list \<Rightarrow> dreamoji \<Rightarrow> dreamoji run" where
  "transfernft C E from to nft_ids s =
     check (length nft_ids \<le> 20) ''max batch size of 20''
    (require_auth E from
    (check (is_account E to) ''to account does not exist''
    (check (from \<noteq> to) ''cannot transfer to self''
    (bind_res (for_each (\<lambda>nft_id s.
        bind_res (table_get (dream_table s) nft_id ''token not found'') (\<lambda>token.
        check (link_table s nft_id = None) ''cannot directly transfer linked NFTs without the parent NFT''
       (Inr s))) nft_ids s) (\<lambda>s.
     changeowner (call_depth E) C from to True nft_ids s)))))"

definition transferft ::
  "cdt \<Rightarrow> env \<Rightarrow> name \<Rightarrow> name \<Rightarrow> name \<Rightarrow> name \<Rightarrow> asset \<Rightarrow> string \<Rightarrow> dreamoji \<Rightarrow> dreamoji run" where
  "transferft C E from to category token_name quantity memo s =
     check (from \<noteq> to) ''cannot transfer to self''
    (require_auth E from
    (check (is_account E to) ''to account does not exist''
    (check (length memo \<le> 256) ''memo has more than 256 bytes''
    (let s = send (Notify to) (send (Notify from) s) in
     bind_res (table_get (stats_table s) (category, token_name) ''dreamoji stats not found'') (\<lambda>dream_stats.
     check (st_transferable dream_stats) ''not transferable''
    (check (st_fungible dream_stats) ''Must be fungible token''
    (bind_res (checkasset C quantity True s) (\<lambda>_.
     check (sym quantity = sym (st_max_supply dream_stats)) ''precision of quantity must match''
    (bind_res (sub_balance C from (st_category_name_id dream_stats) quantity s) (\<lambda>s.
     add_balance C to category token_name (st_category_name_id dream_stats) quantity s))))))))))"

section \<open>What each private method changes\<close>

text \<open>
  The state outside the account table, outside the token table and the outbox, and so on: the
  frames the invariant proofs rest on.
\<close>

lemma checkasset_positive: "checkasset C q fungible s = Inr u \<Longrightarrow> 0 < amount q"
  by (auto simp: checkasset_def split: if_splits)

lemma issue_cases:
  assumes "issue C E to category token_name q uri memo s = Inr s'"
  obtains st s1 s2 cur iss where "is_account E to" "has_auth E (st_issuer st)"
    "stats_table s (category, token_name) = Some st" "0 < amount q" "sym q = sym (st_max_supply st)"
    "st_max_issue_window st \<noteq> 0 \<longrightarrow> now E \<le> st_max_issue_window st"
    "amount (st_max_supply st) \<noteq> 0 \<longrightarrow>
       amount q \<le> amount (st_max_supply st) - amount (st_issued_supply st)"
    "mint_units C to category token_name q uri st s = Inr s1"
    "add_balance C to category token_name (st_category_name_id st) q s1 = Inr s2"
    "asset_add C (st_current_supply st) q = Inr cur" "asset_add C (st_issued_supply st) q = Inr iss"
    "s' = s2\<lparr>stats_table := (stats_table s2)((category, token_name) \<mapsto>
        st\<lparr>st_current_supply := cur, st_issued_supply := iss\<rparr>)\<rparr>"
  using assms unfolding issue_def
  by (elim check_InrE bind_res_InrE) (simp add: checkasset_positive)

lemma create_cases:
  assumes "create C E issuer rev_partner category token_name fungible burnable sellable transferable
     rev_split base_uri max_issue_days max_supply s = Inr s'"
  obtains cfg sy cur iss window cats where "has_auth E issuer" "is_account E issuer"
    "config_table s = Some cfg" "stats_table s (category, token_name) = None" "0 \<le> amount max_supply"
    "window = 0 \<longrightarrow> max_issue_days \<noteq> 0 \<or> 0 < amount max_supply"
    "d_le rev_split d_one" "d_le d_zero rev_split"
    "asset_ctor C 0 sy = Inr cur" "asset_ctor C 0 sy = Inr iss"
    "s' = s\<lparr>outbox := outbox s @ [Notify issuer], category_table := cats,
       stats_table := (stats_table s)((category, token_name) \<mapsto>
            \<lparr>st_fungible = fungible, st_burnable = burnable, st_sellable = sellable,
             st_transferable = transferable, st_issuer = issuer, st_rev_partner = rev_partner,
             st_token_name = token_name, st_category_name_id = cfg_category_name_id cfg,
             st_max_supply = max_supply, st_max_issue_window = window,
             st_current_supply = cur, st_issued_supply = iss,
             st_rev_split = rev_split, st_base_uri = base_uri\<rparr>),
       config_table := Some (cfg\<lparr>cfg_category_name_id := cfg_category_name_id cfg + 1\<rparr>)\<rparr>"
proof -
  have win: "0 \<le> amount max_supply \<and> (w = 0 \<longrightarrow> max_issue_days \<noteq> 0 \<or> 0 < amount max_supply)"
    if "issue_window C E fungible max_issue_days max_supply t = Inr w" for w t
    using that by (auto simp: issue_window_def Let_def dest: checkasset_positive split: if_splits)
  have cat: "\<exists>cats. add_category category t = t\<lparr>category_table := cats\<rparr>" for t
    by (cases t) (auto simp: add_category_def)
  then obtain cats where cats: "add_category category (send (Notify issuer) s)
      = (send (Notify issuer) s)\<lparr>category_table := cats\<rparr>" by blast
  show ?thesis
    using assms unfolding create_def Let_def cats
  proof (elim check_InrE bind_res_InrE, goal_cases)
    case (1 window cfg cur iss t)
    then show ?thesis
      using win [OF 1(3)]
      by (intro that [where cfg = cfg and cur = cur and iss = iss and window = window and cats = cats])
        (auto simp: config_get_def send_def split: option.splits)
  qed
qed

lemma burn_token_cases:
  assumes "burn_token C E owner nft_id s = Inr s'"
  obtains token st q cur iss burned s1 where "dream_table s nft_id = Some token" "dr_owner token = owner"
    "stats_table s (dr_category token, dr_token_name token) = Some st" "st_burnable st"
    "\<not> st_fungible st" "lock_table s nft_id = None"
    "asset_ctor C 1 (sym (st_max_supply st)) = Inr q" "asset_sub C (st_current_supply st) q = Inr cur"
    "asset_sub C (st_issued_supply st) q = Inr iss" "asset_ctor C 0 (sym (st_max_supply st)) = Inr burned"
    "sub_balance C owner
       (if asset_equal C cur burned then stale E (st_category_name_id st) else st_category_name_id st) q
       (s\<lparr>stats_table := (stats_table s)((dr_category token, dr_token_name token) :=
          if asset_equal C cur burned then None
          else Some (st\<lparr>st_current_supply := cur, st_issued_supply := iss\<rparr>))\<rparr>) = Inr s1"
    "s' = s1\<lparr>dream_table := table_erase (dream_table s1) nft_id\<rparr>"
proof -
  have erase: "(if b then s\<lparr>stats_table := (stats_table s)(k \<mapsto> r)\<rparr>
        \<lparr>stats_table := table_erase (stats_table (s\<lparr>stats_table := (stats_table s)(k \<mapsto> r)\<rparr>)) k\<rparr>
      else s\<lparr>stats_table := (stats_table s)(k \<mapsto> r)\<rparr>)
    = s\<lparr>stats_table := (stats_table s)(k := if b then None else Some r)\<rparr>" for b k r
    by (simp add: table_erase_def)
  show ?thesis
    using assms unfolding burn_token_def Let_def erase
    by (elim check_InrE bind_res_InrE) (rule that; simp split del: if_split cong: if_cong; erule sym)
qed

lemma burnft_cases:
  assumes "burnft C E owner i q s = Inr s'"
  obtains acct st s1 cur where "account_table s (owner, i) = Some acct"
    "stats_table s (ac_category acct, ac_token_name acct) = Some st" "0 < amount q"
    "sub_balance C owner i q s = Inr s1" "asset_sub C (st_current_supply st) q = Inr cur"
    "s' = s1\<lparr>stats_table := (stats_table s1)((ac_category acct, ac_token_name acct) \<mapsto>
        st\<lparr>st_current_supply := cur\<rparr>)\<rparr>" "has_auth E owner"
  using assms unfolding burnft_def Let_def
  by (elim check_InrE bind_res_InrE) (simp add: checkasset_positive)

lemma transfernft_cases:
  assumes "transfernft C E from to nft_ids s = Inr s'"
  obtains "has_auth E from" "is_account E to" "from \<noteq> to" "\<forall>i \<in> set nft_ids. link_table s i = None"
    "changeowner (call_depth E) C from to True nft_ids s = Inr s'"
proof -
  have loop: "for_each (\<lambda>i s. bind_res (table_get (dream_table s) i e) (\<lambda>token.
      check (link_table s i = None) e' (Inr s))) xs s = Inr t \<Longrightarrow>
      t = s \<and> (\<forall>i \<in> set xs. link_table s i = None)" for e e' xs t
    by (induction xs) auto
  show ?thesis
    using assms unfolding transfernft_def by (elim check_InrE bind_res_InrE) (blast dest: loop intro: that)
qed

lemma add_balance_frame:
  assumes "add_balance C owner category token_name i quantity s = Inr s'"
  obtains t where "s' = s\<lparr>account_table := t\<rparr>"
  using assms by (auto simp: add_balance_def split: option.splits)

lemma sub_balance_frame:
  assumes "sub_balance C owner i quantity s = Inr s'"
  obtains t where "s' = s\<lparr>account_table := t\<rparr>"
  using assms by (auto simp: sub_balance_def split: if_splits)

lemma move_token_frame:
  assumes "move_token C from to st token nft_id s = Inr s'"
  obtains t where "s' = s\<lparr>account_table := t,
      dream_table := (dream_table s)(nft_id \<mapsto> token\<lparr>dr_owner := to\<rparr>),
      outbox := outbox s @ [Notify from, Notify to]\<rparr>"
proof -
  let ?s = "s\<lparr>outbox := outbox s @ [Notify from, Notify to],
      dream_table := (dream_table s)(nft_id \<mapsto> token\<lparr>dr_owner := to\<rparr>)\<rparr>"
  from assms obtain t where "s' = ?s\<lparr>account_table := t\<rparr>"
    by (auto simp: move_token_def Let_def send_def elim!: add_balance_frame sub_balance_frame)
  then show ?thesis by (intro that [of t]) simp
qed

text \<open>
  The induction the facts about \<open>_changeowner\<close> use: a relation that is reflexive and
  transitive and that survives the move of one unlocked token, relates the states before and
  after every call that returns.
\<close>

lemma owner_step_cases:
  assumes "owner_step rec C from to istransfer nft_id s = Inr u"
  obtains token t st where "dream_table s nft_id = Some token" "lock_table s nft_id = None"
    "(if dr_children token \<noteq> [] then rec (dr_children token) s else Inr s) = Inr t"
    "stats_table t (dr_category token, dr_token_name token) = Some st"
    "istransfer \<longrightarrow> dr_owner token = from \<and> st_transferable st"
    "move_token C from to st token nft_id t = Inr u"
  using assms by (auto simp: owner_step_def split: if_splits)

lemma changeowner_rel:
  assumes run: "changeowner depth C from to istransfer nft_ids s = Inr s'"
    and refl: "\<And>s. R s s" and trans: "\<And>s t u. R s t \<Longrightarrow> R t u \<Longrightarrow> R s u"
    and move: "\<And>s t u token st nft_id. dream_table s nft_id = Some token \<Longrightarrow> lock_table s nft_id = None \<Longrightarrow>
      R s t \<Longrightarrow> stats_table t (dr_category token, dr_token_name token) = Some st \<Longrightarrow>
      move_token C from to st token nft_id t = Inr u \<Longrightarrow> R s u"
  shows "R s s'"
  using run
proof (induction depth arbitrary: nft_ids istransfer s s')
  case (Suc depth)
  from Suc.prems
  have "for_each (owner_step (changeowner depth C from to False) C from to istransfer) nft_ids s = Inr s'"
    by auto
  then show ?case
  proof (rule for_each_rel [where R = R, OF _ refl trans])
    fix x s u
    assume "owner_step (changeowner depth C from to False) C from to istransfer x s = Inr u"
    then obtain token t st where *: "dream_table s x = Some token" "lock_table s x = None"
        "(if dr_children token \<noteq> [] then changeowner depth C from to False (dr_children token) s
          else Inr s) = Inr t"
        "stats_table t (dr_category token, dr_token_name token) = Some st"
        "move_token C from to st token x t = Inr u"
      by (rule owner_step_cases)
    have "R s t"
      using *(3) Suc.IH [of False "dr_children token" s t] refl by (auto split: if_splits)
    with * show "R s u" by (intro move [of s x token t st u])
  qed
qed simp

section \<open>What a change of owner does\<close>

text \<open>Every token is as before or handed over to the new owner, with nothing else of it changed.\<close>

definition handed_to :: "name \<Rightarrow> dreamoji \<Rightarrow> dreamoji \<Rightarrow> bool" where
  "handed_to to s s' \<longleftrightarrow>
     (\<forall>i. dream_table s' i = dream_table s i \<or>
        (\<exists>d. dream_table s i = Some d \<and> lock_table s i = None \<and> dream_table s' i = Some (d\<lparr>dr_owner := to\<rparr>))) \<and>
     (\<exists>a d o'. s' = s\<lparr>account_table := a, dream_table := d, outbox := o'\<rparr>)"

lemma handed_to_refl: "handed_to to s s"
  unfolding handed_to_def by (rule conjI, simp, rule exI [of _ "account_table s"], rule exI [of _ "dream_table s"],
      rule exI [of _ "outbox s"]) simp

lemma handed_token:
  assumes "handed_to to s s'"
  shows "dream_table s' i = dream_table s i \<or>
    (\<exists>d. dream_table s i = Some d \<and> lock_table s i = None \<and> dream_table s' i = Some (d\<lparr>dr_owner := to\<rparr>))"
  using assms unfolding handed_to_def by blast

lemma handed_to_tables:
  assumes "handed_to to s s'"
  shows "lock_table s' = lock_table s" "link_table s' = link_table s" "ask_table s' = ask_table s"
    "config_table s' = config_table s" "category_table s' = category_table s"
    "stats_table s' = stats_table s" "sale_table s' = sale_table s" "licence_table s' = licence_table s"
  using assms by (auto simp: handed_to_def)

lemma handed_to_trans:
  assumes 1: "handed_to to s t" and 2: "handed_to to t u"
  shows "handed_to to s u"
proof -
  have "dream_table u i = dream_table s i \<or>
      (\<exists>d. dream_table s i = Some d \<and> lock_table s i = None \<and> dream_table u i = Some (d\<lparr>dr_owner := to\<rparr>))" for i
    using handed_token [OF 1, of i] handed_token [OF 2, of i] handed_to_tables(1) [OF 1]
    by (cases "dream_table s i") auto
  moreover have "\<exists>a d o'. u = s\<lparr>account_table := a, dream_table := d, outbox := o'\<rparr>"
    using 1 2 unfolding handed_to_def by force
  ultimately show ?thesis by (simp add: handed_to_def)
qed

lemma changeowner_handed:
  assumes "changeowner depth C from to istransfer nft_ids s = Inr s'"
  shows "handed_to to s s'"
  using assms handed_to_refl handed_to_trans
proof (rule changeowner_rel [where R = "handed_to to"])
  fix s t u token st nft_id
  assume *: "dream_table s nft_id = Some token" "lock_table s nft_id = None" "handed_to to s t"
    "move_token C from to st token nft_id t = Inr u"
  from *(4) obtain a where u: "u = t\<lparr>account_table := a,
      dream_table := (dream_table t)(nft_id \<mapsto> token\<lparr>dr_owner := to\<rparr>),
      outbox := outbox t @ [Notify from, Notify to]\<rparr>" by (rule move_token_frame)
  have "\<exists>a d o'. u = s\<lparr>account_table := a, dream_table := d, outbox := o'\<rparr>"
    using *(3) unfolding u handed_to_def by force
  with * show "handed_to to s u" unfolding handed_to_def u by simp
qed

lemma handed_owner: "handed_to to s s' \<Longrightarrow> dream_table s i = Some d \<Longrightarrow> dr_owner d = to \<Longrightarrow>
    \<exists>d'. dream_table s' i = Some d' \<and> dr_owner d' = to"
  by (drule handed_token [of _ _ _ i]) auto

lemma owner_step_handed:
  assumes "owner_step (changeowner depth C from to False) C from to istransfer i s = Inr u"
  shows "handed_to to s u" and "\<exists>d. dream_table u i = Some d \<and> dr_owner d = to"
    and "\<exists>d st. dream_table s i = Some d \<and> lock_table s i = None \<and>
      stats_table s (dr_category d, dr_token_name d) = Some st \<and>
      (istransfer \<longrightarrow> dr_owner d = from \<and> st_transferable st)"
proof -
  from assms have "for_each (owner_step (changeowner depth C from to False) C from to istransfer) [i] s = Inr u"
    by simp
  then have "changeowner (Suc depth) C from to istransfer [i] s = Inr u" by simp
  then show "handed_to to s u" by (rule changeowner_handed)
  from assms obtain token t st where *: "dream_table s i = Some token" "lock_table s i = None"
      "(if dr_children token \<noteq> [] then changeowner depth C from to False (dr_children token) s else Inr s) = Inr t"
      "stats_table t (dr_category token, dr_token_name token) = Some st"
      "istransfer \<longrightarrow> dr_owner token = from \<and> st_transferable st"
      "move_token C from to st token i t = Inr u"
    by (rule owner_step_cases)
  from *(6) show "\<exists>d. dream_table u i = Some d \<and> dr_owner d = to"
    by (rule move_token_frame) simp
  have "handed_to to s t" using *(3) by (auto intro: handed_to_refl changeowner_handed split: if_splits)
  then show "\<exists>d st. dream_table s i = Some d \<and> lock_table s i = None \<and>
      stats_table s (dr_category d, dr_token_name d) = Some st \<and>
      (istransfer \<longrightarrow> dr_owner d = from \<and> st_transferable st)"
    using * handed_to_tables(6) [of to s t] by auto
qed

lemma changeowner_listed:
  assumes "changeowner depth C from to istransfer nft_ids s = Inr s'" and "i \<in> set nft_ids"
  shows "\<exists>d. dream_table s' i = Some d \<and> dr_owner d = to"
    and "from \<noteq> to \<Longrightarrow> \<exists>d st. dream_table s i = Some d \<and> lock_table s i = None \<and>
      stats_table s (dr_category d, dr_token_name d) = Some st \<and>
      (istransfer \<longrightarrow> dr_owner d = from \<and> st_transferable st)"
proof -
  obtain n where n: "depth = Suc n" using assms(1) by (cases depth) auto
  obtain xs ys where ids: "nft_ids = xs @ i # ys" using assms(2) by (meson split_list)
  let ?f = "owner_step (changeowner n C from to False) C from to istransfer"
  have part: "changeowner (Suc n) C from to istransfer zs a = Inr b"
    if "for_each ?f zs a = Inr b" "length zs \<le> 20" for zs a b using that by simp
  from assms(1) have len: "length nft_ids \<le> 20" and "for_each ?f (xs @ i # ys) s = Inr s'"
    by (auto simp: n ids)
  then obtain t u where 1: "for_each ?f xs s = Inr t" and 2: "?f i t = Inr u" and 3: "for_each ?f ys u = Inr s'"
    by (auto simp: for_each_append)
  have h1: "handed_to to s t" and h3: "handed_to to u s'"
    using len by (auto simp: ids intro: changeowner_handed [OF part [OF 1]] changeowner_handed [OF part [OF 3]])
  show "\<exists>d. dream_table s' i = Some d \<and> dr_owner d = to"
    using owner_step_handed(2) [OF 2] handed_owner [OF h3] by blast
  obtain d st where d: "dream_table t i = Some d" "lock_table t i = None"
      "stats_table t (dr_category d, dr_token_name d) = Some st"
      "istransfer \<longrightarrow> dr_owner d = from \<and> st_transferable st"
    using owner_step_handed(3) [OF 2] by blast
  assume "from \<noteq> to"
  then show "\<exists>d st. dream_table s i = Some d \<and> lock_table s i = None \<and>
      stats_table s (dr_category d, dr_token_name d) = Some st \<and>
      (istransfer \<longrightarrow> dr_owner d = from \<and> st_transferable st)"
    using handed_token [OF h1, of i] d handed_to_tables [OF h1]
    by (cases "dream_table s i") auto
qed

end
