(* ===== verification/Dreamoji_Memo.thy ===== *)
theory Dreamoji_Memo
  imports Dreamoji_State
begin

text \<open>
  The memo of a purchase (\<open>NFT-Contracts/include/service.hpp\<close>): white space removal and the
  split of \<open>sale_type,to_account,asset_id\<close> into its three parts. \<open>std::stoull\<close> is modelled with
  its sign, its stop at the first character that is no digit and its range check.
\<close>

definition left :: "string \<Rightarrow> string" where
  "left sub = dropWhile is_space sub"

definition right :: "string \<Rightarrow> string" where
  "right sub = rev (dropWhile is_space (rev sub))"

definition crop :: "string \<Rightarrow> string" where
  "crop sub = right (left sub)"

definition find_from :: "char \<Rightarrow> string \<Rightarrow> nat \<Rightarrow> nat option" where
  "find_from c s i = (case find_char c (drop i s) of None \<Rightarrow> None | Some n \<Rightarrow> Some (i + n))"

definition stoull :: "string \<Rightarrow> u64 run" where
  "stoull str =
     (let s = dropWhile is_space str;
          neg = take 1 s = ''-'';
          s = (if take 1 s = ''-'' \<or> take 1 s = ''+'' then drop 1 s else s);
          ds = takeWhile is_digit s
      in check (ds \<noteq> []) ''stoull: no conversion''
        (check (dec_value ds < 2 ^ 64) ''stoull: out of range''
        (Inr (if neg then - of_nat (dec_value ds) else of_nat (dec_value ds)))))"

definition stringtupler :: "cdt \<Rightarrow> string \<Rightarrow> (string \<times> name \<times> u64) run" where
  "stringtupler C memo =
     (let err_msg = ''the correct format of memo is sale_type,to_account,asset_id'' in
      case find_char CHR '','' memo of
        None \<Rightarrow> Inl err_msg
      | Some pstn_com1 \<Rightarrow>
         (case find_from CHR '','' memo (pstn_com1 + 1) of
            None \<Rightarrow> Inl err_msg
          | Some pstn_com2 \<Rightarrow>
              check (pstn_com2 \<noteq> length memo - 1) err_msg
             (check (pstn_com2 - pstn_com1 = 13) err_msg
             (let sale_type = crop (take pstn_com1 memo) in
              bind_res (name_ctor C (crop (take 12 (drop (pstn_com1 + 1) memo)))) (\<lambda>to_account.
              bind_res (stoull (crop (drop (pstn_com2 + 1) memo))) (\<lambda>asset_id.
              Inr (sale_type, to_account, asset_id)))))))"

section \<open>Well-formed memos are read as written\<close>

definition plain :: "string \<Rightarrow> bool" where
  "plain s \<longleftrightarrow> s \<noteq> [] \<and> \<not> is_space (hd s) \<and> \<not> is_space (last s) \<and> CHR '','' \<notin> set s"

lemma crop_id: "s \<noteq> [] \<Longrightarrow> \<not> is_space (hd s) \<Longrightarrow> \<not> is_space (last s) \<Longrightarrow> crop s = s"
  by (simp add: crop_def left_def right_def dropWhile_id hd_rev)

lemma last_dec_string: "is_digit (last (dec_string n))" "is_digit (hd (dec_string n))"
  using dec_string_digits [of n] by (simp_all add: list_all_iff)

lemma crop_dec_string: "crop (dec_string n) = dec_string n"
  using dec_string_digits [of n] last_dec_string [of n] digit_chars by (intro crop_id) auto

lemma stoull_dec_string:
  assumes "n < 2 ^ 64"
  shows "stoull (dec_string n) = Inr (of_nat n)"
proof -
  have d: "dec_string n \<noteq> []" "list_all is_digit (dec_string n)" "dec_value (dec_string n) = n"
    using dec_string_digits by blast+
  have 1: "dropWhile is_space (dec_string n) = dec_string n"
    using d last_dec_string [of n] digit_chars by (intro dropWhile_id) auto
  have 2: "takeWhile is_digit (dec_string n) = dec_string n"
    using d(2) by (simp add: takeWhile_eq_all_conv list_all_iff)
  have 3: "take (Suc 0) (dec_string n) \<noteq> ''-''" "take (Suc 0) (dec_string n) \<noteq> ''+''"
    using last_dec_string(2) [of n] d(1) by (cases "dec_string n"; auto simp: is_digit_def)+
  show ?thesis
    using assms d(1,3) by (simp add: stoull_def Let_def 1 2 3)
qed

lemma stringtupler_wellformed:
  assumes "plain t" and "plain n" and "length n = 12" and "i < 2 ^ 64"
  shows "stringtupler C (t @ '','' @ n @ '','' @ dec_string i)
    = bind_res (name_ctor C n) (\<lambda>to. Inr (t, to, of_nat i))"
proof -
  let ?d = "dec_string i" and ?m = "t @ CHR '','' # n @ CHR '','' # dec_string i"
  have p: "t \<noteq> []" "CHR '','' \<notin> set t" "crop t = t" "CHR '','' \<notin> set n" "crop n = n"
    using assms(1,2) by (auto simp: plain_def crop_id)
  have f1: "find_char CHR '','' ?m = Some (length t)"
    by (rule find_char_found [OF p(2)])
  have f2: "find_from CHR '','' ?m (length t + 1) = Some (length t + 13)"
    using find_char_found [OF p(4), of ?d] assms(3) by (simp add: find_from_def)
  have "?d \<noteq> []" using dec_string_digits by blast
  then have l: "length t + 13 \<noteq> length ?m - 1" using assms(3) by (cases ?d) auto
  have tk: "take (length t) ?m = t" "take 12 (drop (length t + 1) ?m) = n"
      "drop (length t + 13 + 1) ?m = ?d"
    using assms(3) by simp_all
  show ?thesis
    unfolding stringtupler_def Let_def
    by (simp add: f1 [simplified] f2 [simplified] l [simplified] tk [simplified] p crop_dec_string
        stoull_dec_string [OF assms(4)])
qed

text \<open>
  C30: A memo that joins a sale type, a twelve-character account and a decimal identifier by
  commas is read back as those three parts; the account goes through the toolkit's name
  constructor and nothing else of the memo can abort.
\<close>

theorem memo_roundtrip:
  assumes "plain t" and "plain n" and "length n = 12" and "i < 2 ^ 64" and "name_ctor C n = Inr account"
  shows "stringtupler C (t @ '','' @ n @ '','' @ dec_string i) = Inr (t, account, of_nat i)"
  using stringtupler_wellformed [OF assms(1-4)] assms(5) by simp

theorem memo_roundtrip_witness:
  "stringtupler chain_cdt (''nft'' @ '','' @ ''dreambuyer11'' @ '','' @ dec_string 42)
    = Inr (''nft'', string_to_name ''dreambuyer11'', 42)"
proof -
  have "name_ctor chain_cdt ''dreambuyer11'' = Inr (string_to_name ''dreambuyer11'')"
    using ref_trim.name_set_Inr_iff [of "''dreambuyer11''" "string_to_name ''dreambuyer11''"]
    by (simp add: chain_cdt_def valid_name_string_def charmap_def)
  then show ?thesis
    using memo_roundtrip [of "''nft''" "''dreambuyer11''" 42 chain_cdt]
    by (simp add: plain_def is_space_def)
qed

end
