(* ===== verification/Dreamoji_Example.thy ===== *)
theory Dreamoji_Example
  imports Dreamoji_State
begin

text \<open>
  A concrete contract for the examples of the Dreamoji theories: one token type of category 4
  and name 5 with two issued tokens, both of account 6, and the values the toolkit built from
  the chain's own definitions gives on it.
\<close>

abbreviation demo_sym :: symbol where "demo_sym \<equiv> 0x4D4145524400"

definition demo_env :: "name \<Rightarrow> env" where
  "demo_env n = \<lparr>self = 1, has_auth = (\<lambda>m. m = n), is_account = (\<lambda>m. True), now = 1000,
     call_depth = 3, stale = (\<lambda>i. i), no_element = 0\<rparr>"

definition demo_asset :: "int \<Rightarrow> asset" where
  "demo_asset n = \<lparr>amount = n, sym = demo_sym\<rparr>"

definition demo_stats :: dreamstats where
  "demo_stats = \<lparr>st_fungible = False, st_burnable = True, st_sellable = True, st_transferable = True,
     st_issuer = 2, st_rev_partner = 3, st_token_name = 5, st_category_name_id = 0,
     st_max_supply = demo_asset 10, st_max_issue_window = 0, st_current_supply = demo_asset 2,
     st_issued_supply = demo_asset 2, st_rev_split = DFinite (1/8), st_base_uri = ''uri''\<rparr>"

definition demo_token :: "u64 \<Rightarrow> dreams" where
  "demo_token i = \<lparr>dr_id = i, dr_serial_number = i + 1, dr_owner = 6, dr_category = 4, dr_token_name = 5,
     dr_relative_uri = Some ''a'', dr_children = []\<rparr>"

definition demo_state :: dreamoji where
  "demo_state = \<lparr>lock_table = Map.empty, link_table = Map.empty, ask_table = Map.empty,
     config_table = Some \<lparr>cfg_standard = string_to_name ''dreamoji'', cfg_version = ''1.0'',
       cfg_symbol = 0x4D41455244, cfg_category_name_id = 1, cfg_next_nft_id = 2, cfg_next_licence_id = 0\<rparr>,
     category_table = [4 \<mapsto> \<lparr>cat_category = 4\<rparr>],
     stats_table = [(4, 5) \<mapsto> demo_stats],
     dream_table = [0 \<mapsto> demo_token 0, 1 \<mapsto> demo_token 1],
     account_table = [(6, 0) \<mapsto> \<lparr>ac_category_name_id = 0, ac_category = 4, ac_token_name = 5, ac_amount = demo_asset 2\<rparr>],
     sale_table = Map.empty, licence_table = Map.empty,
     outbox = [Notify 2, Log_Call 0, Log_Call 1]\<rparr>"

lemma demo_name: "name_ctor chain_cdt ''dreamoji'' = Inr (string_to_name ''dreamoji'')"
  using ref_trim.name_set_Inr_iff [of "''dreamoji''" "string_to_name ''dreamoji''"]
  by (simp add: chain_cdt_def valid_name_string_def charmap_def)

lemma demo_code: "code_is_valid chain_cdt 0x4D41455244" by code_simp
lemma demo_precision: "symbol_precision chain_cdt demo_sym = 0" by code_simp
lemma demo_symbol_ctor: "symbol_ctor chain_cdt 0x4D41455244 0 = demo_sym" by code_simp
lemma demo_symbol_code: "symbol_code_of chain_cdt demo_sym = 0x4D41455244" by code_simp
lemma demo_symbol_valid: "symbol_valid demo_sym" by code_simp
lemma demo_asset_ctor: "asset_ctor chain_cdt n demo_sym = Inr (demo_asset n)" 
   "asset_is_valid chain_cdt (demo_asset n)" if "0 \<le> n" "n \<le> 100"
  using demo_symbol_valid that
  by (simp_all add: chain_cdt_def asset_exact_def make_asset_def is_valid_def is_amount_within_range_def max_amount_def demo_asset_def)

lemma demo_asset_add: "asset_add chain_cdt (demo_asset m) (demo_asset n) = Inr (demo_asset (m + n))"
   if "0 \<le> m + n" "m + n \<le> 100"
  using demo_asset_ctor(1) [of "m + n"] that by (simp add: chain_cdt_def) (simp add: demo_asset_def)

lemma demo_asset_sub: "asset_sub chain_cdt (demo_asset m) (demo_asset n) = Inr (demo_asset (m - n))"
   if "0 \<le> m - n" "m - n \<le> 100"
  using demo_asset_ctor(1) [of "m - n"] that by (simp add: chain_cdt_def) (simp add: demo_asset_def)

lemma demo_amount: "amount (demo_asset n) = n" "sym (demo_asset n) = demo_sym" by (simp_all add: demo_asset_def)

lemmas demo_eval = demo_name demo_code demo_precision demo_symbol_ctor demo_symbol_code
  demo_asset_ctor demo_asset_add demo_asset_sub demo_amount

text \<open>Prices are in \<open>DRMI\<close> with four decimals.\<close>

definition demo_price :: "int \<Rightarrow> asset" where
  "demo_price n = \<lparr>amount = n, sym = 0x494D524404\<rparr>"

lemma demo_price_symbol: "symbol_valid 0x494D524404" by code_simp

lemma demo_price_ctor: "asset_ctor chain_cdt n 0x494D524404 = Inr (demo_price n)"
  if "0 \<le> n" "n \<le> 1000"
  using demo_price_symbol that
  by (simp add: chain_cdt_def asset_exact_def make_asset_def is_amount_within_range_def max_amount_def demo_price_def)

lemma demo_price_sel: "amount (demo_price n) = n" "sym (demo_price n) = 0x494D524404"
  by (simp_all add: demo_price_def)

lemma demo_state_sel:
  "lock_table demo_state = Map.empty" "link_table demo_state = Map.empty" "ask_table demo_state = Map.empty"
  "stats_table demo_state = [(4, 5) \<mapsto> demo_stats]"
  "dream_table demo_state = [0 \<mapsto> demo_token 0, 1 \<mapsto> demo_token 1]"
  "account_table demo_state = [(6, 0) \<mapsto> \<lparr>ac_category_name_id = 0, ac_category = 4, ac_token_name = 5,
     ac_amount = demo_asset 2\<rparr>]"
  by (simp_all add: demo_state_def)

end
