(* ===== verification/Dreamoji_Market.thy ===== *)
theory Dreamoji_Market
  imports Dreamoji_Token Dreamoji_Memo Dreamoji_Example
begin

text \<open>
  Sales, licences, links and purchases (\<open>NFT-Contracts/src/dreamoji.cpp\<close>, lines 301 to 787 and
  942 to 972).
\<close>

section \<open>Private methods\<close>

text \<open>\<open>std::map<name, asset>\<close>: pairs in increasing order of the name.\<close>

type_synonym fee_map = "(name \<times> asset) list"

fun fee_insert :: "name \<Rightarrow> asset \<Rightarrow> fee_map \<Rightarrow> fee_map \<times> bool" where
  "fee_insert k v [] = ([(k, v)], True)"
| "fee_insert k v ((k', v') # m) =
     (if k = k' then ((k', v') # m, False)
      else if k < k' then ((k, v) # (k', v') # m, True)
      else (case fee_insert k v m of (m', b) \<Rightarrow> ((k', v') # m', b)))"

fun fee_add :: "cdt \<Rightarrow> name \<Rightarrow> asset \<Rightarrow> fee_map \<Rightarrow> fee_map run" where
  "fee_add C k v [] = Inl ''no such key''"
| "fee_add C k v ((k', v') # m) =
     (if k = k' then bind_res (asset_add C v' v) (\<lambda>a. Inr ((k', a) # m))
      else bind_res (fee_add C k v m) (\<lambda>m'. Inr ((k', v') # m')))"

definition fee_credit :: "cdt \<Rightarrow> name \<Rightarrow> asset \<Rightarrow> fee_map \<Rightarrow> fee_map run" where
  "fee_credit C k v m =
     (case fee_insert k v m of (m', inserted) \<Rightarrow> if inserted then Inr m' else fee_add C k v m')"

definition fee_step ::
  "cdt \<Rightarrow> dreamoji \<Rightarrow> nat \<Rightarrow> asset \<Rightarrow> u64 \<Rightarrow> fee_map \<times> int \<Rightarrow> (fee_map \<times> int) run" where
  "fee_step C s n asked nft_id acc =
     (case acc of (fee_map, tot_fees) \<Rightarrow>
      bind_res (table_get (dream_table s) nft_id ''token does not exist'') (\<lambda>token.
      bind_res (table_get (stats_table s) (dr_category token, dr_token_name token)
                  ''asset stats not found'') (\<lambda>dream_stats.
      if st_rev_split dream_stats = d_zero then Inr (fee_map, tot_fees)
      else let fee = d_div (d_mul (d_of_int (amount asked)) (st_rev_split dream_stats))
                           (d_of_int (int n))
           in case d_to_int64 fee of
                None \<Rightarrow> Inl ''integer overflow in conversion''
              | Some fee_amount \<Rightarrow>
                  bind_res (asset_ctor C fee_amount (sym asked)) (\<lambda>fee_asset.
                  bind_res (fee_credit C (st_rev_partner dream_stats) fee_asset fee_map) (\<lambda>fee_map.
                  Inr (fee_map, tot_fees + amount fee_asset))))))"

definition calcfees :: "cdt \<Rightarrow> u64 list \<Rightarrow> asset \<Rightarrow> name \<Rightarrow> dreamoji \<Rightarrow> fee_map run" where
  "calcfees C nft_ids asked seller s =
     bind_res (for_each (fee_step C s (length nft_ids) asked) nft_ids ([], 0)) (\<lambda>(fee_map, tot_fees).
     bind_res (asset_ctor C (amount asked - tot_fees) (sym asked)) (\<lambda>seller_amount.
     fee_credit C seller seller_amount fee_map))"

definition lock_nft :: "u64 \<Rightarrow> dreamoji \<Rightarrow> dreamoji run" where
  "lock_nft nft_id s =
     bind_res (table_emplace (lock_table s) nft_id \<lparr>lk_nft_id = nft_id\<rparr> duplicate_key) (\<lambda>t.
     Inr (s\<lparr>lock_table := t\<rparr>))"

definition lock_if_free :: "u64 \<Rightarrow> dreamoji \<Rightarrow> dreamoji run" where
  "lock_if_free nft_id s = (if lock_table s nft_id = None then lock_nft nft_id s else Inr s)"

definition unlock_nft :: "msg \<Rightarrow> u64 \<Rightarrow> dreamoji \<Rightarrow> dreamoji run" where
  "unlock_nft e nft_id s =
     bind_res (table_get (lock_table s) nft_id e) (\<lambda>locked_nft.
     Inr (s\<lparr>lock_table := table_erase (lock_table s) nft_id\<rparr>))"

text \<open>
  \<open>_createlicence\<close> calls itself on the children of the token; the first argument is again the
  number of nested calls still allowed.
\<close>

fun createlicence ::
  "nat \<Rightarrow> cdt \<Rightarrow> env \<Rightarrow> u64 \<Rightarrow> name \<Rightarrow> name list \<Rightarrow> u64 \<Rightarrow> bool \<Rightarrow> dreamoji \<Rightarrow> dreamoji run" where
  "createlicence 0 C E nft_id owner to period relicense s = Inl ''call depth exceeded''"
| "createlicence (Suc depth) C E nft_id owner to period relicense s =
     bind_res (nextlicenceid s) (\<lambda>(licence_id, s).
     bind_res (table_emplace (licence_table s) (self E, licence_id)
         \<lparr>lc_licence_id = licence_id, lc_nft_id = nft_id, lc_owner = owner, lc_licensed_to = to,
          lc_expiration = sec_plus C (now E) (ucast period), lc_relicense = relicense\<rparr>
         duplicate_key) (\<lambda>t.
     bind_res (lock_if_free nft_id (s\<lparr>licence_table := t\<rparr>)) (\<lambda>s.
     let s = send (Log_License licence_id) s in
     bind_res (table_get (dream_table s) nft_id ''nftoken does not exist'') (\<lambda>token.
     for_each (\<lambda>child_id. createlicence depth C E child_id owner to period relicense)
       (dr_children token) s))))"

section \<open>Sales\<close>

definition drmi :: "cdt \<Rightarrow> symbol" where
  "drmi C = symbol_ctor C (code_of_text C ''DRMI'') 4"

text \<open>The price check \<open>amount > .02 * pow(10, precision)\<close>, in double arithmetic.\<close>

definition above_minimum :: "cdt \<Rightarrow> asset \<Rightarrow> bool" where
  "above_minimum C price \<longleftrightarrow>
     d_less (d_mul (to_double (2 / 100)) (to_double (10 ^ unat (symbol_precision C (sym price)))))
       (d_of_int (amount price))"

definition first_id :: "env \<Rightarrow> u64 list \<Rightarrow> u64" where
  "first_id E nft_ids = (case nft_ids of [] \<Rightarrow> no_element E | i # _ \<Rightarrow> i)"

text \<open>The bodies of the loops of \<open>nftokensale\<close> and \<open>licencesale\<close>.\<close>

definition ask_one :: "name \<Rightarrow> u64 \<Rightarrow> dreamoji \<Rightarrow> dreamoji run" where
  "ask_one seller nft_id s =
     bind_res (table_get (dream_table s) nft_id ''token does not exist'') (\<lambda>token.
     check (link_table s nft_id = None) ''cannot directly sell linked NFTs without the parent NFT''
    (bind_res (table_get (stats_table s) (dr_category token, dr_token_name token)
                 ''dreamoji stats not found'') (\<lambda>dream_stats.
     check (st_sellable dream_stats) ''not sellable''
    (check (seller = dr_owner token) ''not token owner''
    (check (lock_table s nft_id = None) ''token locked''
    (lock_nft nft_id s))))))"

definition licence_sale_one ::
  "cdt \<Rightarrow> env \<Rightarrow> name \<Rightarrow> asset \<Rightarrow> u16 \<Rightarrow> u64 \<Rightarrow> u64 \<Rightarrow> u64 \<Rightarrow> dreamoji \<Rightarrow> dreamoji run" where
  "licence_sale_one C E seller price lcnc_limit sale_period_sec lcnc_period_sec nft_id s =
     bind_res (table_get (dream_table s) nft_id ''token does not exist'') (\<lambda>token.
     check (link_table s nft_id = None) ''cannot directly license linked NFTs without the parent NFT''
    (check (seller = dr_owner token) ''token needs to be owned before it can be licensed out''
    (check (sale_table s nft_id = None) ''ongoing sale of NFT must be ended before selling again''
    (bind_res (lock_if_free nft_id s) (\<lambda>s.
     bind_res (table_emplace (sale_table s) nft_id
       \<lparr>sl_nft_id = nft_id, sl_seller = seller, sl_price = price, sl_lcnc_limit = lcnc_limit,
        sl_end_of_sale = sec_plus C (now E) (ucast sale_period_sec),
        sl_lcnc_period_sec = lcnc_period_sec\<rparr> duplicate_key) (\<lambda>t.
     Inr (s\<lparr>sale_table := t\<rparr>)))))))"

definition nftokensale ::
  "cdt \<Rightarrow> env \<Rightarrow> name \<Rightarrow> u64 list \<Rightarrow> asset \<Rightarrow> u64 \<Rightarrow> dreamoji \<Rightarrow> dreamoji run" where
  "nftokensale C E seller nft_ids net_sale_amount sale_period_sec s =
     require_auth E seller
    (check (length nft_ids \<le> 20) ''max batch size of 20''
    (check (above_minimum C net_sale_amount) ''minimum price of at least 0.02 DRMI''
    (check (sym net_sale_amount = drmi C) ''only DRMI with precision of 4 is accepted for sale''
    (check (ask_table s (first_id E nft_ids) = None) ''ongoing sale of batch must be ended before selling again''
    (bind_res (for_each (ask_one seller) nft_ids s) (\<lambda>s.
     bind_res (table_emplace (ask_table s) (first_id E nft_ids)
         \<lparr>ask_batch_id = first_id E nft_ids, ask_nft_ids = nft_ids, ask_seller = seller,
          ask_amount = net_sale_amount,
          ask_expiration = sec_plus C (now E) (ucast sale_period_sec)\<rparr> duplicate_key) (\<lambda>t.
     Inr (s\<lparr>ask_table := t\<rparr>))))))))"

definition licencesale ::
  "cdt \<Rightarrow> env \<Rightarrow> name \<Rightarrow> asset \<Rightarrow> u64 list \<Rightarrow> u16 \<Rightarrow> u64 \<Rightarrow> u64 \<Rightarrow> dreamoji \<Rightarrow> dreamoji run" where
  "licencesale C E seller price nft_ids lcnc_limit sale_period_sec lcnc_period_sec s =
     require_auth E seller
    (let s = send (Notify seller) s in
     check (length nft_ids \<le> 20) ''max batch size of 20''
    (check (above_minimum C price) ''minimum price of at least 0.02 DRMI''
    (check (sym price = drmi C) ''only DRMI with precision of 4 is accepted for sale''
    (for_each (licence_sale_one C E seller price lcnc_limit sale_period_sec lcnc_period_sec) nft_ids s))))"

definition endnftsale :: "env \<Rightarrow> name \<Rightarrow> u64 \<Rightarrow> dreamoji \<Rightarrow> dreamoji run" where
  "endnftsale E seller batch_id s =
     bind_res (table_get (ask_table s) batch_id ''cannot find sale to close'') (\<lambda>ask.
     bind_res (if now E \<le> ask_expiration ask
               then require_auth E seller
                   (check (ask_seller ask = seller) ''only the seller can cancel a sale in progress'' (Inr ()))
               else Inr ()) (\<lambda>_.
     bind_res (for_each (unlock_nft ''nft not found in lock table'') (ask_nft_ids ask) s) (\<lambda>s.
     Inr (s\<lparr>ask_table := table_erase (ask_table s) batch_id\<rparr>))))"

definition endlcncsale :: "env \<Rightarrow> name \<Rightarrow> u64 \<Rightarrow> dreamoji \<Rightarrow> dreamoji run" where
  "endlcncsale E seller nft_id s =
     bind_res (table_get (sale_table s) nft_id ''cannot find sale to close'') (\<lambda>sale.
     bind_res (if now E \<le> sl_end_of_sale sale
               then require_auth E seller
                   (check (sl_seller sale = seller) ''only the seller can cancel a sale in progress'' (Inr ()))
               else Inr ()) (\<lambda>_.
     bind_res (unlock_nft ''nft not found in lock table'' nft_id s) (\<lambda>s.
     Inr (s\<lparr>sale_table := table_erase (sale_table s) nft_id\<rparr>))))"

section \<open>Licences\<close>

definition license ::
  "cdt \<Rightarrow> env \<Rightarrow> name \<Rightarrow> name list \<Rightarrow> u64 list \<Rightarrow> u64 \<Rightarrow> bool \<Rightarrow> dreamoji \<Rightarrow> dreamoji run" where
  "license C E owner to nft_ids period relicense s =
     require_auth E owner
    (let s = send (Notify owner) s in
     check (length nft_ids \<le> 20) ''max batch size of 20''
    (check (length to \<le> 20) ''max licensee size of 20''
    (check (length nft_ids > 0) ''min batch size of 1''
    (check (length to > 0) ''min licensed_to size of 1''
    (bind_res (for_each (\<lambda>t s.
        check (is_account E t) ''To account does not exist''
       (check (owner \<noteq> t) ''Cannot license to yourself'' (Inr s))) to s) (\<lambda>s.
     for_each (\<lambda>nft_id s.
        check (dream_table s nft_id \<noteq> None) ''Asset id could not be found at the specified scope''
       (createlicence (call_depth E) C E nft_id owner to period relicense s)) nft_ids s))))))"

definition extend :: "cdt \<Rightarrow> env \<Rightarrow> name \<Rightarrow> u64 \<Rightarrow> u64 \<Rightarrow> dreamoji \<Rightarrow> dreamoji run" where
  "extend C E owner lcnc_id period s =
     require_auth E owner
    (let s = send (Notify owner) s in
     bind_res (table_get (licence_table s) (owner, lcnc_id) ''Asset id is not licensed'') (\<lambda>licence.
     check (owner = lc_owner licence) ''You are not the owner of asset id''
    (check (lc_relicense licence) ''Licence agreement was on the basis of non-extension''
    (check (now E > lc_expiration licence) ''Cannot extend this licence before its expiration date''
    (Inr (s\<lparr>licence_table := (licence_table s)((owner, lcnc_id) \<mapsto>
            licence\<lparr>lc_expiration := sec_plus C (now E) (ucast period)\<rparr>)\<rparr>))))))"

text \<open>
  The body of the loop of \<open>revoke\<close>. After the licence row is erased its \<open>nft_id\<close> is read
  through the reference to it, and looked up among the licence identifiers.
\<close>

definition revoke_one :: "env \<Rightarrow> name \<Rightarrow> name list \<Rightarrow> u64 \<Rightarrow> dreamoji \<Rightarrow> dreamoji run" where
  "revoke_one E owner from lcnc_id s =
     bind_res (table_get (licence_table s) (owner, lcnc_id) ''Asset id is not licensed'') (\<lambda>licence.
     check (owner = lc_owner licence) ''You are not the owner of the licensed nft''
    (check (now E > lc_expiration licence) ''Cannot revoke this licence before its expiration date''
    (if length from \<le> length (lc_licensed_to licence)
     then let licencee_vector = fold removeAll from (lc_licensed_to licence) in
          if licencee_vector = []
          then let s = s\<lparr>licence_table := table_erase (licence_table s) (owner, lcnc_id)\<rparr>;
                   nft_id = stale E (lc_nft_id licence)
               in bind_res (table_get (lock_table s) nft_id ''NFT not found in lock table'') (\<lambda>locked_nft.
                  if licence_table s (owner, nft_id) = None
                  then Inr (s\<lparr>lock_table := table_erase (lock_table s) nft_id\<rparr>)
                  else Inr s)
          else Inr (s\<lparr>licence_table := (licence_table s)((owner, lcnc_id) \<mapsto>
                     licence\<lparr>lc_licensed_to := licencee_vector\<rparr>)\<rparr>)
     else Inl ''Please recheck the submitted licensed_to value(s)'')))"

definition revoke :: "env \<Rightarrow> name \<Rightarrow> name list \<Rightarrow> u64 list \<Rightarrow> dreamoji \<Rightarrow> dreamoji run" where
  "revoke E owner from lcnc_ids s =
     require_auth E owner
    (let s = send (Notify owner) s in
     check (length lcnc_ids > 0) ''min batch size of 1''
    (check (length lcnc_ids < 20) ''max batch size of 20''
    (for_each (revoke_one E owner from) lcnc_ids s)))"

section \<open>Links\<close>

definition link_one :: "dreams \<Rightarrow> u64 \<Rightarrow> dreamoji \<Rightarrow> dreamoji run" where
  "link_one parent nft_id s =
     bind_res (table_get (dream_table s) nft_id ''Child NFT does not exist'') (\<lambda>child.
     check (dr_owner parent = dr_owner child) ''The parent and child NFT must belong to the same owner''
    (check (link_table s nft_id = None) ''Child NFT is already equipped to another parent NFT''
    (if link_table s nft_id = None
     then bind_res (table_emplace (link_table s) nft_id \<lparr>ln_nft_id = nft_id\<rparr> duplicate_key) (\<lambda>t.
          Inr (s\<lparr>link_table := t\<rparr>))
     else Inr s)))"

definition linknfts :: "env \<Rightarrow> u64 list \<Rightarrow> u64 \<Rightarrow> name \<Rightarrow> dreamoji \<Rightarrow> dreamoji run" where
  "linknfts E nft_ids link_to owner s =
     require_auth E owner
    (let s = send (Notify owner) s in
     bind_res (table_get (dream_table s) link_to ''Parent NFT does not exist'') (\<lambda>parent.
     bind_res (for_each (link_one parent) nft_ids s) (\<lambda>s.
     Inr (s\<lparr>dream_table := (dream_table s)(link_to \<mapsto>
            parent\<lparr>dr_children := dr_children parent @ nft_ids\<rparr>)\<rparr>))))"

definition unlink_one :: "u64 \<Rightarrow> dreamoji \<times> u64 list \<Rightarrow> (dreamoji \<times> u64 list) run" where
  "unlink_one nft_id sc =
     (case sc of (s, children) \<Rightarrow>
      check (dream_table s nft_id \<noteq> None) ''Child NFT does not exist''
     (bind_res (table_get (link_table s) nft_id ''NFT has not been linked'') (\<lambda>linked_nft.
      Inr (s\<lparr>link_table := table_erase (link_table s) nft_id\<rparr>, removeAll nft_id children))))"

definition unlinknfts :: "env \<Rightarrow> u64 list \<Rightarrow> u64 \<Rightarrow> name \<Rightarrow> dreamoji \<Rightarrow> dreamoji run" where
  "unlinknfts E nft_ids linked_to owner s =
     require_auth E owner
    (let s = send (Notify owner) s in
     bind_res (table_get (dream_table s) linked_to ''Parent NFT does not exist'') (\<lambda>parent.
     bind_res (for_each unlink_one nft_ids (s, dr_children parent)) (\<lambda>(s, children).
     Inr (s\<lparr>dream_table := (dream_table s)(linked_to \<mapsto> parent\<lparr>dr_children := children\<rparr>)\<rparr>))))"

section \<open>Purchases\<close>

definition pay_fees :: "env \<Rightarrow> fee_map \<Rightarrow> dreamoji \<Rightarrow> dreamoji" where
  "pay_fees E fee_map s =
     fold (\<lambda>(account, a) s. if account \<noteq> self E
             then send (Token_Transfer (self E) account a ''sale of dreamoji'') s else s) fee_map s"

definition purchase_nft :: "cdt \<Rightarrow> env \<Rightarrow> name \<Rightarrow> name \<Rightarrow> u64 \<Rightarrow> asset \<Rightarrow> dreamoji \<Rightarrow> dreamoji run" where
  "purchase_nft C E from to_account asset_id quantity s =
     bind_res (table_get (ask_table s) asset_id ''cannot find nft sale listing'') (\<lambda>ask.
     check (amount (ask_amount ask) = amount quantity) ''send the correct amount''
    (check (ask_expiration ask > now E) ''sale has expired''
    (bind_res (calcfees C (ask_nft_ids ask) (ask_amount ask) (ask_seller ask) s) (\<lambda>fee_map.
     let s = pay_fees E fee_map s in
     bind_res (for_each (unlock_nft ''dreamoji not found in lock table'') (ask_nft_ids ask) s) (\<lambda>s.
     bind_res (changeowner (call_depth E) C (ask_seller ask) to_account False (ask_nft_ids ask) s) (\<lambda>s.
     let s = send (Log_Sale (ask_nft_ids ask) (ask_seller ask) from to_account) s in
     Inr (s\<lparr>ask_table := table_erase (ask_table s) asset_id\<rparr>)))))))"

definition purchase_licence :: "cdt \<Rightarrow> env \<Rightarrow> name \<Rightarrow> name \<Rightarrow> u64 \<Rightarrow> asset \<Rightarrow> dreamoji \<Rightarrow> dreamoji run" where
  "purchase_licence C E from to_account asset_id quantity s =
     bind_res (table_get (sale_table s) asset_id ''The licence of the asset has not been put for sale yet'') (\<lambda>sale.
     check (amount (sl_price sale) = amount quantity) ''send the exact amount of DRMI''
    (check (sl_end_of_sale sale > now E) ''licence sale has expired''
    (check (sl_lcnc_limit sale \<noteq> 0) ''all licences of this nft has been sold out''
    (let s = (if sl_seller sale \<noteq> self E
              then send (Token_Transfer (self E) (sl_seller sale) (sl_price sale)
                           ''sending DRMI to the licence seller'') s
              else s);
         s = s\<lparr>sale_table := (sale_table s)(asset_id \<mapsto> sale\<lparr>sl_lcnc_limit := sl_lcnc_limit sale - 1\<rparr>)\<rparr>;
         s = send (Log_Sale [sl_nft_id sale] (sl_seller sale) from to_account) s
     in createlicence (call_depth E) C E (sl_nft_id sale) (sl_seller sale) [to_account]
          (sl_lcnc_period_sec sale) False s))))"

definition purchase :: "cdt \<Rightarrow> env \<Rightarrow> name \<Rightarrow> name \<Rightarrow> asset \<Rightarrow> string \<Rightarrow> dreamoji \<Rightarrow> dreamoji run" where
  "purchase C E from to quantity memo s =
     (if memo = ''deposit'' then Inr s
      else if to \<noteq> self E then Inr s
      else bind_res (name_ctor C ''eosio.stake'') (\<lambda>stake.
           if from = stake then Inr s
           else check (sym quantity = drmi C) ''Purchase only using DRMI''
               (check (length memo \<le> 32) ''memo too long''
               (bind_res (stringtupler C memo) (\<lambda>(sale_type, to_account, asset_id).
                if sale_type \<in> {''nftoken'', ''nft'', ''n''}
                then purchase_nft C E from to_account asset_id quantity s
                else if sale_type \<in> {''licence'', ''license'', ''lcnc'', ''l''}
                then purchase_licence C E from to_account asset_id quantity s
                else Inl ''parameter to differentiate between purchase of nftoken/licence is required'')))))"

section \<open>What the market actions leave alone\<close>

text \<open>
  No action of this theory but a purchase of tokens changes a balance, a supply, the set of
  tokens, their owners or the counters of types and tokens; links change the children of a
  token and nothing else of it.
\<close>

definition token_core :: "dreams \<Rightarrow> dreams" where
  "token_core d = d\<lparr>dr_children := []\<rparr>"

definition next_type :: "dreamoji \<Rightarrow> u64 option" where
  "next_type s = map_option cfg_category_name_id (config_table s)"

definition next_nft :: "dreamoji \<Rightarrow> u64 option" where
  "next_nft s = map_option cfg_next_nft_id (config_table s)"

definition market_frame :: "dreamoji \<Rightarrow> dreamoji \<Rightarrow> bool" where
  "market_frame s s' \<longleftrightarrow> account_table s' = account_table s \<and> stats_table s' = stats_table s \<and>
     next_type s' = next_type s \<and> next_nft s' = next_nft s \<and>
     (\<forall>i. map_option token_core (dream_table s' i) = map_option token_core (dream_table s i))"

lemma market_frame_refl [simp]: "market_frame s s"
  by (simp add: market_frame_def)

lemma market_frame_trans: "market_frame s t \<Longrightarrow> market_frame t u \<Longrightarrow> market_frame s u"
  by (simp add: market_frame_def)

lemma for_each_market:
  assumes "for_each f xs s = Inr s'"
    and "\<And>x s s'. x \<in> set xs \<Longrightarrow> f x s = Inr s' \<Longrightarrow> market_frame s s'"
  shows "market_frame s s'"
  using assms(1) by (rule for_each_rel) (auto intro: market_frame_trans assms(2))

lemma market_frameI:
  assumes "account_table s' = account_table s" and "stats_table s' = stats_table s"
    and "config_table s' = config_table s" and "dream_table s' = dream_table s"
  shows "market_frame s s'"
  using assms by (simp add: market_frame_def next_type_def next_nft_def)

lemma lock_frames:
  "lock_nft i s = Inr s' \<Longrightarrow> market_frame s s'"
  "lock_if_free i s = Inr s' \<Longrightarrow> market_frame s s'"
  "unlock_nft e i s = Inr s' \<Longrightarrow> market_frame s s'"
  by (auto simp: lock_nft_def lock_if_free_def unlock_nft_def intro!: market_frameI split: if_splits)

lemma send_frame [simp]: "market_frame s (send m s)"
  by (auto simp: send_def intro: market_frameI)

definition licence_row :: "cdt \<Rightarrow> env \<Rightarrow> u64 \<Rightarrow> name \<Rightarrow> name list \<Rightarrow> u64 \<Rightarrow> bool \<Rightarrow> u64 \<Rightarrow> licences" where
  "licence_row C E nft_id owner to period relicense n =
     \<lparr>lc_licence_id = n, lc_nft_id = nft_id, lc_owner = owner, lc_licensed_to = to,
      lc_expiration = sec_plus C (now E) (ucast period), lc_relicense = relicense\<rparr>"

lemma createlicence_cases:
  assumes "createlicence (Suc depth) C E nft_id owner to period relicense s = Inr s'"
  obtains n s1 s2 token where "nextlicenceid s = Inr (n, s1)"
    "lock_if_free nft_id (s1\<lparr>licence_table := (licence_table s1)((self E, n) \<mapsto>
        licence_row C E nft_id owner to period relicense n)\<rparr>) = Inr s2"
    "dream_table s2 nft_id = Some token"
    "for_each (\<lambda>child_id. createlicence depth C E child_id owner to period relicense)
       (dr_children token) (send (Log_License n) s2) = Inr s'"
  using assms by (auto simp: Let_def licence_row_def send_def)

lemma createlicence_frame:
  "createlicence depth C E nft_id owner to period relicense s = Inr s' \<Longrightarrow> market_frame s s'"
proof (induction depth arbitrary: nft_id s s')
  case (Suc depth)
  from Suc.prems show ?case
  proof (rule createlicence_cases)
    fix n and s1 :: dreamoji and s2 and token :: dreams
    let ?s1 = "s1\<lparr>licence_table := (licence_table s1)((self E, n) \<mapsto>
        licence_row C E nft_id owner to period relicense n)\<rparr>"
    assume 1: "nextlicenceid s = Inr (n, s1)" and 2: "lock_if_free nft_id ?s1 = Inr s2"
      and 3: "for_each (\<lambda>child_id. createlicence depth C E child_id owner to period relicense)
       (dr_children token) (send (Log_License n) s2) = Inr s'"
    have "market_frame s ?s1"
      using 1 by (auto simp: nextlicenceid_def market_frame_def next_type_def next_nft_def split: option.splits)
    moreover have "market_frame ?s1 (send (Log_License n) s2)"
      using lock_frames(2) [OF 2] by (rule market_frame_trans) simp
    moreover have "market_frame (send (Log_License n) s2) s'"
      using 3 Suc.IH by (rule for_each_market)
    ultimately show ?thesis by (blast intro: market_frame_trans)
  qed
qed simp

lemma token_core_update [simp]: "token_core (d\<lparr>dr_children := cs\<rparr>) = token_core d"
  by (simp add: token_core_def)

lemma nftokensale_frame:
  assumes "nftokensale C E seller nft_ids price period s = Inr s'"
  shows "market_frame s s'"
proof -
  from assms obtain t x where 1: "for_each (ask_one seller) nft_ids s = Inr t" and s': "s' = t\<lparr>ask_table := x\<rparr>"
    by (auto simp: nftokensale_def)
  have "market_frame s t"
    using 1 by (rule for_each_market) (auto simp: ask_one_def intro: lock_frames)
  then show ?thesis
    by (rule market_frame_trans) (simp add: s' market_frameI)
qed

lemma licencesale_frame:
  assumes "licencesale C E seller price nft_ids limit period lperiod s = Inr s'"
  shows "market_frame s s'"
proof -
  have "licence_sale_one C E seller price limit period lperiod i t = Inr t' \<Longrightarrow> market_frame t t'" for i t t'
    by (auto simp: licence_sale_one_def lock_if_free_def lock_nft_def intro!: market_frameI split: if_splits)
  then have "market_frame (send (Notify seller) s) s'"
    using assms by (auto simp: licencesale_def Let_def intro: for_each_market)
  then show ?thesis by (rule market_frame_trans [OF send_frame])
qed

lemma license_loop:
  assumes "license C E owner to nft_ids period relicense s = Inr s'"
  shows "for_each (\<lambda>nft_id s.
        check (dream_table s nft_id \<noteq> None) ''Asset id could not be found at the specified scope''
       (createlicence (call_depth E) C E nft_id owner to period relicense s)) nft_ids (send (Notify owner) s) = Inr s'"
proof -
  have loop: "for_each (\<lambda>t s. check (P t) e (check (Q t) e' (Inr s))) to u = Inr u' \<Longrightarrow> u' = u" for P Q e e' u u'
    by (induction to) auto
  from assms show ?thesis
    unfolding license_def Let_def by (auto dest: loop)
qed

lemma license_frame:
  assumes "license C E owner to nft_ids period relicense s = Inr s'"
  shows "market_frame s s'"
proof -
  have "market_frame (send (Notify owner) s) s'"
    using license_loop [OF assms] by (rule for_each_market) (auto intro: createlicence_frame)
  then show ?thesis by (rule market_frame_trans [OF send_frame])
qed

lemma extend_frame: "extend C E owner i period s = Inr s' \<Longrightarrow> market_frame s s'"
  by (auto simp: extend_def send_def intro!: market_frameI)

lemma revoke_frame:
  assumes "revoke E owner from ids s = Inr s'"
  shows "market_frame s s'"
proof -
  have "revoke_one E owner from i t = Inr t' \<Longrightarrow> market_frame t t'" for i t t'
    by (auto simp: revoke_one_def Let_def intro!: market_frameI split: if_splits)
  then have "market_frame (send (Notify owner) s) s'"
    using assms by (auto simp: revoke_def Let_def intro: for_each_market)
  then show ?thesis by (rule market_frame_trans [OF send_frame])
qed

lemma unlock_loop_frame: "for_each (unlock_nft e) ids s = Inr s' \<Longrightarrow> market_frame s s'"
  by (erule for_each_market) (rule lock_frames)

lemma endnftsale_frame:
  assumes "endnftsale E seller i s = Inr s'"
  shows "market_frame s s'"
proof -
  from assms obtain ids t x where "for_each (unlock_nft ''nft not found in lock table'') ids s = Inr t"
      "s' = t\<lparr>ask_table := x\<rparr>"
    by (auto simp: endnftsale_def)
  then show ?thesis
    using market_frame_trans [OF unlock_loop_frame market_frameI] by simp
qed

lemma endlcncsale_frame:
  assumes "endlcncsale E seller i s = Inr s'"
  shows "market_frame s s'"
proof -
  from assms obtain t x where "unlock_nft ''nft not found in lock table'' i s = Inr t"
      "s' = t\<lparr>sale_table := x\<rparr>"
    by (auto simp: endlcncsale_def)
  then show ?thesis
    using market_frame_trans [OF lock_frames(3) market_frameI] by simp
qed

lemma purchase_licence_frame:
  assumes "purchase_licence C E from to i q s = Inr s'"
  shows "market_frame s s'"
  using assms unfolding purchase_licence_def Let_def
proof (elim check_InrE bind_res_InrE, goal_cases)
  case (1 sale)
  then show ?case
    by (intro market_frame_trans [OF _ createlicence_frame [OF 1(5)]] market_frameI) (simp_all add: send_def)
qed

lemma linknfts_frame:
  assumes "linknfts E nft_ids link_to owner s = Inr s'"
  shows "market_frame s s'"
proof -
  from assms obtain parent t where p: "dream_table s link_to = Some parent"
    and 1: "for_each (link_one parent) nft_ids (send (Notify owner) s) = Inr t"
    and s': "s' = t\<lparr>dream_table := (dream_table t)(link_to \<mapsto>
        parent\<lparr>dr_children := dr_children parent @ nft_ids\<rparr>)\<rparr>"
    by (auto simp: linknfts_def Let_def send_def)
  have "market_frame (send (Notify owner) s) t \<and> dream_table t = dream_table s"
    using 1 by (rule for_each_inv) (auto simp: link_one_def send_def market_frame_def next_type_def
        next_nft_def split: if_splits)
  then show ?thesis using p by (auto simp: market_frame_def s' send_def next_type_def next_nft_def)
qed

lemma unlinknfts_frame:
  assumes "unlinknfts E nft_ids linked_to owner s = Inr s'"
  shows "market_frame s s'"
proof -
  from assms obtain parent t cs where p: "dream_table s linked_to = Some parent"
    and 1: "for_each unlink_one nft_ids (send (Notify owner) s, dr_children parent) = Inr (t, cs)"
    and s': "s' = t\<lparr>dream_table := (dream_table t)(linked_to \<mapsto> parent\<lparr>dr_children := cs\<rparr>)\<rparr>"
    by (auto simp: unlinknfts_def Let_def send_def)
  have "market_frame (send (Notify owner) s) (fst (t, cs)) \<and> dream_table (fst (t, cs)) = dream_table s"
    using 1 by (rule for_each_inv) (auto simp: unlink_one_def send_def market_frame_def next_type_def
        next_nft_def split: prod.splits)
  then show ?thesis using p by (auto simp: market_frame_def s' send_def next_type_def next_nft_def)
qed

section \<open>The price is paid out in full\<close>

definition fee_total :: "fee_map \<Rightarrow> int" where
  "fee_total m = sum_list (map (\<lambda>(k, a). amount a) m)"

lemma fee_insert_total:
  "fee_insert k v m = (m', inserted) \<Longrightarrow> fee_total m' = fee_total m + (if inserted then amount v else 0)"
  by (induction k v m arbitrary: m' inserted rule: fee_insert.induct)
    (auto simp: fee_total_def split: if_splits prod.splits)

lemma fee_insert_keys: "fee_insert k v m = (m', inserted) \<Longrightarrow> fst ` set m' = insert k (fst ` set m)"
proof (induction k v m arbitrary: m' inserted rule: fee_insert.induct)
  case (2 k v k' v' m)
  show ?case
  proof (cases "k = k' \<or> k < k'")
    case True
    with 2(2) show ?thesis by (auto split: if_splits)
  next
    case False
    then obtain m1 where m1: "fee_insert k v m = (m1, inserted)" "m' = (k', v') # m1"
      using 2(2) by (auto split: prod.splits)
    have "fst ` set m1 = insert k (fst ` set m)" using False 2(1) [OF _ _ m1(1)] by simp
    then show ?thesis by (simp add: m1(2) insert_commute)
  qed
qed auto

lemma fee_insert_sorted:
  "fee_insert k v m = (m', inserted) \<Longrightarrow> sorted_wrt (<) (map fst m) \<Longrightarrow> sorted_wrt (<) (map fst m')"
proof (induction k v m arbitrary: m' inserted rule: fee_insert.induct)
  case (2 k v k' v' m)
  show ?case
  proof (cases "k = k' \<or> k < k'")
    case True
    with 2(2,3) show ?thesis by (fastforce split: if_splits)
  next
    case False
    then obtain m1 where m1: "fee_insert k v m = (m1, inserted)" "m' = (k', v') # m1"
      using 2(2) by (auto split: prod.splits)
    have "sorted_wrt (<) (map fst m1)" using False 2(1) [OF _ _ m1(1)] 2(3) by auto
    moreover have "\<forall>x \<in> fst ` set m1. k' < x" using fee_insert_keys [OF m1(1)] False 2(3) by auto
    ultimately show ?thesis by (simp add: m1(2))
  qed
qed auto

lemma fee_add_keys: "fee_add C k v m = Inr m' \<Longrightarrow> map fst m' = map fst m"
  by (induction C k v m arbitrary: m' rule: fee_add.induct) (auto split: if_splits)

lemma fee_credit_cases:
  assumes "fee_credit C k v m = Inr m'"
  obtains "fee_insert k v m = (m', True)" | m1 where "fee_insert k v m = (m1, False)" "fee_add C k v m1 = Inr m'"
  using assms by (cases "fee_insert k v m") (auto simp: fee_credit_def split: if_splits)

lemma fee_credit_sorted:
  assumes "fee_credit C k v m = Inr m'" and "sorted_wrt (<) (map fst m)"
  shows "sorted_wrt (<) (map fst m')"
  using assms(1) by (rule fee_credit_cases) (metis assms(2) fee_insert_sorted fee_add_keys)+

context cdt_library
begin

lemma fee_add_total: "fee_add C k v m = Inr m' \<Longrightarrow> fee_total m' = fee_total m + amount v"
proof (induction m arbitrary: m')
  case (Cons p m)
  obtain k' v' where p: "p = (k', v')" by (cases p)
  from Cons show ?case
    by (cases "k = k'") (auto simp: p fee_total_def dest: asset_add_Inr)
qed simp

lemma fee_credit_total:
  assumes "fee_credit C k v m = Inr m'"
  shows "fee_total m' = fee_total m + amount v"
  using assms by (rule fee_credit_cases) (auto dest!: fee_insert_total fee_add_total)

lemma fee_step_total:
  assumes "fee_step C s n asked i (m, tot) = Inr (m', tot')"
  shows "fee_total m' - tot' = fee_total m - tot \<and>
    (sorted_wrt (<) (map fst m) \<longrightarrow> sorted_wrt (<) (map fst m'))"
proof -
  from assms have "(m', tot') = (m, tot) \<or>
      (\<exists>k a. fee_credit C k a m = Inr m' \<and> tot' = tot + amount a)"
    by (fastforce simp: fee_step_def Let_def split: if_splits option.splits)
  then show ?thesis by (auto dest: fee_credit_total fee_credit_sorted)
qed

lemma calcfees_total:
  assumes "calcfees C ids asked seller s = Inr m"
  shows "fee_total m = amount asked" and "sorted_wrt (<) (map fst m)"
proof -
  from assms obtain m1 tot a where 1: "for_each (fee_step C s (length ids) asked) ids ([], 0) = Inr (m1, tot)"
    and 2: "asset_ctor C (amount asked - tot) (sym asked) = Inr a" and 3: "fee_credit C seller a m1 = Inr m"
    by (auto simp: calcfees_def)
  have "fee_total (fst (m1, tot)) = snd (m1, tot) \<and> sorted_wrt (<) (map fst (fst (m1, tot)))"
    using 1 by (rule for_each_inv) (auto simp: fee_total_def [of "[]"] dest!: fee_step_total)
  then show "fee_total m = amount asked" "sorted_wrt (<) (map fst m)"
    using fee_credit_total [OF 3] asset_ctor_Inr [OF 2] fee_credit_sorted [OF 3] by auto
qed

end

text \<open>
  C25: Whenever the fees of a sale are computed, the amounts owed to the revenue partners and to
  the seller add up to exactly the asked amount, whatever the rounding of the floating-point
  fees, and no account is paid twice.
\<close>

theorem fees_sum_to_price:
  assumes "cdt_library C" and "calcfees C nft_ids asked seller s = Inr m"
  shows "(\<Sum>(account, a) \<leftarrow> m. amount a) = amount asked \<and> distinct (map fst m)"
  using cdt_library.calcfees_total [OF assms]
  by (auto simp: fee_total_def strict_sorted_iff)

lemma demo_fee:
  "d_div (d_mul (d_of_int 1000) (DFinite (1 / 8))) (d_of_int 1) = DFinite 125"
  "d_to_int64 (DFinite 125) = Some 125"
  by (simp add: d_of_int_exact to_double_exact [of 125, simplified] to_double_exact [of 1, simplified])
    (simp add: d_trunc_def in_int64_def)

lemma demo_fees:
  "calcfees chain_cdt [0] (demo_price 1000) 6 demo_state = Inr [(3, demo_price 125), (6, demo_price 875)]"
  by (simp add: calcfees_def fee_step_def table_get_def demo_state_sel demo_token_def demo_stats_def
      d_zero_def demo_fee demo_price_ctor demo_price_sel fee_credit_def del: d_to_int64.simps)

theorem fees_sum_to_price_witness:
  "\<exists>m. calcfees chain_cdt [0] (demo_price 1000) 6 demo_state = Inr m
    \<and> (\<Sum>(account, a) \<leftarrow> m. amount a) = 1000 \<and> distinct (map fst m)"
  using fees_sum_to_price [OF chain.cdt_library_axioms demo_fees] demo_fees by (simp add: demo_price_sel)

end
