(* ===== verification/Dreamoji_Ledger.thy ===== *)
theory Dreamoji_Ledger
  imports Dreamoji_Market
begin

text \<open>
  The balances and supplies of the contract: what every private method and every action does
  to the sum of the balances of a token type, under the laws of the toolkit.
\<close>

definition balance_sum :: "dreamoji \<Rightarrow> u64 \<Rightarrow> int" where
  "balance_sum s i =
     table_sum (account_table s) (\<lambda>(ow, j) ac. if j = i then amount (ac_amount ac) else 0)"

text \<open>
  A balance is positive and belongs to a token type that exists, the one whose number is the
  key of the row.
\<close>

definition accounts_ok :: "dreamoji \<Rightarrow> bool" where
  "accounts_ok s \<longleftrightarrow> finite (dom (account_table s)) \<and>
     (\<forall>ow i ac. account_table s (ow, i) = Some ac \<longrightarrow> 0 < amount (ac_amount ac) \<and>
        (\<exists>st. stats_table s (ac_category ac, ac_token_name ac) = Some st \<and> st_category_name_id st = i))"

text \<open>The types are numbered apart, below the counter, and each supply is the sum of its balances.\<close>

definition types_ok :: "dreamoji \<Rightarrow> bool" where
  "types_ok s \<longleftrightarrow>
     (\<forall>k st. stats_table s k = Some st \<longrightarrow>
        (\<exists>cfg. config_table s = Some cfg \<and> st_category_name_id st < cfg_category_name_id cfg)) \<and>
     (\<forall>k k' st st'. stats_table s k = Some st \<longrightarrow> stats_table s k' = Some st' \<longrightarrow>
        st_category_name_id st = st_category_name_id st' \<longrightarrow> k = k')"

definition supplies_ok :: "dreamoji \<Rightarrow> bool" where
  "supplies_ok s \<longleftrightarrow>
     (\<forall>k st. stats_table s k = Some st \<longrightarrow>
        amount (st_current_supply st) = balance_sum s (st_category_name_id st))"

definition ledger_ok :: "dreamoji \<Rightarrow> bool" where
  "ledger_ok s \<longleftrightarrow> accounts_ok s \<and> types_ok s \<and> supplies_ok s"

definition type_id :: "dreamoji \<Rightarrow> name \<times> name \<Rightarrow> u64 option" where
  "type_id s k = map_option st_category_name_id (stats_table s k)"

lemma types_ok_iff:
  "types_ok s \<longleftrightarrow> (\<forall>k i. type_id s k = Some i \<longrightarrow> (\<exists>n. next_type s = Some n \<and> i < n)) \<and>
     (\<forall>k k' i. type_id s k = Some i \<longrightarrow> type_id s k' = Some i \<longrightarrow> k = k')"
  unfolding types_ok_def type_id_def next_type_def
  by (simp del: split_paired_All) blast

lemma types_ok_inj: "types_ok s \<Longrightarrow> type_id s x = Some i \<Longrightarrow> type_id s y = Some i \<Longrightarrow> x = y"
  unfolding types_ok_iff by blast

lemma types_ok_cong: "type_id s' = type_id s \<Longrightarrow> next_type s' = next_type s \<Longrightarrow> types_ok s' = types_ok s"
  by (simp only: types_ok_iff)

lemma ledger_cong:
  assumes "account_table s' = account_table s" and "stats_table s' = stats_table s"
    and "map_option cfg_category_name_id (config_table s') = map_option cfg_category_name_id (config_table s)"
  shows "accounts_ok s' = accounts_ok s" "balance_sum s' i = balance_sum s i"
    "types_ok s' = types_ok s" "supplies_ok s' = supplies_ok s" "ledger_ok s' = ledger_ok s"
proof -
  show a: "accounts_ok s' = accounts_ok s"
    using assms by (simp add: accounts_ok_def)
  have b: "balance_sum s' j = balance_sum s j" for j
    using assms by (simp add: balance_sum_def)
  then show "balance_sum s' i = balance_sum s i" by blast
  show c: "types_ok s' = types_ok s"
    using assms by (intro types_ok_cong) (auto simp: type_id_def next_type_def)
  show d: "supplies_ok s' = supplies_ok s"
    using assms b by (simp add: supplies_ok_def)
  show "ledger_ok s' = ledger_ok s"
    using a c d by (simp add: ledger_ok_def)
qed

lemma ledger_okD:
  assumes "ledger_ok s"
  shows "accounts_ok s" "types_ok s"
    "stats_table s k = Some st \<Longrightarrow> amount (st_current_supply st) = balance_sum s (st_category_name_id st)"
  using assms unfolding ledger_ok_def supplies_ok_def by blast+

lemma balance_nonneg:
  assumes "accounts_ok s" and "k \<in> dom (account_table s)"
  shows "0 \<le> (case k of (ow, j) \<Rightarrow> if j = i then amount (ac_amount (the (account_table s k))) else 0)"
proof -
  obtain ow j ac where "k = (ow, j)" "account_table s (ow, j) = Some ac"
    using assms(2) by (cases k) auto
  moreover from this assms(1) have "0 < amount (ac_amount ac)" unfolding accounts_ok_def by blast
  ultimately show ?thesis by auto
qed

lemma balance_le_sum:
  assumes "accounts_ok s" and "account_table s (ow, i) = Some ac"
  shows "amount (ac_amount ac) \<le> balance_sum s i"
proof -
  have "amount (ac_amount ac) = (\<Sum>k \<in> {(ow, i)}. case k of (ow, j) \<Rightarrow>
      if j = i then amount (ac_amount (the (account_table s k))) else 0)"
    using assms(2) by simp
  also have "\<dots> \<le> (\<Sum>k \<in> dom (account_table s). case k of (ow, j) \<Rightarrow>
      if j = i then amount (ac_amount (the (account_table s k))) else 0)"
    using assms balance_nonneg [OF assms(1)] by (intro sum_mono2) (auto simp: accounts_ok_def)
  finally show ?thesis
    by (simp add: balance_sum_def table_sum_def split_def)
qed

lemma balance_sum_nonneg: "accounts_ok s \<Longrightarrow> 0 \<le> balance_sum s i"
  unfolding balance_sum_def table_sum_def
  by (rule sum_nonneg) (use balance_nonneg [of s _ i] in \<open>auto simp: split_def\<close>)

lemma no_balance:
  assumes "accounts_ok s" and "balance_sum s i = 0"
  shows "account_table s (ow, i) = None"
proof (rule ccontr)
  assume "account_table s (ow, i) \<noteq> None"
  then obtain ac where ac: "account_table s (ow, i) = Some ac" by auto
  with assms(1) have "0 < amount (ac_amount ac)" by (auto simp: accounts_ok_def)
  with balance_le_sum [OF assms(1) ac] assms(2) show False by simp
qed

lemma untyped_balance:
  assumes "\<And>ow ac. account_table s (ow, i) \<noteq> Some ac"
  shows "balance_sum s i = 0"
  unfolding balance_sum_def by (rule table_sum_zero) (use assms in \<open>auto split: prod.splits\<close>)

section \<open>Steps that keep every balance sum\<close>

definition keeps_ledger :: "dreamoji \<Rightarrow> dreamoji \<Rightarrow> bool" where
  "keeps_ledger s s' \<longleftrightarrow>
     (accounts_ok s \<longrightarrow> accounts_ok s' \<and> (\<forall>j. balance_sum s' j = balance_sum s j)) \<and>
     stats_table s' = stats_table s \<and>
     map_option cfg_category_name_id (config_table s') = map_option cfg_category_name_id (config_table s)"

lemma keeps_ledger_refl [intro!, simp]: "keeps_ledger s s"
  by (simp add: keeps_ledger_def)

lemma keeps_ledger_trans [trans]: "keeps_ledger s t \<Longrightarrow> keeps_ledger t u \<Longrightarrow> keeps_ledger s u"
  by (auto simp: keeps_ledger_def)

lemma keeps_ledgerI:
  assumes "account_table s' = account_table s" and "stats_table s' = stats_table s"
    and "map_option cfg_category_name_id (config_table s') = map_option cfg_category_name_id (config_table s)"
  shows "keeps_ledger s s'"
  using assms ledger_cong [OF assms] by (simp add: keeps_ledger_def)

lemma keeps_ledger_ok: "keeps_ledger s s' \<Longrightarrow> ledger_ok s \<Longrightarrow> ledger_ok s'"
  using types_ok_cong [of s' s]
  by (auto simp: keeps_ledger_def ledger_ok_def supplies_ok_def type_id_def [abs_def] next_type_def)

lemmas for_each_keeps = for_each_rel [where R = keeps_ledger, OF _ keeps_ledger_refl keeps_ledger_trans]

text \<open>Changing the row of one type, keeping its number.\<close>

lemma ledger_stats_upd:
  assumes "accounts_ok s" and "types_ok s" and k: "stats_table s k = Some st"
    and id: "st_category_name_id st' = st_category_name_id st"
    and "\<And>k' st. k' \<noteq> k \<Longrightarrow> stats_table s k' = Some st \<Longrightarrow>
      amount (st_current_supply st) = balance_sum s (st_category_name_id st)"
    and "amount (st_current_supply st') = balance_sum s (st_category_name_id st)"
  shows "ledger_ok (s\<lparr>stats_table := (stats_table s)(k \<mapsto> st')\<rparr>)"
proof -
  let ?s = "s\<lparr>stats_table := (stats_table s)(k \<mapsto> st')\<rparr>"
  have "balance_sum ?s j = balance_sum s j" for j by (simp add: balance_sum_def)
  moreover have "accounts_ok ?s"
    using assms(1) k id by (fastforce simp: accounts_ok_def)
  moreover have "types_ok ?s"
    using assms(2) k id by (subst types_ok_cong [of _ s]) (auto simp: type_id_def next_type_def)
  ultimately show ?thesis
    using assms(5,6) id by (auto simp: ledger_ok_def supplies_ok_def)
qed

lemma ledger_stats_erase:
  assumes a: "accounts_ok s" and "types_ok s" and k: "stats_table s k = Some st"
    and none: "balance_sum s (st_category_name_id st) = 0"
    and "\<And>k' st. k' \<noteq> k \<Longrightarrow> stats_table s k' = Some st \<Longrightarrow>
      amount (st_current_supply st) = balance_sum s (st_category_name_id st)"
  shows "ledger_ok (s\<lparr>stats_table := (stats_table s)(k := None)\<rparr>)"
proof -
  let ?s = "s\<lparr>stats_table := (stats_table s)(k := None)\<rparr>"
  have "balance_sum ?s j = balance_sum s j" for j by (simp add: balance_sum_def)
  moreover have "accounts_ok ?s"
    unfolding accounts_ok_def
  proof (intro conjI allI impI)
    show "finite (dom (account_table ?s))" using a by (simp add: accounts_ok_def)
    fix ow i ac assume "account_table ?s (ow, i) = Some ac"
    then have ac: "account_table s (ow, i) = Some ac" by simp
    then show "0 < amount (ac_amount ac)" using a unfolding accounts_ok_def by blast
    obtain st' where st': "stats_table s (ac_category ac, ac_token_name ac) = Some st'"
        "st_category_name_id st' = i"
      using a ac unfolding accounts_ok_def by blast
    have "(ac_category ac, ac_token_name ac) \<noteq> k"
    proof
      assume "(ac_category ac, ac_token_name ac) = k"
      with st' k ac no_balance [OF a none, of ow] show False by simp
    qed
    with st' show "\<exists>st. stats_table ?s (ac_category ac, ac_token_name ac) = Some st \<and> st_category_name_id st = i"
      by simp
  qed
  moreover have "types_ok ?s"
  proof -
    have "type_id ?s x = Some i \<Longrightarrow> type_id s x = Some i" for x i
      by (simp add: type_id_def split: if_splits)
    moreover have "next_type ?s = next_type s" by (simp add: next_type_def)
    ultimately show ?thesis using assms(2) unfolding types_ok_iff by metis
  qed
  ultimately show ?thesis
    using assms(5) unfolding ledger_ok_def supplies_ok_def by (simp del: split_paired_All)
qed

context cdt_library
begin

lemma add_balance_ledger:
  assumes "add_balance C ow category token_name i q s = Inr s'" and "accounts_ok s"
    and "stats_table s (category, token_name) = Some st" and "st_category_name_id st = i"
    and "0 < amount q"
  shows "accounts_ok s'" and "balance_sum s' j = balance_sum s j + (if j = i then amount q else 0)"
proof -
  have fin: "finite (dom (account_table s))" using assms(2) by (simp add: accounts_ok_def)
  have "accounts_ok s' \<and> balance_sum s' j = balance_sum s j + (if j = i then amount q else 0)"
  proof (cases "account_table s (ow, i)")
    case None
    with assms show ?thesis
      by (auto simp: add_balance_def accounts_ok_def balance_sum_def table_sum_upd [OF fin] split: if_splits)
  next
    case (Some ac)
    with assms obtain a where a: "asset_add C (ac_amount ac) q = Inr a"
        "s' = s\<lparr>account_table := (account_table s)((ow, i) \<mapsto> ac\<lparr>ac_amount := a\<rparr>)\<rparr>"
      by (auto simp: add_balance_def)
    moreover have "amount a = amount (ac_amount ac) + amount q"
      using asset_add_Inr [OF a(1)] by simp
    moreover have "0 < amount (ac_amount ac)"
      using assms(2) Some unfolding accounts_ok_def by blast
    then have "0 < amount (ac_amount ac) + amount q" using assms(5) by simp
    ultimately show ?thesis
      using Some assms by (auto simp: accounts_ok_def balance_sum_def table_sum_upd [OF fin] split: if_splits)
  qed
  then show "accounts_ok s'" and "balance_sum s' j = balance_sum s j + (if j = i then amount q else 0)"
    by auto
qed

lemma sub_balance_ledger:
  assumes "sub_balance C ow i q s = Inr s'" and "accounts_ok s"
  shows "accounts_ok s'" and "balance_sum s' j = balance_sum s j - (if j = i then amount q else 0)"
proof -
  have fin: "finite (dom (account_table s))" using assms(2) by (simp add: accounts_ok_def)
  from assms(1) obtain ac where ac: "account_table s (ow, i) = Some ac" "amount q \<le> amount (ac_amount ac)"
      "(if amount (ac_amount ac) = amount q
        then Inr (s\<lparr>account_table := table_erase (account_table s) (ow, i)\<rparr>)
        else bind_res (asset_sub C (ac_amount ac) q) (\<lambda>a.
          Inr (s\<lparr>account_table := (account_table s)((ow, i) \<mapsto> ac\<lparr>ac_amount := a\<rparr>)\<rparr>))) = Inr s'"
    by (auto simp: sub_balance_def)
  have "accounts_ok s' \<and> balance_sum s' j = balance_sum s j - (if j = i then amount q else 0)"
  proof (cases "amount (ac_amount ac) = amount q")
    case True
    with ac assms(2) show ?thesis
      by (auto simp: accounts_ok_def balance_sum_def table_sum_erase [OF fin ac(1)] split: if_splits)
  next
    case False
    with ac(3) obtain a where a: "asset_sub C (ac_amount ac) q = Inr a"
        "s' = s\<lparr>account_table := (account_table s)((ow, i) \<mapsto> ac\<lparr>ac_amount := a\<rparr>)\<rparr>"
      by auto
    moreover have "amount a = amount (ac_amount ac) - amount q"
      using asset_sub_Inr [OF a(1)] by simp
    ultimately show ?thesis
      using ac False assms(2) by (auto simp: accounts_ok_def balance_sum_def table_sum_upd [OF fin] split: if_splits)
  qed
  then show "accounts_ok s'" and "balance_sum s' j = balance_sum s j - (if j = i then amount q else 0)"
    by auto
qed


lemma move_token_keeps:
  assumes "move_token C from to st token nft_id s = Inr s'"
    and "stats_table s (dr_category token, dr_token_name token) = Some st"
  shows "keeps_ledger s s'"
proof -
  define s1 where "s1 = s\<lparr>outbox := outbox s @ [Notify from, Notify to],
      dream_table := (dream_table s)(nft_id \<mapsto> token\<lparr>dr_owner := to\<rparr>)\<rparr>"
  have 0: "accounts_ok s1 = accounts_ok s" "balance_sum s1 j = balance_sum s j"
    "stats_table s1 = stats_table s" "config_table s1 = config_table s" for j
    by (simp_all add: s1_def accounts_ok_def balance_sum_def)
  from assms(1) obtain q s2 where q: "asset_ctor C 1 (sym (st_max_supply st)) = Inr q"
    and 1: "sub_balance C from (st_category_name_id st) q s1 = Inr s2"
    and 2: "add_balance C to (dr_category token) (dr_token_name token) (st_category_name_id st) q s2 = Inr s'"
    by (auto simp: move_token_def Let_def send_def s1_def)
  have "amount q = 1" using asset_ctor_Inr [OF q] by simp
  moreover obtain t where t: "s2 = s1\<lparr>account_table := t\<rparr>" using 1 by (rule sub_balance_frame)
  moreover obtain t' where "s' = s2\<lparr>account_table := t'\<rparr>" using 2 by (rule add_balance_frame)
  ultimately show ?thesis
    using sub_balance_ledger [OF 1] add_balance_ledger [OF 2, of st] assms(2) 0
    by (auto simp: keeps_ledger_def)
qed

lemma changeowner_keeps: "changeowner depth C from to istransfer nft_ids s = Inr s' \<Longrightarrow> keeps_ledger s s'"
  by (erule changeowner_rel [where R = keeps_ledger])
    (auto intro: keeps_ledger_trans dest: move_token_keeps)

lemma mint_frame:
  assumes "mint to category token_name issued uri s = Inr s'"
  shows "account_table s' = account_table s" "stats_table s' = stats_table s"
    "map_option cfg_category_name_id (config_table s') = map_option cfg_category_name_id (config_table s)"
  using assms by (auto simp: mint_def nextnftid_def send_def split: option.splits)

lemma mint_loop_frame:
  assumes "mint_loop C to category token_name uri one n issued s = Inr s'"
  shows "account_table s' = account_table s \<and> stats_table s' = stats_table s \<and>
    map_option cfg_category_name_id (config_table s') = map_option cfg_category_name_id (config_table s)"
  using assms
proof (induction n arbitrary: s issued)
  case (Suc n)
  from Suc.prems obtain t issued' where "mint to category token_name issued uri s = Inr t"
      "mint_loop C to category token_name uri one n issued' t = Inr s'" by auto
  with mint_frame [OF this(1)] Suc.IH [OF this(2)] show ?case by simp
qed simp


section \<open>Actions on tokens\<close>

lemma mint_units_frame:
  assumes "mint_units C to category token_name q uri st s = Inr s'"
  shows "account_table s' = account_table s" "stats_table s' = stats_table s" "next_type s' = next_type s"
  using assms by (auto simp: mint_units_def next_type_def dest: mint_loop_frame split: if_splits)

lemma issue_ledger:
  assumes "issue C E to category token_name q uri memo s = Inr s'" and ok: "ledger_ok s"
  shows "ledger_ok s'"
  using assms(1)
proof (rule issue_cases)
  fix st s1 s2 cur iss
  let ?k = "(category, token_name)"
  assume st: "stats_table s ?k = Some st" and q: "0 < amount q"
    and 1: "mint_units C to category token_name q uri st s = Inr s1"
    and 2: "add_balance C to category token_name (st_category_name_id st) q s1 = Inr s2"
    and 3: "asset_add C (st_current_supply st) q = Inr cur"
    and s': "s' = s2\<lparr>stats_table := (stats_table s2)(?k \<mapsto>
        st\<lparr>st_current_supply := cur, st_issued_supply := iss\<rparr>)\<rparr>"
  note f = mint_units_frame [OF 1] and c = ledger_cong [OF mint_units_frame [OF 1, unfolded next_type_def]]
  obtain t where t: "s2 = s1\<lparr>account_table := t\<rparr>" using 2 by (rule add_balance_frame)
  have a: "accounts_ok s2"
    and b: "balance_sum s2 j = balance_sum s j + (if j = st_category_name_id st then amount q else 0)" for j
    using add_balance_ledger [OF 2, of st] st q ok f c by (auto simp: ledger_ok_def)
  have ty: "types_ok s2"
    using ok t f c(3) types_ok_cong [of s2 s1] by (simp add: ledger_ok_def type_id_def [abs_def] next_type_def)
  show ?thesis unfolding s'
  proof (rule ledger_stats_upd [OF a ty])
    show k: "stats_table s2 ?k = Some st" using st t f by simp
    fix k' st' assume *: "k' \<noteq> ?k" "stats_table s2 k' = Some st'"
    then have "st_category_name_id st' \<noteq> st_category_name_id st"
      using ty k unfolding types_ok_def by blast
    then show "amount (st_current_supply st') = balance_sum s2 (st_category_name_id st')"
      using * t f b ledger_okD(3) [OF ok, of k' st'] by simp
  next
    show "amount (st_current_supply (st\<lparr>st_current_supply := cur, st_issued_supply := iss\<rparr>))
        = balance_sum s2 (st_category_name_id st)"
      using asset_add_Inr [OF 3] ledger_okD(3) [OF ok st] b by simp
  qed simp
qed

lemma burnft_ledger:
  assumes "burnft C E owner i q s = Inr s'" and ok: "ledger_ok s"
  shows "ledger_ok s'"
  using assms(1)
proof (rule burnft_cases)
  fix acct :: accounts and st s1 cur
  let ?k = "(ac_category acct, ac_token_name acct)"
  assume acct: "account_table s (owner, i) = Some acct" and st: "stats_table s ?k = Some st"
    and 1: "sub_balance C owner i q s = Inr s1" and 2: "asset_sub C (st_current_supply st) q = Inr cur"
    and s': "s' = s1\<lparr>stats_table := (stats_table s1)(?k \<mapsto> st\<lparr>st_current_supply := cur\<rparr>)\<rparr>"
  have i: "st_category_name_id st = i"
    using ok acct st unfolding ledger_ok_def accounts_ok_def by fastforce
  obtain t where t: "s1 = s\<lparr>account_table := t\<rparr>" using 1 by (rule sub_balance_frame)
  have a: "accounts_ok s1"
    and b: "balance_sum s1 j = balance_sum s j - (if j = i then amount q else 0)" for j
    using sub_balance_ledger [OF 1] ok by (auto simp: ledger_ok_def)
  have ty: "types_ok s1"
    using ok t types_ok_cong [of s1 s] by (simp add: ledger_ok_def type_id_def [abs_def] next_type_def)
  show ?thesis unfolding s'
  proof (rule ledger_stats_upd [OF a ty])
    show k: "stats_table s1 ?k = Some st" using st t by simp
    fix k' st' assume *: "k' \<noteq> ?k" "stats_table s1 k' = Some st'"
    then have "st_category_name_id st' \<noteq> st_category_name_id st"
      using ty k unfolding types_ok_def by blast
    then show "amount (st_current_supply st') = balance_sum s1 (st_category_name_id st')"
      using * t b i ledger_okD(3) [OF ok, of k' st'] by simp
  next
    show "amount (st_current_supply (st\<lparr>st_current_supply := cur\<rparr>)) = balance_sum s1 (st_category_name_id st)"
      using asset_sub_Inr [OF 2] ledger_okD(3) [OF ok st] b i by simp
  qed simp
qed


lemma sub_balance_stats:
  assumes "sub_balance C ow i q (s\<lparr>stats_table := T\<rparr>) = Inr s1"
  obtains s0 where "sub_balance C ow i q s = Inr s0" "s1 = s0\<lparr>stats_table := T\<rparr>"
  using assms by (auto simp: sub_balance_def split: if_splits)

lemma burn_token_ledger:
  assumes "burn_token C E owner nft_id s = Inr s'" and ok: "ledger_ok s" and stale: "\<And>i. stale E i = i"
  shows "ledger_ok s'"
  using assms(1)
proof (rule burn_token_cases)
  fix token :: dreams and st q cur iss burned s1
  let ?k = "(dr_category token, dr_token_name token)"
  let ?T = "(stats_table s)(?k := if asset_equal C cur burned then None
          else Some (st\<lparr>st_current_supply := cur, st_issued_supply := iss\<rparr>))"
  assume st: "stats_table s ?k = Some st"
    and q: "asset_ctor C 1 (sym (st_max_supply st)) = Inr q"
    and 1: "asset_sub C (st_current_supply st) q = Inr cur"
    and 2: "asset_ctor C 0 (sym (st_max_supply st)) = Inr burned"
    and 3: "sub_balance C owner
       (if asset_equal C cur burned then stale E (st_category_name_id st) else st_category_name_id st) q
       (s\<lparr>stats_table := ?T\<rparr>) = Inr s1"
    and s': "s' = s1\<lparr>dream_table := table_erase (dream_table s1) nft_id\<rparr>"
  from 3 obtain s0 where 4: "sub_balance C owner (st_category_name_id st) q s = Inr s0"
    and s1: "s1 = s0\<lparr>stats_table := ?T\<rparr>"
    unfolding stale if_cancel by (rule sub_balance_stats)
  obtain t where t: "s0 = s\<lparr>account_table := t\<rparr>" using 4 by (rule sub_balance_frame)
  have a: "accounts_ok s0"
    and b: "balance_sum s0 j = balance_sum s j - (if j = st_category_name_id st then amount q else 0)" for j
    using sub_balance_ledger [OF 4] ok by (auto simp: ledger_ok_def)
  have ty: "types_ok s0"
    using ok t types_ok_cong [of s0 s] by (simp add: ledger_ok_def type_id_def [abs_def] next_type_def)
  have k: "stats_table s0 ?k = Some st" using st t by simp
  have cur: "amount cur = balance_sum s0 (st_category_name_id st)"
    using asset_sub_Inr [OF 1] ledger_okD(3) [OF ok st] b by simp
  have other: "amount (st_current_supply st') = balance_sum s0 (st_category_name_id st')"
    if "k' \<noteq> ?k" "stats_table s0 k' = Some st'" for k' st'
  proof -
    have "st_category_name_id st' \<noteq> st_category_name_id st"
      using that ty k unfolding types_ok_def by blast
    then show ?thesis using that t b ledger_okD(3) [OF ok, of k' st'] by simp
  qed
  have "ledger_ok (s0\<lparr>stats_table := ?T\<rparr>)"
  proof (cases "asset_equal C cur burned")
    case True
    then have "amount cur = 0" using asset_ctor_Inr [OF 2] by (simp add: asset_equal_iff)
    then show ?thesis
      using True ledger_stats_erase [OF a ty k _ other] cur t by simp
  next
    case False
    then show ?thesis
      using ledger_stats_upd [OF a ty k _ other, of "st\<lparr>st_current_supply := cur, st_issued_supply := iss\<rparr>"] cur t
      by simp
  qed
  then show ?thesis
    unfolding s' s1 by (subst ledger_cong(5) [of _ "s0\<lparr>stats_table := ?T\<rparr>"]) simp_all
qed


lemma burnnft_ledger:
  assumes "burnnft C E owner nft_ids s = Inr s'" and "ledger_ok s" and "\<And>i. stale E i = i"
  shows "ledger_ok s'"
proof -
  from assms(1) have "for_each (burn_token C E owner) nft_ids s = Inr s'"
    by (auto simp: burnnft_def)
  then show ?thesis
    using assms(2) by (rule for_each_inv) (rule burn_token_ledger [OF _ _ assms(3)])
qed

lemma create_ledger:
  assumes "create C E issuer rev_partner category token_name fungible burnable sellable transferable
     rev_split base_uri max_issue_days max_supply s = Inr s'" and ok: "ledger_ok s"
    and room: "next_type s \<noteq> Some (- 1)"
  shows "ledger_ok s'"
  using assms(1)
proof (rule create_cases)
  fix cfg :: tokenconfigs and sy cur iss window cats
  let ?k = "(category, token_name)"
  let ?st = "\<lparr>st_fungible = fungible, st_burnable = burnable, st_sellable = sellable,
     st_transferable = transferable, st_issuer = issuer, st_rev_partner = rev_partner,
     st_token_name = token_name, st_category_name_id = cfg_category_name_id cfg,
     st_max_supply = max_supply, st_max_issue_window = window,
     st_current_supply = cur, st_issued_supply = iss,
     st_rev_split = rev_split, st_base_uri = base_uri\<rparr>"
  assume cfg: "config_table s = Some cfg" and k: "stats_table s ?k = None"
    and cur: "asset_ctor C 0 sy = Inr cur"
    and s': "s' = s\<lparr>outbox := outbox s @ [Notify issuer], category_table := cats,
       stats_table := (stats_table s)(?k \<mapsto> ?st),
       config_table := Some (cfg\<lparr>cfg_category_name_id := cfg_category_name_id cfg + 1\<rparr>)\<rparr>"
  let ?n = "cfg_category_name_id cfg"
  have n: "?n < ?n + 1" using room cfg by (intro less_plus_1) (auto simp: next_type_def)
  have old: "i < ?n" if "type_id s k = Some i" for k i
    using ok that cfg unfolding ledger_ok_def types_ok_iff next_type_def by fastforce
  have no_acc: "account_table s (ow, ?n) \<noteq> Some ac" for ow ac
    using ledger_okD(1) [OF ok] old by (fastforce simp: accounts_ok_def type_id_def)
  have b: "balance_sum s' j = balance_sum s j" for j by (simp add: s' balance_sum_def)
  have "accounts_ok s'"
    using ledger_okD(1) [OF ok] k by (fastforce simp: accounts_ok_def s')
  moreover have "types_ok s'"
    unfolding types_ok_iff
  proof (intro conjI allI impI)
    have ty: "type_id s' x = (if x = ?k then Some ?n else type_id s x)" for x
      by (simp add: s' type_id_def)
    have nx: "next_type s' = Some (?n + 1)" by (simp add: s' next_type_def)
    show "\<exists>m. next_type s' = Some m \<and> i < m" if "type_id s' x = Some i" for x i
      using that old [of x i] n by (auto simp: ty nx split: if_splits)
    show "x = y" if "type_id s' x = Some i" "type_id s' y = Some i" for x y i
      using that old [of x i] old [of y i] types_ok_inj [OF ledger_okD(2) [OF ok], of x i y]
      by (simp add: ty split: if_splits)
  qed
  moreover have "supplies_ok s'"
    unfolding supplies_ok_def
  proof (intro allI impI)
    fix x st assume x: "stats_table s' x = Some st"
    show "amount (st_current_supply st) = balance_sum s' (st_category_name_id st)"
    proof (cases "x = ?k")
      case True
      then show ?thesis
        using x asset_ctor_Inr [OF cur] untyped_balance [OF no_acc] b by (auto simp: s')
    next
      case False
      then show ?thesis using x ledger_okD(3) [OF ok, of x st] b by (simp add: s')
    qed
  qed
  ultimately show ?thesis by (simp add: ledger_ok_def)
qed

lemma instantiate_ledger:
  assumes "instantiate C E sy version s = Inr s'" and ok: "ledger_ok s"
  shows "ledger_ok s'"
proof (cases "config_table s")
  case None
  then have "stats_table s k = None" for k
    using ledger_okD(2) [OF ok] unfolding types_ok_def by (cases "stats_table s k") fastforce+
  with assms show ?thesis
    by (auto simp: instantiate_def Let_def ledger_ok_def accounts_ok_def types_ok_def supplies_ok_def)
next
  case (Some cfg)
  with assms have "keeps_ledger s s'" by (auto simp: instantiate_def Let_def intro: keeps_ledgerI)
  with ok show ?thesis by (blast intro: keeps_ledger_ok)
qed

lemma freezemaxsup_ledger:
  assumes "freezemaxsup E category token_name s = Inr s'" and ok: "ledger_ok s"
  shows "ledger_ok s'"
proof -
  from assms(1) obtain st where st: "stats_table s (category, token_name) = Some st"
    and s': "s' = s\<lparr>stats_table := (stats_table s)((category, token_name) \<mapsto>
        st\<lparr>st_max_supply := st_issued_supply st, st_max_issue_window := 0\<rparr>)\<rparr>"
    by (auto simp: freezemaxsup_def)
  show ?thesis unfolding s'
    using ledger_okD [OF ok] st by (intro ledger_stats_upd [of _ _ st]) auto
qed

lemma transfernft_keeps: "transfernft C E from to nft_ids s = Inr s' \<Longrightarrow> keeps_ledger s s'"
  by (erule transfernft_cases) (rule changeowner_keeps)

lemma transferft_keeps:
  assumes "transferft C E from to category token_name q memo s = Inr s'"
  shows "keeps_ledger s s'"
proof -
  let ?s = "send (Notify to) (send (Notify from) s)"
  from assms obtain st s1 where st: "stats_table s (category, token_name) = Some st" and q: "0 < amount q"
    and 1: "sub_balance C from (st_category_name_id st) q ?s = Inr s1"
    and 2: "add_balance C to category token_name (st_category_name_id st) q s1 = Inr s'"
    unfolding transferft_def Let_def
    by (elim check_InrE bind_res_InrE) (simp add: checkasset_positive send_def)
  have 0: "accounts_ok ?s = accounts_ok s" "balance_sum ?s j = balance_sum s j" for j
    by (simp_all add: send_def accounts_ok_def balance_sum_def)
  obtain t where t: "s1 = ?s\<lparr>account_table := t\<rparr>" using 1 by (rule sub_balance_frame)
  moreover obtain t' where "s' = s1\<lparr>account_table := t'\<rparr>" using 2 by (rule add_balance_frame)
  ultimately show ?thesis
    using sub_balance_ledger [OF 1] add_balance_ledger [OF 2, of st] st q 0
    by (auto simp: keeps_ledger_def send_def)
qed

end

end
