(* ===== verification/Dreamoji_Machine.thy ===== *)
theory Dreamoji_Machine
  imports Dreamoji_Ledger
begin

text \<open>
  The contract as a state machine: the dispatcher \<open>apply\<close> (\<open>NFT-Contracts/src/dreamoji.cpp\<close>,
  lines 974 to 996), sequences of actions under arbitrary environments, and the invariants of
  every reachable state.
\<close>

section \<open>The dispatcher\<close>

text \<open>An action is its name with its arguments; \<open>Other\<close> is any action with a name the dispatcher does not list.\<close>

datatype action =
    Instantiate symbol_code string
  | Create name name name name bool bool bool bool double string u32 asset
  | Issue name name name asset string string
  | Freezemaxsup name name
  | Burnnft name "u64 list"
  | Burnft name u64 asset
  | Transfernft name name "u64 list"
  | Transferft name name name name asset string
  | Nftokensale name "u64 list" asset u64
  | Licencesale name asset "u64 list" u16 u64 u64
  | License name "name list" "u64 list" u64 bool
  | Extend name u64 u64
  | Revoke name "name list" "u64 list"
  | Endnftsale name u64
  | Endlcncsale name u64
  | Linknfts "u64 list" u64 name
  | Unlinknfts "u64 list" u64 name
  | Logcall u64
  | Logsale "u64 list" name name name
  | Loglicense u64
  | Transfer name name asset string
  | Other name

primrec execute :: "cdt \<Rightarrow> env \<Rightarrow> action \<Rightarrow> dreamoji \<Rightarrow> dreamoji run" where
  "execute C E (Instantiate sy version) s = instantiate C E sy version s"
| "execute C E (Create issuer partner cat tok fungible burnable sellable transferable split uri days supply) s =
     create C E issuer partner cat tok fungible burnable sellable transferable split uri days supply s"
| "execute C E (Issue to cat tok quantity uri memo) s = issue C E to cat tok quantity uri memo s"
| "execute C E (Freezemaxsup cat tok) s = freezemaxsup E cat tok s"
| "execute C E (Burnnft owner ids) s = burnnft C E owner ids s"
| "execute C E (Burnft owner i quantity) s = burnft C E owner i quantity s"
| "execute C E (Transfernft from to ids) s = transfernft C E from to ids s"
| "execute C E (Transferft from to cat tok quantity memo) s = transferft C E from to cat tok quantity memo s"
| "execute C E (Nftokensale seller ids price period) s = nftokensale C E seller ids price period s"
| "execute C E (Licencesale seller price ids limit period lperiod) s =
     licencesale C E seller price ids limit period lperiod s"
| "execute C E (License owner to ids period relicense) s = license C E owner to ids period relicense s"
| "execute C E (Extend owner i period) s = extend C E owner i period s"
| "execute C E (Revoke owner from ids) s = revoke E owner from ids s"
| "execute C E (Endnftsale seller i) s = endnftsale E seller i s"
| "execute C E (Endlcncsale seller i) s = endlcncsale E seller i s"
| "execute C E (Linknfts ids to owner) s = linknfts E ids to owner s"
| "execute C E (Unlinknfts ids to owner) s = unlinknfts E ids to owner s"
| "execute C E (Logcall i) s = require_auth E (self E) (Inr s)"
| "execute C E (Logsale ids seller buyer receiver) s = require_auth E (self E) (Inr s)"
| "execute C E (Loglicense i) s = require_auth E (self E) (Inr s)"
| "execute C E (Transfer from to quantity memo) s = Inr s"
| "execute C E (Other n) s = Inr s"

definition dispatch :: "cdt \<Rightarrow> env \<Rightarrow> name \<Rightarrow> action \<Rightarrow> dreamoji \<Rightarrow> dreamoji run" where
  "dispatch C E code a s =
     (if code = self E then execute C E a s
      else case a of
        Transfer from to quantity memo \<Rightarrow>
          bind_res (name_ctor C ''eosio.token'') (\<lambda>token.
          if code = token then purchase C E from to quantity memo s else Inr s)
      | _ \<Rightarrow> Inr s)"

section \<open>Runs\<close>

text \<open>
  A run applies actions one after another, each under an environment of its own that satisfies
  \<open>Q\<close>; an action that aborts leaves the state as it was and is not a step. \<open>runs C Q s n t\<close>:
  \<open>n\<close> actions lead from \<open>s\<close> to \<open>t\<close>.
\<close>

inductive runs :: "cdt \<Rightarrow> (env \<Rightarrow> bool) \<Rightarrow> dreamoji \<Rightarrow> nat \<Rightarrow> dreamoji \<Rightarrow> bool" for C Q s where
  start: "runs C Q s 0 s"
| step: "runs C Q s n t \<Longrightarrow> Q E \<Longrightarrow> dispatch C E code a t = Inr u \<Longrightarrow> runs C Q s (Suc n) u"

inductive_cases runs_SucE: "runs C Q s (Suc n) u"

fun run_all :: "cdt \<Rightarrow> (env \<times> name \<times> action) list \<Rightarrow> dreamoji \<Rightarrow> dreamoji run" where
  "run_all C [] s = Inr s"
| "run_all C ((E, code, a) # acts) s = bind_res (dispatch C E code a s) (run_all C acts)"

lemma runs_trans: "runs C Q t m u \<Longrightarrow> runs C Q s n t \<Longrightarrow> runs C Q s (n + m) u"
  by (induction rule: runs.induct) (auto intro: runs.step)

lemma runs_run_all:
  assumes "run_all C acts s = Inr t" and "\<forall>(E, code, a) \<in> set acts. Q E"
  shows "runs C Q s (length acts) t"
  using assms
proof (induction acts arbitrary: s)
  case (Cons x acts)
  obtain E code a where x: "x = (E, code, a)" by (cases x)
  from Cons.prems(1) obtain u where u: "dispatch C E code a s = Inr u" "run_all C acts u = Inr t"
    by (auto simp: x)
  have "runs C Q s (0 + 1) u"
    using u(1) Cons.prems(2) by (auto simp: x intro: runs.intros)
  with Cons.IH [OF u(2)] Cons.prems(2) show ?case
    using runs_trans [of C Q u "length acts" t s 1] by auto
qed (simp add: runs.start)

text \<open>
  Every step is a token action, a purchase of tokens, or leaves balances, supplies, tokens and
  owners alone: the case analysis the invariants share.
\<close>

inductive token_action :: "cdt \<Rightarrow> env \<Rightarrow> dreamoji \<Rightarrow> dreamoji \<Rightarrow> bool" for C E s where
  "instantiate C E sy version s = Inr t \<Longrightarrow> token_action C E s t"
| "create C E issuer partner cat tok fungible burnable sellable transferable split uri days supply s = Inr t
     \<Longrightarrow> token_action C E s t"
| "issue C E to cat tok quantity uri memo s = Inr t \<Longrightarrow> token_action C E s t"
| "freezemaxsup E cat tok s = Inr t \<Longrightarrow> token_action C E s t"
| "burnnft C E owner ids s = Inr t \<Longrightarrow> token_action C E s t"
| "burnft C E owner i quantity s = Inr t \<Longrightarrow> token_action C E s t"
| "transfernft C E from to ids s = Inr t \<Longrightarrow> token_action C E s t"
| "transferft C E from to cat tok quantity memo s = Inr t \<Longrightarrow> token_action C E s t"

lemma execute_cases:
  assumes "execute C E a s = Inr t"
  shows "token_action C E s t \<or> market_frame s t"
  using assms
  by (cases a; simp only: execute.simps)
    ((rule disjI1, erule token_action.intros) | (rule disjI2, erule nftokensale_frame licencesale_frame
      license_frame extend_frame revoke_frame endnftsale_frame endlcncsale_frame linknfts_frame
      unlinknfts_frame) | (rule disjI2, fastforce))+

lemma if_Inr_cases: "(if b then x else y) = Inr t \<Longrightarrow> (b \<Longrightarrow> x = Inr t \<Longrightarrow> P) \<Longrightarrow> (\<not> b \<Longrightarrow> y = Inr t \<Longrightarrow> P) \<Longrightarrow> P"
  by (cases b) simp_all

lemma purchase_cases:
  assumes "purchase C E payer to quantity memo s = Inr t"
  obtains "t = s"
  | buyer i where "purchase_nft C E payer buyer i quantity s = Inr t"
  | buyer i where "purchase_licence C E payer buyer i quantity s = Inr t"
  using assms unfolding purchase_def split_def
  by (elim if_Inr_cases check_InrE bind_res_InrE) blast+

lemma dispatch_purchase:
  assumes "dispatch C E code a s = Inr t"
  shows "execute C E a s = Inr t \<or> t = s \<or> (\<exists>payer to quantity memo. a = Transfer payer to quantity memo \<and>
    code \<noteq> self E \<and> purchase C E payer to quantity memo s = Inr t)"
proof (cases "code = self E")
  case True
  with assms show ?thesis by (simp add: dispatch_def)
next
  case False
  show ?thesis
  proof (cases "\<exists>payer to quantity memo. a = Transfer payer to quantity memo")
    case True
    with False assms show ?thesis by (auto simp: dispatch_def split: if_splits)
  next
    case other: False
    with False assms show ?thesis by (cases a) (simp_all add: dispatch_def)
  qed
qed

lemma dispatch_cases:
  assumes "dispatch C E code a s = Inr t"
  obtains "token_action C E s t" | "market_frame s t"
  | payer buyer i quantity where "purchase_nft C E payer buyer i quantity s = Inr t"
  using dispatch_purchase [OF assms] execute_cases [of C E a s t] purchase_licence_frame
  by (auto elim!: purchase_cases)

section \<open>A run\<close>

definition demo_acts :: "(env \<times> name \<times> action) list" where
  "demo_acts = 
    [(demo_env 1, 1, Instantiate 0x4D41455244 ''1.0''),
     (demo_env 2, 1, Create 2 3 4 5 False True True True (DFinite (1/8)) ''uri'' 0 (demo_asset 10)),
     (demo_env 2, 1, Issue 6 4 5 (demo_asset 2) ''a'' ''memo'')]"

lemma demo_run: "run_all chain_cdt demo_acts empty_dreamoji = Inr demo_state"
  by (simp add: demo_acts_def dispatch_def demo_env_def instantiate_def create_def issue_def
      issue_window_def checkasset_def config_get_def add_category_def mint_units_def mint_def nextnftid_def
      add_balance_def table_get_def table_emplace_def empty_dreamoji_def demo_eval send_def Let_def
      d_zero_def d_one_def numeral_2_eq_2 demo_state_def demo_stats_def demo_token_def)

lemma demo_runs: "runs chain_cdt (\<lambda>E. stale E = (\<lambda>i. i)) empty_dreamoji 3 demo_state"
  using runs_run_all [OF demo_run, of "\<lambda>E. stale E = (\<lambda>i. i)"]
  by (simp add: demo_acts_def demo_env_def numeral_3_eq_3)

end
