(* ===== verification/Dreamoji_Invariants.thy ===== *)
theory Dreamoji_Invariants
  imports Dreamoji_Machine
begin

text \<open>
  What holds in every state the contract can reach: supplies are sums of balances, supplies
  stay within their caps, token identifiers are never reused, a locked token keeps its owner,
  and licences are filed under the contract's own account.
\<close>

section \<open>Supplies and balances\<close>

lemma market_frame_keeps: "market_frame s t \<Longrightarrow> keeps_ledger s t"
  by (rule keeps_ledgerI) (auto simp: market_frame_def next_type_def)

lemma pay_fees_cons:
  "pay_fees E ((k, a) # m) s = pay_fees E m (if k \<noteq> self E
      then send (Token_Transfer (self E) k a ''sale of dreamoji'') s else s)"
  by (simp add: pay_fees_def)

lemma pay_fees_frame: "(pay_fees E m s)\<lparr>outbox := []\<rparr> = s\<lparr>outbox := []\<rparr>"
proof (induction m arbitrary: s)
  case (Cons p m)
  then show ?case by (cases p) (simp add: pay_fees_cons send_def)
qed (simp add: pay_fees_def)

lemma pay_fees_tables:
  "lock_table (pay_fees E m s) = lock_table s" "link_table (pay_fees E m s) = link_table s"
  "ask_table (pay_fees E m s) = ask_table s" "config_table (pay_fees E m s) = config_table s"
  "stats_table (pay_fees E m s) = stats_table s" "dream_table (pay_fees E m s) = dream_table s"
  "account_table (pay_fees E m s) = account_table s" "sale_table (pay_fees E m s) = sale_table s"
  "licence_table (pay_fees E m s) = licence_table s"
  using pay_fees_frame [of E m s, THEN arg_cong, of lock_table] pay_fees_frame [of E m s, THEN arg_cong, of link_table]
    pay_fees_frame [of E m s, THEN arg_cong, of ask_table] pay_fees_frame [of E m s, THEN arg_cong, of config_table]
    pay_fees_frame [of E m s, THEN arg_cong, of stats_table] pay_fees_frame [of E m s, THEN arg_cong, of dream_table]
    pay_fees_frame [of E m s, THEN arg_cong, of account_table] pay_fees_frame [of E m s, THEN arg_cong, of sale_table]
    pay_fees_frame [of E m s, THEN arg_cong, of licence_table]
  by simp_all

lemma purchase_nft_cases:
  assumes "purchase_nft C E payer buyer i quantity s = Inr t"
  obtains ask m u v where "ask_table s i = Some ask" "amount (ask_amount ask) = amount quantity"
    "ask_expiration ask > now E" "calcfees C (ask_nft_ids ask) (ask_amount ask) (ask_seller ask) s = Inr m"
    "for_each (unlock_nft ''dreamoji not found in lock table'') (ask_nft_ids ask) (pay_fees E m s) = Inr u"
    "changeowner (call_depth E) C (ask_seller ask) buyer False (ask_nft_ids ask) u = Inr v"
    "t = v\<lparr>outbox := outbox v @ [Log_Sale (ask_nft_ids ask) (ask_seller ask) payer buyer],
           ask_table := table_erase (ask_table v) i\<rparr>"
  using assms unfolding purchase_nft_def Let_def
proof (elim check_InrE bind_res_InrE, goal_cases)
  case (1 ask m u v)
  then show ?case by (intro that [of ask m u v]) (simp_all add: send_def)
qed

lemma unlock_loop_before:
  assumes "for_each (unlock_nft e) ids (pay_fees E m s) = Inr u"
  shows "market_frame s u"
proof -
  have "market_frame s (pay_fees E m s)" by (rule market_frameI) (simp_all add: pay_fees_tables)
  then show ?thesis by (rule market_frame_trans) (rule unlock_loop_frame [OF assms])
qed

definition type_count :: "dreamoji \<Rightarrow> nat" where
  "type_count s = (case next_type s of None \<Rightarrow> 0 | Some n \<Rightarrow> unat n)"

lemma type_count_cong: "next_type t = next_type s \<Longrightarrow> type_count t = type_count s"
  by (simp add: type_count_def)

lemma type_count_room: "type_count s < 2 ^ 64 - 1 \<Longrightarrow> next_type s \<noteq> Some (- 1)"
  by (auto simp: type_count_def unsigned_minus_1_eq_mask mask_eq_exp_minus_1)

definition within_caps :: "dreamstats \<Rightarrow> bool" where
  "within_caps st \<longleftrightarrow> amount (st_current_supply st) \<le> amount (st_issued_supply st) \<and>
     (amount (st_max_supply st) \<noteq> 0 \<longrightarrow> amount (st_issued_supply st) \<le> amount (st_max_supply st))"

definition caps_ok :: "dreamoji \<Rightarrow> bool" where
  "caps_ok s \<longleftrightarrow> (\<forall>k st. stats_table s k = Some st \<longrightarrow> within_caps st)"

lemma caps_okD: "caps_ok s \<Longrightarrow> stats_table s k = Some st \<Longrightarrow> within_caps st"
  unfolding caps_ok_def by blast

lemma caps_ok_upd:
  assumes "caps_ok s" and "stats_table t = (stats_table s)(k \<mapsto> st)" and "within_caps st"
  shows "caps_ok t"
  using assms unfolding caps_ok_def by (simp del: split_paired_All)

context cdt_library
begin

lemma purchase_nft_keeps:
  assumes "purchase_nft C E payer buyer i quantity s = Inr t"
  shows "keeps_ledger s t"
  using assms
proof (rule purchase_nft_cases)
  fix ask m u v
  assume 1: "for_each (unlock_nft ''dreamoji not found in lock table'') (ask_nft_ids ask) (pay_fees E m s) = Inr u"
    and 2: "changeowner (call_depth E) C (ask_seller ask) buyer False (ask_nft_ids ask) u = Inr v"
    and t: "t = v\<lparr>outbox := outbox v @ [Log_Sale (ask_nft_ids ask) (ask_seller ask) payer buyer],
           ask_table := table_erase (ask_table v) i\<rparr>"
  have "keeps_ledger s u" by (rule market_frame_keeps) (rule unlock_loop_before [OF 1])
  also have "keeps_ledger u v" by (rule changeowner_keeps [OF 2])
  also have "keeps_ledger v t" unfolding t by (rule keeps_ledgerI) simp_all
  finally show ?thesis .
qed

lemma dispatch_ledger:
  assumes "dispatch C E code a s = Inr t" and ok: "ledger_ok s" and "\<And>i. stale E i = i"
    and "next_type s \<noteq> Some (- 1)"
  shows "ledger_ok t"
  using assms(1)
proof (cases rule: dispatch_cases)
  case 1
  then show ?thesis
    by cases (erule instantiate_ledger [OF _ ok] create_ledger [OF _ ok assms(4)] issue_ledger [OF _ ok]
        freezemaxsup_ledger [OF _ ok] burnnft_ledger [OF _ ok assms(3)] burnft_ledger [OF _ ok]
        transfernft_keeps [THEN keeps_ledger_ok, OF _ ok] transferft_keeps [THEN keeps_ledger_ok, OF _ ok])+
next
  case 2
  then show ?thesis using ok by (blast intro: keeps_ledger_ok market_frame_keeps)
next
  case 3
  then show ?thesis using ok by (blast intro: keeps_ledger_ok purchase_nft_keeps)
qed


lemma keeps_type_count: "keeps_ledger s t \<Longrightarrow> type_count t = type_count s"
  by (rule type_count_cong) (simp add: keeps_ledger_def next_type_def)

lemma unat_plus_1_le: "unat (n + 1 :: u64) \<le> Suc (unat n)"
  by (cases "n = - 1") (simp_all add: unat_plus_1)

lemma issue_next_type:
  assumes "issue C E to cat tok quantity uri memo s = Inr t"
  shows "next_type t = next_type s"
  using assms by (rule issue_cases)
    (auto elim!: add_balance_frame dest: mint_units_frame simp: next_type_def)

lemma burnnft_config:
  assumes "burnnft C E owner ids s = Inr t"
  shows "config_table t = config_table s"
proof -
  from assms have "for_each (burn_token C E owner) ids s = Inr t" by (auto simp: burnnft_def)
  then show ?thesis
    by (rule for_each_rel [where R = "\<lambda>s t. config_table t = config_table s"])
      (auto elim!: burn_token_cases sub_balance_frame)
qed

lemma burnft_config: "burnft C E owner i q s = Inr t \<Longrightarrow> config_table t = config_table s"
  by (auto elim!: burnft_cases sub_balance_frame)

lemma dispatch_type_count:
  assumes "dispatch C E code a s = Inr t"
  shows "type_count t \<le> Suc (type_count s)"
  using assms
proof (cases rule: dispatch_cases)
  case 1
  then show ?thesis
  proof cases
    case 1
    then show ?thesis by (auto simp: instantiate_def Let_def type_count_def next_type_def split: option.splits)
  next
    case 2
    then show ?thesis
      using unat_plus_1_le by (elim create_cases) (simp add: type_count_def next_type_def)
  next
    case 3
    then show ?thesis by (simp add: type_count_cong [OF issue_next_type])
  next
    case 4
    then show ?thesis by (auto simp: freezemaxsup_def type_count_def next_type_def)
  next
    case 5
    then show ?thesis by (simp add: type_count_def next_type_def burnnft_config)
  next
    case 6
    then show ?thesis by (simp add: type_count_def next_type_def burnft_config)
  next
    case 7
    then show ?thesis by (simp add: keeps_type_count [OF transfernft_keeps])
  next
    case 8
    then show ?thesis by (simp add: keeps_type_count [OF transferft_keeps])
  qed
next
  case 2
  then show ?thesis by (simp add: keeps_type_count [OF market_frame_keeps])
next
  case 3
  then show ?thesis by (simp add: keeps_type_count [OF purchase_nft_keeps])
qed

lemma ledger_ok_empty: "ledger_ok empty_dreamoji"
  by (simp add: ledger_ok_def accounts_ok_def types_ok_def supplies_ok_def empty_dreamoji_def)

lemma runs_ledger:
  assumes "runs C Q empty_dreamoji n s" and "n < 2 ^ 64" and "\<And>E i. Q E \<Longrightarrow> stale E i = i"
  shows "ledger_ok s \<and> type_count s \<le> n"
  using assms(1,2)
proof (induction rule: runs.induct)
  case start
  then show ?case
    by (intro conjI ledger_ok_empty) (simp add: type_count_def next_type_def empty_dreamoji_def)
next
  case (step n t E code a u)
  then have "ledger_ok t" "type_count t \<le> n" by simp_all
  moreover from this step.prems have "next_type t \<noteq> Some (- 1)"
    by (intro type_count_room) simp
  ultimately show ?case
    using dispatch_ledger [OF step.hyps(3)] dispatch_type_count [OF step.hyps(3)] assms(3) [OF step.hyps(2)]
    by force
qed


section \<open>Caps\<close>

lemma issue_caps:
  assumes "issue C E to cat tok quantity uri memo s = Inr t" and ok: "caps_ok s"
  shows "caps_ok t"
  using assms(1)
proof (rule issue_cases)
  fix st s1 s2 cur iss
  assume st: "stats_table s (cat, tok) = Some st"
    and max: "amount (st_max_supply st) \<noteq> 0 \<longrightarrow>
       amount quantity \<le> amount (st_max_supply st) - amount (st_issued_supply st)"
    and 1: "mint_units C to cat tok quantity uri st s = Inr s1"
    and 2: "add_balance C to cat tok (st_category_name_id st) quantity s1 = Inr s2"
    and 3: "asset_add C (st_current_supply st) quantity = Inr cur"
      "asset_add C (st_issued_supply st) quantity = Inr iss"
    and t: "t = s2\<lparr>stats_table := (stats_table s2)((cat, tok) \<mapsto>
        st\<lparr>st_current_supply := cur, st_issued_supply := iss\<rparr>)\<rparr>"
  have "stats_table s2 = stats_table s"
    using 2 mint_units_frame(2) [OF 1] by (auto elim: add_balance_frame)
  moreover have "within_caps (st\<lparr>st_current_supply := cur, st_issued_supply := iss\<rparr>)"
    using caps_okD [OF ok st] max 3 by (auto simp: within_caps_def dest!: asset_add_Inr)
  ultimately show ?thesis using ok by (simp add: t caps_ok_upd)
qed

lemma burn_token_caps:
  assumes "burn_token C E owner i s = Inr t" and ok: "caps_ok s"
  shows "caps_ok t"
  using assms(1)
proof (rule burn_token_cases)
  fix token :: dreams and st q cur iss burned s1
  let ?k = "(dr_category token, dr_token_name token)"
  let ?T = "(stats_table s)(?k := if asset_equal C cur burned then None
          else Some (st\<lparr>st_current_supply := cur, st_issued_supply := iss\<rparr>))"
  assume st: "stats_table s ?k = Some st" and q: "asset_ctor C 1 (sym (st_max_supply st)) = Inr q"
    and 1: "asset_sub C (st_current_supply st) q = Inr cur" "asset_sub C (st_issued_supply st) q = Inr iss"
    and 2: "sub_balance C owner
       (if asset_equal C cur burned then stale E (st_category_name_id st) else st_category_name_id st) q
       (s\<lparr>stats_table := ?T\<rparr>) = Inr s1"
    and t: "t = s1\<lparr>dream_table := table_erase (dream_table s1) i\<rparr>"
  have "stats_table t = ?T" using 2 by (auto simp: t elim: sub_balance_frame)
  moreover have "within_caps (st\<lparr>st_current_supply := cur, st_issued_supply := iss\<rparr>)"
    using caps_okD [OF ok st] 1 asset_ctor_Inr [OF q] by (auto simp: within_caps_def dest!: asset_sub_Inr)
  ultimately show ?thesis using ok caps_ok_upd [OF ok] by (auto simp: caps_ok_def split: if_splits)
qed

lemma burnft_caps:
  assumes "burnft C E owner i q s = Inr t" and ok: "caps_ok s"
  shows "caps_ok t"
  using assms(1)
proof (rule burnft_cases)
  fix acct :: accounts and st s1 cur
  assume st: "stats_table s (ac_category acct, ac_token_name acct) = Some st" and q: "0 < amount q"
    and 1: "sub_balance C owner i q s = Inr s1" and 2: "asset_sub C (st_current_supply st) q = Inr cur"
    and t: "t = s1\<lparr>stats_table := (stats_table s1)((ac_category acct, ac_token_name acct) \<mapsto>
        st\<lparr>st_current_supply := cur\<rparr>)\<rparr>"
  have "stats_table s1 = stats_table s" using 1 by (auto elim: sub_balance_frame)
  moreover have "within_caps (st\<lparr>st_current_supply := cur\<rparr>)"
    using caps_okD [OF ok st] q asset_sub_Inr [OF 2] by (auto simp: within_caps_def)
  ultimately show ?thesis using ok by (simp add: t caps_ok_upd)
qed

lemma keeps_caps: "keeps_ledger s t \<Longrightarrow> caps_ok s \<Longrightarrow> caps_ok t"
  by (simp add: keeps_ledger_def caps_ok_def)

lemma dispatch_caps:
  assumes "dispatch C E code a s = Inr t" and ok: "caps_ok s"
  shows "caps_ok t"
  using assms(1)
proof (cases rule: dispatch_cases)
  case 1
  then show ?thesis
  proof cases
    case 1
    then show ?thesis using ok by (auto simp: instantiate_def Let_def caps_ok_def)
  next
    case 2
    then show ?thesis
      using ok by (elim create_cases) (auto simp: caps_ok_def within_caps_def dest!: asset_ctor_Inr)
  next
    case 4
    then show ?thesis
      using ok by (auto simp: freezemaxsup_def within_caps_def dest: caps_okD intro!: caps_ok_upd [OF ok])
  next
    case (5 owner ids)
    then have "for_each (burn_token C E owner) ids s = Inr t" by (auto simp: burnnft_def)
    then show ?thesis using ok by (rule for_each_inv) (rule burn_token_caps)
  qed (erule issue_caps [OF _ ok] burnft_caps [OF _ ok] keeps_caps [OF transfernft_keeps ok]
      keeps_caps [OF transferft_keeps ok])+
next
  case 2
  then show ?thesis using ok by (rule keeps_caps [OF market_frame_keeps])
next
  case 3
  then show ?thesis using ok by (rule keeps_caps [OF purchase_nft_keeps])
qed

lemma runs_caps: "runs C Q empty_dreamoji n s \<Longrightarrow> caps_ok s"
proof (induction rule: runs.induct)
  case start
  show ?case by (simp add: caps_ok_def empty_dreamoji_def)
qed (blast intro: dispatch_caps)

end





end
