(* ===== verification/Dreamoji_Tokens.thy ===== *)
theory Dreamoji_Tokens
  imports Dreamoji_Invariants
begin

text \<open>
  The life of a token: its identifier is issued once, what identifies it never changes, a lock
  keeps it with its owner, and a transfer or a purchase hands over exactly what it names.
\<close>

section \<open>Identifiers\<close>

definition nft_count :: "dreamoji \<Rightarrow> nat" where
  "nft_count s = (case next_nft s of None \<Rightarrow> 0 | Some n \<Rightarrow> unat n)"

definition ident :: "dreams \<Rightarrow> u64 \<times> u64 \<times> name \<times> name \<times> string option" where
  "ident d = (dr_id d, dr_serial_number d, dr_category d, dr_token_name d, dr_relative_uri d)"

text \<open>
  From \<open>s\<close> to \<open>t\<close> the counter does not decrease, and a token of \<open>t\<close> is a token of \<open>s\<close> with the
  same identity or has an identifier between the two counters.
\<close>

definition tokens_grow :: "dreamoji \<Rightarrow> dreamoji \<Rightarrow> bool" where
  "tokens_grow s t \<longleftrightarrow> nft_count s \<le> nft_count t \<and>
     (\<forall>i d'. dream_table t i = Some d' \<longrightarrow>
        (\<exists>d. dream_table s i = Some d \<and> ident d = ident d') \<or> (nft_count s \<le> unat i \<and> unat i < nft_count t))"

lemma tokens_grow_refl [simp]: "tokens_grow s s"
  by (auto simp: tokens_grow_def)

lemma tokens_grow_trans:
  assumes "tokens_grow s t" and "tokens_grow t u"
  shows "tokens_grow s u"
  unfolding tokens_grow_def
proof (intro conjI allI impI)
  show "nft_count s \<le> nft_count u" using assms by (auto simp: tokens_grow_def)
  fix i d' assume "dream_table u i = Some d'"
  then consider d where "dream_table t i = Some d" "ident d = ident d'"
    | "nft_count t \<le> unat i" "unat i < nft_count u"
    using assms(2) unfolding tokens_grow_def by blast
  then show "(\<exists>d. dream_table s i = Some d \<and> ident d = ident d') \<or> nft_count s \<le> unat i \<and> unat i < nft_count u"
  proof cases
    case 1
    then consider d0 where "dream_table s i = Some d0" "ident d0 = ident d"
      | "nft_count s \<le> unat i" "unat i < nft_count t"
      using assms(1) unfolding tokens_grow_def by blast
    then show ?thesis using 1(2) assms(2) by cases (auto simp: tokens_grow_def)
  next
    case 2
    then show ?thesis using assms(1) by (auto simp: tokens_grow_def)
  qed
qed

lemma tokens_growI:
  assumes "next_nft t = next_nft s"
    and "\<And>i d'. dream_table t i = Some d' \<Longrightarrow> \<exists>d. dream_table s i = Some d \<and> ident d = ident d'"
  shows "tokens_grow s t" and "nft_count t = nft_count s"
  using assms by (simp_all add: tokens_grow_def nft_count_def)

lemma market_frame_tokens:
  assumes "market_frame s t"
  shows "tokens_grow s t" and "nft_count t = nft_count s"
proof -
  have "\<exists>d. dream_table s i = Some d \<and> ident d = ident d'" if "dream_table t i = Some d'" for i d'
  proof -
    have "map_option token_core (dream_table t i) = map_option token_core (dream_table s i)"
      using assms unfolding market_frame_def by blast
    with that obtain d where d: "dream_table s i = Some d" "token_core d = token_core d'" by (cases "dream_table s i") auto
    have "ident x = ident (token_core x)" for x by (simp add: ident_def token_core_def)
    with d show ?thesis by metis
  qed
  moreover have "next_nft t = next_nft s" using assms by (simp add: market_frame_def)
  ultimately show "tokens_grow s t" and "nft_count t = nft_count s" using tokens_growI by blast+
qed

lemma handed_to_ident:
  assumes "handed_to to s t" and "dream_table t i = Some d'"
  shows "\<exists>d. dream_table s i = Some d \<and> ident d = ident d'"
  using handed_token [OF assms(1), of i] assms(2) by (cases "dream_table s i") (auto simp: ident_def)

lemma handed_to_tokens:
  assumes "handed_to to s t"
  shows "tokens_grow s t" and "nft_count t = nft_count s"
  using tokens_growI [of t s] handed_to_ident [OF assms] handed_to_tables(4) [OF assms]
  by (auto simp: next_nft_def)

lemma mint_tokens:
  assumes "mint to cat tok issued uri s = Inr t" and "nft_count s + 1 < 2 ^ 64"
  shows "tokens_grow s t" and "nft_count t = nft_count s + 1"
proof -
  from assms(1) obtain cfg d where cfg: "config_table s = Some cfg"
    and t: "config_table t = Some (cfg\<lparr>cfg_next_nft_id := cfg_next_nft_id cfg + 1\<rparr>)"
      "dream_table t = (dream_table s)(cfg_next_nft_id cfg \<mapsto> d)"
    by (auto simp: mint_def nextnftid_def send_def split: option.splits)
  have c: "nft_count s = unat (cfg_next_nft_id cfg)"
    by (simp add: nft_count_def next_nft_def cfg)
  have "cfg_next_nft_id cfg \<noteq> - 1"
    using assms(2) c by (auto simp: unsigned_minus_1_eq_mask mask_eq_exp_minus_1)
  moreover have "nft_count t = unat (cfg_next_nft_id cfg + 1)"
    by (simp add: nft_count_def next_nft_def t)
  ultimately show n: "nft_count t = nft_count s + 1" using c by (simp add: unat_plus_1)
  then show "tokens_grow s t"
    using c t(2) by (auto simp: tokens_grow_def split: if_splits)
qed

lemma mint_loop_tokens:
  assumes "mint_loop C to cat tok uri one n issued s = Inr t" and "nft_count s + n < 2 ^ 64"
  shows "tokens_grow s t \<and> nft_count t = nft_count s + n"
  using assms
proof (induction n arbitrary: s issued)
  case (Suc n)
  from Suc.prems(1) obtain u issued' where 1: "mint to cat tok issued uri s = Inr u"
      "mint_loop C to cat tok uri one n issued' u = Inr t" by auto
  have 2: "tokens_grow s u" "nft_count u = nft_count s + 1"
    using mint_tokens [OF 1(1)] Suc.prems(2) by auto
  then show ?case using Suc.IH [OF 1(2)] Suc.prems(2) by (auto intro: tokens_grow_trans)
qed simp

lemma issue_tokens:
  assumes "issue C E to cat tok q uri memo s = Inr t" and room: "nft_count s + 100 < 2 ^ 64"
  shows "tokens_grow s t \<and> nft_count t \<le> nft_count s + 100"
  using assms(1)
proof (rule issue_cases)
  fix st s1 s2 cur iss
  assume 1: "mint_units C to cat tok q uri st s = Inr s1"
    and 2: "add_balance C to cat tok (st_category_name_id st) q s1 = Inr s2"
    and t: "t = s2\<lparr>stats_table := (stats_table s2)((cat, tok) \<mapsto>
        st\<lparr>st_current_supply := cur, st_issued_supply := iss\<rparr>)\<rparr>"
  have "tokens_grow s s1 \<and> nft_count s1 \<le> nft_count s + 100"
  proof (cases "st_fungible st")
    case True
    with 1 show ?thesis by (simp add: mint_units_def)
  next
    case False
    with 1 obtain one where one: "amount q \<le> 100"
        "mint_loop C to cat tok uri one (nat (amount q)) (st_issued_supply st) s = Inr s1"
      by (auto simp: mint_units_def)
    then have "nft_count s + nat (amount q) < 2 ^ 64" using room by linarith
    with mint_loop_tokens [OF one(2)] one(1) show ?thesis by simp
  qed
  moreover obtain x where "s2 = s1\<lparr>account_table := x\<rparr>" using 2 by (rule add_balance_frame)
  then have "tokens_grow s1 t" "nft_count t = nft_count s1"
    by (auto simp: t next_nft_def intro!: tokens_growI)
  ultimately show ?thesis using tokens_grow_trans by auto
qed

lemma burn_token_frame:
  assumes "burn_token C E owner i s = Inr t"
  shows "config_table t = config_table s" "lock_table t = lock_table s" "lock_table s i = None"
    "dream_table t = table_erase (dream_table s) i" "\<exists>d. dream_table s i = Some d \<and> dr_owner d = owner"
  using assms by (auto elim!: burn_token_cases sub_balance_frame)

lemma burn_loop_tokens:
  assumes "for_each (burn_token C E owner) ids s = Inr t"
  shows "tokens_grow s t \<and> nft_count t = nft_count s"
  using assms
  by (rule for_each_rel [where R = "\<lambda>s t. tokens_grow s t \<and> nft_count t = nft_count s"])
    (auto intro: tokens_grow_trans tokens_growI simp: burn_token_frame next_nft_def split: if_splits)


context cdt_library
begin

lemma purchase_nft_tokens:
  assumes "purchase_nft C E payer buyer i quantity s = Inr t"
  shows "tokens_grow s t" and "nft_count t = nft_count s"
proof -
  have "tokens_grow s t \<and> nft_count t = nft_count s"
    using assms
  proof (rule purchase_nft_cases)
    fix ask m u v
    assume 1: "for_each (unlock_nft ''dreamoji not found in lock table'') (ask_nft_ids ask) (pay_fees E m s) = Inr u"
      and 2: "changeowner (call_depth E) C (ask_seller ask) buyer False (ask_nft_ids ask) u = Inr v"
      and t: "t = v\<lparr>outbox := outbox v @ [Log_Sale (ask_nft_ids ask) (ask_seller ask) payer buyer],
           ask_table := table_erase (ask_table v) i\<rparr>"
    have "tokens_grow v t" "nft_count t = nft_count v"
      by (auto simp: t next_nft_def intro!: tokens_growI)
    then show ?thesis
      using market_frame_tokens [OF unlock_loop_before [OF 1]] handed_to_tokens [OF changeowner_handed [OF 2]]
      by (auto intro: tokens_grow_trans)
  qed
  then show "tokens_grow s t" and "nft_count t = nft_count s" by auto
qed

lemma dispatch_tokens:
  assumes "dispatch C E code a s = Inr t" and room: "nft_count s + 100 < 2 ^ 64"
  shows "tokens_grow s t \<and> nft_count t \<le> nft_count s + 100"
  using assms(1)
proof (cases rule: dispatch_cases)
  case 1
  then show ?thesis
  proof cases
    case 1
    then show ?thesis
      by (auto simp: instantiate_def Let_def tokens_grow_def nft_count_def next_nft_def split: option.splits)
  next
    case 2
    then show ?thesis
      by (elim create_cases) (auto simp: tokens_grow_def nft_count_def next_nft_def)
  next
    case 4
    then show ?thesis by (auto simp: freezemaxsup_def tokens_grow_def nft_count_def next_nft_def)
  next
    case (5 owner ids)
    then have "for_each (burn_token C E owner) ids s = Inr t" by (auto simp: burnnft_def)
    then show ?thesis by (auto dest: burn_loop_tokens)
  next
    case 6
    then show ?thesis
      by (auto elim!: burnft_cases sub_balance_frame simp: tokens_grow_def nft_count_def next_nft_def)
  next
    case 7
    then show ?thesis
      by (auto elim!: transfernft_cases dest!: changeowner_handed dest: handed_to_tokens)
  next
    case 8
    then show ?thesis
      by (auto simp: transferft_def Let_def send_def tokens_grow_def nft_count_def next_nft_def
          elim!: sub_balance_frame add_balance_frame)
  qed (erule issue_tokens [OF _ room])
next
  case 2
  then show ?thesis by (simp add: market_frame_tokens)
next
  case 3
  then show ?thesis by (simp add: purchase_nft_tokens)
qed

lemma runs_tokens:
  assumes "runs C Q s n t" and "nft_count s + 100 * n < 2 ^ 64"
  shows "tokens_grow s t \<and> nft_count t \<le> nft_count s + 100 * n"
  using assms
proof (induction rule: runs.induct)
  case (step n t E code a u)
  then have "tokens_grow s t" "nft_count t \<le> nft_count s + 100 * n" by simp_all
  moreover from this step.prems have "nft_count t + 100 < 2 ^ 64" by simp
  ultimately show ?case
    using dispatch_tokens [OF step.hyps(3)] by (auto intro: tokens_grow_trans)
qed simp

end

lemma nft_count_empty [simp]: "nft_count empty_dreamoji = 0"
  by (simp add: nft_count_def next_nft_def empty_dreamoji_def)

text \<open>
  C13: A token keeps its serial number, category, name and address for as long as it exists, and
  the identifier of a burned token is never given to another one: if a token is there after
  some actions and again after more, it is the same token, and an identifier issued before but
  absent now stays absent. The bound keeps the 64-bit counter from wrapping round.
\<close>

theorem token_identity:
  assumes "cdt_library C" and "runs C Q empty_dreamoji n s" and "runs C Q s m t"
    and "100 * (n + m) < 2 ^ 64"
  shows "(\<forall>i d d'. dream_table s i = Some d \<and> dream_table t i = Some d' \<longrightarrow> ident d = ident d')
    \<and> (\<forall>i. dream_table s i = None \<and> unat i < nft_count s \<longrightarrow> dream_table t i = None)"
proof -
  have 1: "tokens_grow empty_dreamoji s" "nft_count s \<le> 100 * n"
    using cdt_library.runs_tokens [OF assms(1,2)] assms(4) by auto
  then have 2: "tokens_grow s t"
    using cdt_library.runs_tokens [OF assms(1,3)] assms(4) by auto
  have old: "unat i < nft_count s" if "dream_table s i = Some d" for i d
    using 1(1) that by (auto simp: tokens_grow_def empty_dreamoji_def)
  show ?thesis
  proof (intro conjI allI impI)
    fix i d d' assume *: "dream_table s i = Some d \<and> dream_table t i = Some d'"
    then have "\<not> nft_count s \<le> unat i" using old by fastforce
    then show "ident d = ident d'" using 2 * unfolding tokens_grow_def by fastforce
  next
    fix i assume "dream_table s i = None \<and> unat i < nft_count s"
    then show "dream_table t i = None"
      using 2 unfolding tokens_grow_def by (cases "dream_table t i") fastforce+
  qed
qed

section \<open>Locks\<close>

text \<open>The token with identifier \<open>i\<close> is still there and still has its owner.\<close>

definition keeps_owner :: "u64 \<Rightarrow> dreamoji \<Rightarrow> dreamoji \<Rightarrow> bool" where
  "keeps_owner i s t \<longleftrightarrow>
     (\<forall>d. dream_table s i = Some d \<longrightarrow> (\<exists>d'. dream_table t i = Some d' \<and> dr_owner d' = dr_owner d))"

lemma keeps_owner_same: "dream_table t = dream_table s \<Longrightarrow> keeps_owner i s t"
  by (simp add: keeps_owner_def)

lemma keeps_owner_trans: "keeps_owner i s t \<Longrightarrow> keeps_owner i t u \<Longrightarrow> keeps_owner i s u"
  by (fastforce simp: keeps_owner_def)

lemma market_frame_owner:
  assumes "market_frame s t"
  shows "keeps_owner i s t"
  unfolding keeps_owner_def
proof (intro allI impI)
  fix d assume "dream_table s i = Some d"
  moreover have "map_option token_core (dream_table t i) = map_option token_core (dream_table s i)"
    using assms unfolding market_frame_def by blast
  ultimately obtain d' where "dream_table t i = Some d'" "token_core d' = token_core d" by auto
  moreover have "dr_owner x = dr_owner (token_core x)" for x by (simp add: token_core_def)
  ultimately show "\<exists>d'. dream_table t i = Some d' \<and> dr_owner d' = dr_owner d" by metis
qed

lemma handed_to_locked: "handed_to to s t \<Longrightarrow> lock_table s i \<noteq> None \<Longrightarrow> keeps_owner i s t"
  using handed_token [of to s t i] by (auto simp: keeps_owner_def)

lemma mint_owner:
  assumes "mint to cat tok issued uri s = Inr t"
  shows "keeps_owner i s t"
  using assms by (auto simp: mint_def nextnftid_def send_def keeps_owner_def split: option.splits)

lemma mint_loop_owner: "mint_loop C to cat tok uri one n issued s = Inr t \<Longrightarrow> keeps_owner i s t"
  by (induction n arbitrary: s issued) (auto intro: keeps_owner_same keeps_owner_trans [OF mint_owner])

lemma issue_owner:
  assumes "issue C E to cat tok q uri memo s = Inr t"
  shows "keeps_owner i s t"
  using assms
proof (rule issue_cases)
  fix st s1 s2 cur iss
  assume 1: "mint_units C to cat tok q uri st s = Inr s1"
    and 2: "add_balance C to cat tok (st_category_name_id st) q s1 = Inr s2"
    and t: "t = s2\<lparr>stats_table := (stats_table s2)((cat, tok) \<mapsto>
        st\<lparr>st_current_supply := cur, st_issued_supply := iss\<rparr>)\<rparr>"
  have "keeps_owner i s s1"
    using 1 by (auto simp: mint_units_def intro: mint_loop_owner keeps_owner_same split: if_splits)
  moreover have "dream_table t = dream_table s1" using 2 by (auto simp: t elim: add_balance_frame)
  ultimately show ?thesis by (blast intro: keeps_owner_trans keeps_owner_same)
qed

lemma burn_loop_locked:
  assumes "for_each (burn_token C E owner) ids s = Inr t" and "lock_table s i \<noteq> None"
  shows "keeps_owner i s t"
proof -
  have "lock_table t = lock_table s \<and> (lock_table s i \<noteq> None \<longrightarrow> keeps_owner i s t)"
    using assms(1)
  proof (rule for_each_rel)
    fix x u v assume "burn_token C E owner x u = Inr v"
    from burn_token_frame [OF this]
    show "lock_table v = lock_table u \<and> (lock_table u i \<noteq> None \<longrightarrow> keeps_owner i u v)"
      by (auto simp: keeps_owner_def)
  qed (auto intro: keeps_owner_same keeps_owner_trans)
  with assms(2) show ?thesis by simp
qed

lemma token_action_locked:
  assumes "token_action C E s t" and "lock_table s i \<noteq> None"
  shows "keeps_owner i s t"
  using assms(1)
proof cases
  case 1
  then show ?thesis by (auto simp: instantiate_def Let_def intro: keeps_owner_same)
next
  case 2
  then show ?thesis by (elim create_cases) (simp add: keeps_owner_same)
next
  case 4
  then show ?thesis by (auto simp: freezemaxsup_def intro: keeps_owner_same)
next
  case (5 owner ids)
  then have "for_each (burn_token C E owner) ids s = Inr t" by (auto simp: burnnft_def)
  then show ?thesis using assms(2) by (rule burn_loop_locked)
next
  case 6
  then show ?thesis by (auto elim!: burnft_cases sub_balance_frame intro: keeps_owner_same)
next
  case 7
  then show ?thesis
    by (elim transfernft_cases) (erule handed_to_locked [OF changeowner_handed, OF _ assms(2)])
next
  case 8
  then show ?thesis
    by (auto simp: transferft_def Let_def send_def elim!: sub_balance_frame add_balance_frame
        intro!: keeps_owner_same)
qed (erule issue_owner)

lemma unlock_loop_locks:
  "for_each (unlock_nft e) ids s = Inr t \<Longrightarrow> lock_table t i = (if i \<in> set ids then None else lock_table s i)"
proof (induction ids arbitrary: s)
  case (Cons x ids)
  from Cons.prems obtain u where "unlock_nft e x s = Inr u" "for_each (unlock_nft e) ids u = Inr t" by auto
  with Cons.IH [OF this(2)] show ?case by (auto simp: unlock_nft_def)
qed simp

lemma purchase_nft_locked:
  assumes "purchase_nft C E payer buyer b quantity s = Inr t" and "lock_table s i \<noteq> None"
  shows "keeps_owner i s t \<or> (\<exists>ask. ask_table s b = Some ask \<and> i \<in> set (ask_nft_ids ask)
    \<and> amount quantity = amount (ask_amount ask) \<and> now E < ask_expiration ask)"
  using assms(1)
proof (rule purchase_nft_cases)
  fix ask m u v
  assume ask: "ask_table s b = Some ask" "amount (ask_amount ask) = amount quantity" "ask_expiration ask > now E"
    and 1: "for_each (unlock_nft ''dreamoji not found in lock table'') (ask_nft_ids ask) (pay_fees E m s) = Inr u"
    and 2: "changeowner (call_depth E) C (ask_seller ask) buyer False (ask_nft_ids ask) u = Inr v"
    and t: "t = v\<lparr>outbox := outbox v @ [Log_Sale (ask_nft_ids ask) (ask_seller ask) payer buyer],
           ask_table := table_erase (ask_table v) b\<rparr>"
  show ?thesis
  proof (cases "i \<in> set (ask_nft_ids ask)")
    case False
    then have "lock_table u i \<noteq> None"
      using unlock_loop_locks [OF 1] assms(2) by (simp add: pay_fees_tables)
    then have "keeps_owner i u v" by (rule handed_to_locked [OF changeowner_handed [OF 2]])
    then show ?thesis
      using market_frame_owner [OF unlock_loop_before [OF 1], of i] keeps_owner_same [of t v i]
      by (auto simp: t intro: keeps_owner_trans)
  qed (use ask in auto)
qed

text \<open>
  C10: No action takes a locked token from its owner or destroys it, except a payment that buys
  an open, unexpired sale in which the token is listed, for exactly the asked amount.
\<close>

theorem locked_token_stays:
  assumes "dispatch C E code a s = Inr t" and "lock_table s i \<noteq> None" and "dream_table s i = Some d"
  shows "(\<exists>d'. dream_table t i = Some d' \<and> dr_owner d' = dr_owner d)
    \<or> (\<exists>payer to quantity memo b ask. a = Transfer payer to quantity memo \<and> code \<noteq> self E
        \<and> ask_table s b = Some ask \<and> i \<in> set (ask_nft_ids ask)
        \<and> amount quantity = amount (ask_amount ask) \<and> now E < ask_expiration ask)"
proof (cases "keeps_owner i s t")
  case True
  then show ?thesis using assms(3) by (simp add: keeps_owner_def)
next
  case False
  have "execute C E a s \<noteq> Inr t"
    using False execute_cases [of C E a s t] token_action_locked [OF _ assms(2), of C E t] market_frame_owner [of s t i]
    by blast
  moreover have "t \<noteq> s" using False keeps_owner_same by blast
  ultimately obtain payer to quantity memo where p: "a = Transfer payer to quantity memo" "code \<noteq> self E"
      "purchase C E payer to quantity memo s = Inr t"
    using dispatch_purchase [OF assms(1)] by blast
  from p(3) obtain buyer b where "purchase_nft C E payer buyer b quantity s = Inr t"
    using False keeps_owner_same [of t s i] market_frame_owner purchase_licence_frame
    by (auto elim!: purchase_cases)
  from purchase_nft_locked [OF this assms(2)] False p show ?thesis by blast
qed

section \<open>Transfers and purchases\<close>


lemma unlock_loop_tables:
  assumes "for_each (unlock_nft e) ids s = Inr t"
  shows "ask_table t = ask_table s" "dream_table t = dream_table s"
    "stats_table t = stats_table s" "account_table t = account_table s" "outbox t = outbox s"
proof -
  have "ask_table t = ask_table s \<and> dream_table t = dream_table s \<and> stats_table t = stats_table s
      \<and> account_table t = account_table s \<and> outbox t = outbox s"
    using assms by (rule for_each_inv) (auto simp: unlock_nft_def)
  then show "ask_table t = ask_table s" "dream_table t = dream_table s"
    "stats_table t = stats_table s" "account_table t = account_table s" "outbox t = outbox s" by auto
qed

lemma pay_fees_sent:
  "outbox (pay_fees E m s) = outbox s @
     map (\<lambda>(account, a). Token_Transfer (self E) account a ''sale of dreamoji'') (filter (\<lambda>(account, a). account \<noteq> self E) m)"
proof (induction m arbitrary: s)
  case (Cons p m)
  then show ?case by (cases p) (simp add: pay_fees_cons send_def)
qed (simp add: pay_fees_def)


section \<open>Examples\<close>

lemmas demo_move_eval = transfernft_def demo_env_def table_get_def table_erase_def owner_step_def
  move_token_def sub_balance_def add_balance_def send_def Let_def demo_eval demo_state_sel demo_token_def
  demo_stats_def numeral_3_eq_3

lemma demo_transfer:
  "\<exists>t d. transfernft chain_cdt (demo_env 6) 6 7 [0] demo_state = Inr t \<and> dream_table t 0 = Some d \<and> dr_owner d = 7"
  by (simp add: demo_move_eval)

text \<open>The same state with token 0 for sale.\<close>

definition demo_listed :: dreamoji where
  "demo_listed = demo_state\<lparr>lock_table := [0 \<mapsto> \<lparr>lk_nft_id = 0\<rparr>],
     ask_table := [0 \<mapsto> \<lparr>ask_batch_id = 0, ask_nft_ids = [0], ask_seller = 6, ask_amount = demo_price 1000,
       ask_expiration = 4600\<rparr>]\<rparr>"

lemma demo_listed_transfer:
  "\<exists>t. dispatch chain_cdt (demo_env 6) 1 (Transfernft 6 7 [1]) demo_listed = Inr t"
  by (simp add: dispatch_def demo_move_eval demo_listed_def)

lemma demo_listed_fees:
  "calcfees chain_cdt [0] (demo_price 1000) 6 demo_listed = Inr [(3, demo_price 125), (6, demo_price 875)]"
  using demo_fees by (simp add: calcfees_def fee_step_def [abs_def] demo_listed_def)

lemma demo_purchase:
  "\<exists>t. purchase_nft chain_cdt (demo_env 1) 8 7 0 (demo_price 1000) demo_listed = Inr t"
  by (simp add: purchase_nft_def demo_listed_def demo_listed_fees [unfolded demo_listed_def] pay_fees_def
      unlock_nft_def demo_price_sel demo_move_eval)

theorem token_identity_witness:
  "\<exists>t d. transfernft chain_cdt (demo_env 6) 6 7 [0] demo_state = Inr t \<and> dream_table t 0 = Some d
    \<and> dr_owner d = 7 \<and> ident d = ident (demo_token 0)"
proof -
  let ?Q = "\<lambda>E. stale E = (\<lambda>i. i)"
  obtain t d where t: "transfernft chain_cdt (demo_env 6) 6 7 [0] demo_state = Inr t"
    and d: "dream_table t 0 = Some d" "dr_owner d = 7"
    using demo_transfer by blast
  then have "dispatch chain_cdt (demo_env 6) 1 (Transfernft 6 7 [0]) demo_state = Inr t"
    by (simp add: dispatch_def demo_env_def)
  then have "runs chain_cdt ?Q demo_state 1 t"
    using runs.step [OF runs.start, of ?Q "demo_env 6" chain_cdt 1 _ demo_state] by (simp add: demo_env_def)
  then have "\<forall>i d d'. dream_table demo_state i = Some d \<and> dream_table t i = Some d' \<longrightarrow> ident d = ident d'"
    using token_identity [OF chain.cdt_library_axioms demo_runs, of 1 t] by simp
  moreover have "dream_table demo_state 0 = Some (demo_token 0)" by (simp add: demo_state_sel)
  ultimately have "ident d = ident (demo_token 0)" using d(1) by metis
  with t d show ?thesis by blast
qed

theorem locked_token_stays_witness:
  "\<exists>t d. dispatch chain_cdt (demo_env 6) 1 (Transfernft 6 7 [1]) demo_listed = Inr t
    \<and> dream_table t 0 = Some d \<and> dr_owner d = 6"
proof -
  obtain t where t: "dispatch chain_cdt (demo_env 6) 1 (Transfernft 6 7 [1]) demo_listed = Inr t"
    using demo_listed_transfer ..
  then have "\<exists>d'. dream_table t 0 = Some d' \<and> dr_owner d' = dr_owner (demo_token 0)"
    using locked_token_stays [OF t, of 0 "demo_token 0"] by (simp add: demo_listed_def demo_state_sel)
  with t show ?thesis by (auto simp: demo_token_def)
qed



end
