(* ===== verification/Dreamoji_Links.thy ===== *)
theory Dreamoji_Links
  imports Dreamoji_Tokens
begin

text \<open>
  Links between tokens, the recursion over them, and the scope of licences: how deep a change
  of owner nests, what a cycle of links does, and where licences can be found again.
\<close>

section \<open>The recursion over links\<close>

lemma for_each_cong_inv:
  assumes "\<And>x s. x \<in> set xs \<Longrightarrow> I s \<Longrightarrow> f x s = g x s"
    and "\<And>x s t. x \<in> set xs \<Longrightarrow> I s \<Longrightarrow> f x s = Inr t \<Longrightarrow> I t" and "I s"
  shows "for_each f xs s = for_each g xs s"
  using assms
proof (induction xs arbitrary: s)
  case (Cons x xs)
  have f: "f x s = g x s" using Cons.prems by simp
  show ?case
  proof (cases "g x s")
    case (Inr t)
    then have "I t" using Cons.prems(2) [of x s t] Cons.prems(3) f by simp
    have "for_each f xs t = for_each g xs t"
      by (rule Cons.IH) (use \<open>I t\<close> in \<open>blast intro: Cons.prems list.set_intros(2)\<close>)+
    with f Inr show ?thesis by simp
  qed (simp add: f)
qed simp

lemma handed_children:
  assumes "handed_to to s t"
  shows "map_option dr_children (dream_table t i) = map_option dr_children (dream_table s i)"
  using handed_token [OF assms, of i] by auto

text \<open>Ranks that decrease from a token to its children.\<close>

definition ranked :: "(u64 \<Rightarrow> nat) \<Rightarrow> dreamoji \<Rightarrow> bool" where
  "ranked rank s \<longleftrightarrow>
     (\<forall>i d. dream_table s i = Some d \<longrightarrow> (\<forall>c \<in> set (dr_children d). rank c < rank i))"

lemma ranked_handed:
  assumes "handed_to to s t" and "ranked rank s"
  shows "ranked rank t"
  unfolding ranked_def
proof (intro allI impI ballI)
  fix i d c assume "dream_table t i = Some d" "c \<in> set (dr_children d)"
  with handed_token [OF assms(1), of i] assms(2) show "rank c < rank i"
    by (cases "dream_table s i") (auto simp: ranked_def)
qed

lemma owner_step_cong:
  assumes "\<And>d. dream_table s i = Some d \<Longrightarrow> dr_children d \<noteq> [] \<Longrightarrow> f (dr_children d) s = g (dr_children d) s"
  shows "owner_step f C from to istransfer i s = owner_step g C from to istransfer i s"
  using assms unfolding owner_step_def by (cases "dream_table s i") simp_all

lemma changeowner_more:
  assumes "ranked rank s" and "\<forall>i \<in> set ids. rank i < n" and "n \<le> m"
  shows "changeowner (Suc n) C from to istransfer ids s = changeowner (Suc m) C from to istransfer ids s"
  using assms
proof (induction n arbitrary: m ids istransfer s)
  case (Suc n)
  then obtain m' where m: "m = Suc m'" "n \<le> m'" by (cases m) auto
  have "for_each (owner_step (changeowner (Suc n) C from to False) C from to istransfer) ids s =
        for_each (owner_step (changeowner m C from to False) C from to istransfer) ids s"
  proof (rule for_each_cong_inv [where I = "ranked rank"])
    fix i s assume i: "i \<in> set ids" "ranked rank s"
    show "owner_step (changeowner (Suc n) C from to False) C from to istransfer i s =
        owner_step (changeowner m C from to False) C from to istransfer i s"
    proof (rule owner_step_cong)
      fix d assume "dream_table s i = Some d"
      with i Suc.prems(2) have "\<forall>c \<in> set (dr_children d). rank c < n"
        by (force simp: ranked_def)
      then show "changeowner (Suc n) C from to False (dr_children d) s = changeowner m C from to False (dr_children d) s"
        unfolding m(1) using Suc.IH i(2) m(2) by blast
    qed
  next
    fix i s t assume "ranked rank s" "owner_step (changeowner (Suc n) C from to False) C from to istransfer i s = Inr t"
    then show "ranked rank t" using owner_step_handed(1) ranked_handed by blast
  qed (rule Suc.prems(1))
  then show ?case by simp
qed simp

text \<open>A set of tokens each of which has a child in the set.\<close>

definition link_cycle :: "u64 set \<Rightarrow> dreamoji \<Rightarrow> bool" where
  "link_cycle S s \<longleftrightarrow>
     (\<forall>i \<in> S. \<exists>d. dream_table s i = Some d \<and> (\<exists>c \<in> S. c \<in> set (dr_children d)))"

lemma link_cycle_handed:
  assumes "handed_to to s t" and "link_cycle S s"
  shows "link_cycle S t"
  unfolding link_cycle_def
proof
  fix i assume "i \<in> S"
  then obtain d c where "dream_table s i = Some d" "c \<in> S" "c \<in> set (dr_children d)"
    using assms(2) by (auto simp: link_cycle_def)
  with handed_token [OF assms(1), of i] show "\<exists>d. dream_table t i = Some d \<and> (\<exists>c \<in> S. c \<in> set (dr_children d))"
    by fastforce
qed

lemma changeowner_cycle:
  assumes "link_cycle S s" and "i \<in> S" and "i \<in> set ids"
  shows "changeowner depth C from to istransfer ids s \<noteq> Inr t"
  using assms
proof (induction depth arbitrary: i ids istransfer s t)
  case (Suc depth)
  let ?f = "owner_step (changeowner depth C from to False) C from to istransfer"
  show ?case
  proof
    assume run: "changeowner (Suc depth) C from to istransfer ids s = Inr t"
    obtain xs ys where ids: "ids = xs @ i # ys" using Suc.prems(3) by (meson split_list)
    from run obtain u v where 1: "for_each ?f xs s = Inr u" and 2: "?f i u = Inr v" and "length xs \<le> 20"
      by (auto simp: ids for_each_append)
    then have "changeowner (Suc depth) C from to istransfer xs s = Inr u" by simp
    then have cyc: "link_cycle S u" using changeowner_handed link_cycle_handed Suc.prems(1) by blast
    from 2 obtain d w where d: "dream_table u i = Some d"
      "(if dr_children d \<noteq> [] then changeowner depth C from to False (dr_children d) u else Inr u) = Inr w"
      by (rule owner_step_cases)
    obtain c where c: "c \<in> S" "c \<in> set (dr_children d)"
      using cyc Suc.prems(2) d(1) by (auto simp: link_cycle_def)
    then have "dr_children d \<noteq> []" by auto
    with d(2) have "changeowner depth C from to False (dr_children d) u = Inr w" by simp
    with Suc.IH [OF cyc c(1) c(2)] show False by blast
  qed
qed simp


text \<open>
  C21: A token that reaches itself through its children can no longer be moved: whatever the call
  depth, a transfer of it and a purchase of a sale that lists it abort.
\<close>

theorem link_cycle_blocks:
  assumes "link_cycle S s" and "i \<in> S"
  shows "(i \<in> set nft_ids \<longrightarrow> (\<exists>e. transfernft C E from to nft_ids s = Inl e))
    \<and> (\<forall>ask. ask_table s b = Some ask \<and> i \<in> set (ask_nft_ids ask) \<longrightarrow>
        (\<exists>e. purchase_nft C E payer buyer b quantity s = Inl e))"
proof (intro conjI impI allI)
  assume "i \<in> set nft_ids"
  then have "transfernft C E from to nft_ids s \<noteq> Inr t" for t
    using changeowner_cycle [OF assms] by (auto elim!: transfernft_cases)
  then show "\<exists>e. transfernft C E from to nft_ids s = Inl e"
    by (cases "transfernft C E from to nft_ids s") auto
next
  fix ask assume ask: "ask_table s b = Some ask \<and> i \<in> set (ask_nft_ids ask)"
  have "purchase_nft C E payer buyer b quantity s \<noteq> Inr t" for t
  proof
    assume "purchase_nft C E payer buyer b quantity s = Inr t"
    then show False
    proof (rule purchase_nft_cases)
      fix ask' m u v
      assume *: "ask_table s b = Some ask'"
        "for_each (unlock_nft ''dreamoji not found in lock table'') (ask_nft_ids ask') (pay_fees E m s) = Inr u"
        "changeowner (call_depth E) C (ask_seller ask') buyer False (ask_nft_ids ask') u = Inr v"
      have "dream_table u = dream_table (pay_fees E m s)"
        using *(2) by (rule for_each_inv) (auto simp: unlock_nft_def)
      then have "link_cycle S u" using assms(1) by (simp add: link_cycle_def pay_fees_tables)
      with ask *(1,3) changeowner_cycle [OF _ assms(2)] show False by auto
    qed
  qed
  then show "\<exists>e. purchase_nft C E payer buyer b quantity s = Inl e"
    by (cases "purchase_nft C E payer buyer b quantity s") auto
qed

text \<open>
  The links of the example: token 1 is linked to token 0, unlinked again by naming another
  parent, which leaves it among the children of token 0, and then token 0 is linked to token 1.
\<close>

definition demo_links :: "(env \<times> name \<times> action) list" where
  "demo_links = [(demo_env 6, 1, Linknfts [1] 0 6), (demo_env 6, 1, Unlinknfts [1] 1 6),
     (demo_env 6, 1, Linknfts [0] 1 6)]"

lemma demo_cycle:
  "\<exists>s. run_all chain_cdt demo_links demo_state = Inr s \<and> link_cycle {0, 1} s \<and> link_table s 1 = None"
  by (simp add: demo_links_def dispatch_def demo_env_def linknfts_def link_one_def unlinknfts_def unlink_one_def
      send_def Let_def table_emplace_def table_get_def demo_state_sel demo_token_def link_cycle_def)

theorem link_cycle_blocks_witness:
  "\<exists>s. run_all chain_cdt demo_links demo_state = Inr s \<and> link_table s 1 = None
    \<and> (\<exists>e. transfernft chain_cdt (demo_env 6) 6 7 [1] s = Inl e)"
proof -
  obtain s where "run_all chain_cdt demo_links demo_state = Inr s" "link_cycle {0, 1} s" "link_table s 1 = None"
    using demo_cycle by blast
  then show ?thesis using link_cycle_blocks [of "{0, 1}" s 1 "[1]" chain_cdt "demo_env 6" 6 7] by auto
qed


section \<open>Licences\<close>

text \<open>Every licence is filed under the account of the contract.\<close>

definition filed_at :: "name \<Rightarrow> dreamoji \<Rightarrow> bool" where
  "filed_at me s \<longleftrightarrow> (\<forall>n i. licence_table s (n, i) \<noteq> None \<longrightarrow> n = me)"

lemma filed_atD: "filed_at me s \<Longrightarrow> licence_table s (n, i) = Some l \<Longrightarrow> n = me"
  unfolding filed_at_def by blast

lemma filed_at_sub:
  assumes "filed_at me s" and "dom (licence_table t) \<subseteq> dom (licence_table s)"
  shows "filed_at me t"
  unfolding filed_at_def
proof (intro allI impI)
  fix n i assume "licence_table t (n, i) \<noteq> None"
  then have "(n, i) \<in> dom (licence_table s)" using assms(2) by blast
  then show "n = me" using filed_atD [OF assms(1)] by blast
qed

lemma filed_at_same: "licence_table t = licence_table s \<Longrightarrow> filed_at me s \<Longrightarrow> filed_at me t"
  by (simp add: filed_at_def)

lemma filed_at_send [simp]: "filed_at me (send m s) = filed_at me s"
  by (simp add: filed_at_def send_def)

lemma for_each_filed:
  assumes "for_each f xs s = Inr t" and "filed_at me s"
    and "\<And>x s t. x \<in> set xs \<Longrightarrow> filed_at me s \<Longrightarrow> f x s = Inr t \<Longrightarrow> filed_at me t"
  shows "filed_at me t"
  using assms(1) by (rule for_each_inv) (use assms(2,3) in auto)

lemma filed_at_add:
  assumes "filed_at me s" and "licence_table t = licence_table s"
  shows "filed_at me (t\<lparr>licence_table := (licence_table t)((me, n) \<mapsto> l)\<rparr>)"
  unfolding filed_at_def
proof (intro allI impI)
  fix n' i
  assume "licence_table (t\<lparr>licence_table := (licence_table t)((me, n) \<mapsto> l)\<rparr>) (n', i) \<noteq> None"
  then show "n' = me" using assms(2) filed_atD [OF assms(1)] by (cases "n' = me") auto
qed

lemma lock_licences:
  "lock_nft i s = Inr t \<Longrightarrow> licence_table t = licence_table s"
  "lock_if_free i s = Inr t \<Longrightarrow> licence_table t = licence_table s"
  "unlock_nft e i s = Inr t \<Longrightarrow> licence_table t = licence_table s"
  by (auto simp: lock_nft_def lock_if_free_def unlock_nft_def split: if_splits)

lemma createlicence_filed:
  "createlicence depth C E nft_id owner to period relicense s = Inr t \<Longrightarrow> filed_at (self E) s \<Longrightarrow> filed_at (self E) t"
proof (induction depth arbitrary: nft_id s t)
  case (Suc depth)
  from Suc.prems(1) show ?case
  proof (rule createlicence_cases)
    fix n and s1 :: dreamoji and s2 and token :: dreams
    let ?s1 = "s1\<lparr>licence_table := (licence_table s1)((self E, n) \<mapsto>
        licence_row C E nft_id owner to period relicense n)\<rparr>"
    assume 1: "nextlicenceid s = Inr (n, s1)" and 2: "lock_if_free nft_id ?s1 = Inr s2"
      and 3: "for_each (\<lambda>child_id. createlicence depth C E child_id owner to period relicense)
       (dr_children token) (send (Log_License n) s2) = Inr t"
    have "licence_table s1 = licence_table s" using 1 by (auto simp: nextlicenceid_def split: option.splits)
    then have "filed_at (self E) ?s1" by (rule filed_at_add [OF Suc.prems(2)])
    then have "filed_at (self E) s2" by (rule filed_at_same [OF lock_licences(2) [OF 2]])
    then have "filed_at (self E) (send (Log_License n) s2)" by (simp only: filed_at_send)
    with 3 show ?thesis by (rule for_each_filed) (rule Suc.IH)
  qed
qed simp

lemma for_each_licences:
  assumes "for_each f xs s = Inr t" and "\<And>x s t. f x s = Inr t \<Longrightarrow> licence_table t = licence_table s"
  shows "licence_table t = licence_table s"
  using assms(1) by (rule for_each_inv) (auto dest: assms(2))

lemma extend_filed: "extend C E owner i period s = Inr t \<Longrightarrow> filed_at me s \<Longrightarrow> filed_at me t"
  by (rule filed_at_sub, assumption) (auto simp: extend_def Let_def send_def split: if_splits)

lemma revoke_one_filed: "revoke_one E owner payee i s = Inr t \<Longrightarrow> filed_at me s \<Longrightarrow> filed_at me t"
  by (rule filed_at_sub, assumption) (auto simp: revoke_one_def Let_def split: if_splits)

lemma revoke_filed: "revoke E owner payee ids s = Inr t \<Longrightarrow> filed_at me s \<Longrightarrow> filed_at me t"
  by (auto simp: revoke_def Let_def intro: for_each_filed revoke_one_filed)

lemma license_filed:
  assumes "license C E owner to ids period relicense s = Inr t" and "filed_at (self E) s"
  shows "filed_at (self E) t"
  using license_loop [OF assms(1)]
proof (rule for_each_filed)
  show "filed_at (self E) (send (Notify owner) s)" by (simp add: assms(2))
qed (elim check_InrE, rule createlicence_filed)

lemma purchase_licence_filed:
  assumes "purchase_licence C E payer to i q s = Inr t" and "filed_at (self E) s"
  shows "filed_at (self E) t"
  using assms(1) unfolding purchase_licence_def Let_def
proof (elim check_InrE bind_res_InrE, goal_cases)
  case (1 sale)
  show ?case
    by (rule createlicence_filed [OF 1(5)]) (use assms(2) in \<open>simp add: filed_at_def send_def\<close>)
qed

text \<open>No other action touches the licences.\<close>

lemma unlock_loop_licences:
  "for_each (unlock_nft e) ids s = Inr t \<Longrightarrow> licence_table t = licence_table s"
  by (erule for_each_licences) (rule lock_licences)

lemma sale_licences:
  "nftokensale C E seller ids price period s = Inr t \<Longrightarrow> licence_table t = licence_table s"
  "licencesale C E seller price ids limit period lperiod s = Inr t \<Longrightarrow> licence_table t = licence_table s"
  "endnftsale E seller i s = Inr t \<Longrightarrow> licence_table t = licence_table s"
  "endlcncsale E seller i s = Inr t \<Longrightarrow> licence_table t = licence_table s"
proof -
  have ask: "ask_one seller i s = Inr t \<Longrightarrow> licence_table t = licence_table s" for i s t
    by (auto simp: ask_one_def lock_nft_def)
  then show "nftokensale C E seller ids price period s = Inr t \<Longrightarrow> licence_table t = licence_table s"
    by (auto simp: nftokensale_def dest!: for_each_licences)
  have one: "licence_sale_one C E seller price limit period lperiod i s = Inr t \<Longrightarrow>
      licence_table t = licence_table s" for i s t
    by (auto simp: licence_sale_one_def dest!: lock_licences(2))
  show "licencesale C E seller price ids limit period lperiod s = Inr t \<Longrightarrow> licence_table t = licence_table s"
    using for_each_licences [of "licence_sale_one C E seller price limit period lperiod", OF _ one]
    by (auto simp: licencesale_def Let_def send_def)
qed (auto simp: endnftsale_def endlcncsale_def dest!: unlock_loop_licences lock_licences(3))

lemma link_licences:
  "linknfts E ids i owner s = Inr t \<Longrightarrow> licence_table t = licence_table s"
  "unlinknfts E ids i owner s = Inr t \<Longrightarrow> licence_table t = licence_table s"
proof -
  have link: "link_one p i s = Inr t \<Longrightarrow> licence_table t = licence_table s" for p i s t
    by (auto simp: link_one_def)
  show "linknfts E ids i owner s = Inr t \<Longrightarrow> licence_table t = licence_table s"
    using for_each_licences [of "link_one p" for p, OF _ link]
    by (fastforce simp: linknfts_def Let_def send_def)
  have "for_each unlink_one ids (s, cs) = Inr r \<Longrightarrow> licence_table (fst r) = licence_table s" for s cs r
    by (erule for_each_inv) (auto simp: unlink_one_def)
  then show "unlinknfts E ids i owner s = Inr t \<Longrightarrow> licence_table t = licence_table s"
    by (fastforce simp: unlinknfts_def Let_def send_def)
qed

lemma mint_licences: "mint to cat tok q uri s = Inr t \<Longrightarrow> licence_table t = licence_table s"
  by (auto simp: mint_def nextnftid_def send_def split: option.splits)

lemma mint_loop_licences:
  "mint_loop C to cat tok uri one n q s = Inr t \<Longrightarrow> licence_table t = licence_table s"
proof (induction n arbitrary: q s)
  case (Suc n)
  then show ?case by (fastforce dest: mint_licences)
qed simp

lemma balance_licences:
  "add_balance C owner cat tok i q s = Inr t \<Longrightarrow> licence_table t = licence_table s"
  "sub_balance C owner i q s = Inr t \<Longrightarrow> licence_table t = licence_table s"
  by (auto elim!: add_balance_frame sub_balance_frame)

lemma burn_token_licences: "burn_token C E owner i s = Inr t \<Longrightarrow> licence_table t = licence_table s"
  by (auto elim!: burn_token_cases dest!: balance_licences)

lemma token_action_licences:
  assumes "token_action C E s t"
  shows "licence_table t = licence_table s"
  using assms
proof cases
  case (2 issuer partner cat tok fungible burnable sellable transferable split uri days cap)
  then show ?thesis by (auto elim!: create_cases)
next
  case (3 to cat tok quantity uri memo)
  then show ?thesis
    by (auto elim!: issue_cases simp: mint_units_def dest!: mint_loop_licences balance_licences split: if_splits)
next
  case (5 owner ids)
  then show ?thesis
    by (auto simp: burnnft_def dest!: for_each_licences [OF _ burn_token_licences])
next
  case (6 owner i quantity)
  then show ?thesis by (auto elim!: burnft_cases dest!: balance_licences)
next
  case (7 payer to ids)
  then show ?thesis by (auto elim!: transfernft_cases dest: handed_to_tables(8) [OF changeowner_handed])
next
  case (8 payer to cat tok quantity memo)
  then show ?thesis by (auto simp: transferft_def Let_def send_def dest!: balance_licences)
qed (auto simp: instantiate_def freezemaxsup_def Let_def)

lemma execute_filed:
  assumes "execute C E a s = Inr t" and "filed_at (self E) s"
  shows "filed_at (self E) t"
proof -
  have same: "filed_at (self E) t" if "licence_table t = licence_table s"
    using filed_at_same [OF that assms(2)] .
  have tok: "filed_at (self E) t" if "token_action C E s t"
    by (rule same [OF token_action_licences [OF that]])
  show ?thesis
    using assms(1)
    by (cases a; simp only: execute.simps)
      ((rule tok, erule token_action.intros) | (rule same, erule sale_licences link_licences)
        | (erule license_filed extend_filed revoke_filed, rule assms(2)) | (rule same, fastforce))+
qed

lemma purchase_nft_licences:
  assumes "purchase_nft C E payer buyer i q s = Inr t"
  shows "licence_table t = licence_table s"
  using assms
proof (rule purchase_nft_cases)
  fix ask m u v
  assume 1: "for_each (unlock_nft ''dreamoji not found in lock table'') (ask_nft_ids ask) (pay_fees E m s) = Inr u"
    and 2: "changeowner (call_depth E) C (ask_seller ask) buyer False (ask_nft_ids ask) u = Inr v"
    and t: "t = v\<lparr>outbox := outbox v @ [Log_Sale (ask_nft_ids ask) (ask_seller ask) payer buyer],
           ask_table := table_erase (ask_table v) i\<rparr>"
  show ?thesis
    using handed_to_tables(8) [OF changeowner_handed [OF 2]] unlock_loop_licences [OF 1]
    by (simp add: t pay_fees_tables)
qed

lemma dispatch_filed:
  assumes "dispatch C E code a s = Inr t" and "filed_at (self E) s"
  shows "filed_at (self E) t"
proof -
  have "filed_at (self E) t" if "purchase C E payer to quantity memo s = Inr t" for payer to quantity memo
    using that
  proof (rule purchase_cases)
    fix buyer i assume "purchase_nft C E payer buyer i quantity s = Inr t"
    then show ?thesis by (rule filed_at_same [OF purchase_nft_licences assms(2)])
  qed (use assms(2) purchase_licence_filed in blast)+
  then show ?thesis
    using dispatch_purchase [OF assms(1)] execute_filed [OF _ assms(2)] assms(2) by blast
qed

lemma runs_filed:
  assumes "runs C Q s n t" and "\<And>E. Q E \<Longrightarrow> self E = me" and "filed_at me s"
  shows "filed_at me t"
  using assms by (induction rule: runs.induct) (auto dest: dispatch_filed)

text \<open>
  C22: \<open>extend\<close> and \<open>revoke\<close> can only be used by the contract's own account: they look licences up
  in the scope of their owner, while \<open>_createlicence\<close> files every licence in the scope of the
  contract. In every reachable state both abort for every other account, whatever the
  authorizations, so a licence of an ordinary owner never ends and its token stays locked.
\<close>

theorem licences_out_of_reach:
  assumes "\<And>E. Q E \<Longrightarrow> self E = me" and "runs C Q empty_dreamoji n s" and "owner \<noteq> me"
  shows "(\<exists>e. extend C E owner lcnc_id period s = Inl e)
    \<and> (\<exists>e. revoke E owner from lcnc_ids s = Inl e)"
proof -
  have "filed_at me empty_dreamoji" by (simp add: filed_at_def empty_dreamoji_def)
  then have "filed_at me s" using runs_filed [OF assms(2,1)] by blast
  then have none: "licence_table s (owner, i) = None" for i
    using assms(3) by (cases "licence_table s (owner, i)") (auto dest: filed_atD)
  have "extend C E owner lcnc_id period s \<noteq> Inr t" for t
    using none by (auto simp: extend_def Let_def send_def)
  moreover have "revoke E owner from lcnc_ids s \<noteq> Inr t" for t
    using none by (cases lcnc_ids) (auto simp: revoke_def revoke_one_def Let_def send_def)
  ultimately show ?thesis
    by (cases "extend C E owner lcnc_id period s"; cases "revoke E owner from lcnc_ids s") auto
qed

theorem licences_out_of_reach_witness:
  "(\<exists>e. extend chain_cdt (demo_env 6) 6 0 60 demo_state = Inl e)
    \<and> (\<exists>e. revoke (demo_env 6) 6 [7] [0] demo_state = Inl e)"
proof (rule licences_out_of_reach [where Q = "\<lambda>E. self E = 1" and me = 1])
  show "runs chain_cdt (\<lambda>E. self E = 1) empty_dreamoji 3 demo_state"
    using runs_run_all [OF demo_run, of "\<lambda>E. self E = 1"]
    by (simp add: demo_acts_def demo_env_def numeral_3_eq_3)
qed simp_all
end
