(* ===== verification/Authority.thy ===== *)
theory Authority
  imports Prelude Name_Type
begin

text \<open>
  Authorities and the checker that decides whether signatures satisfy them
  (\<open>libraries/chain/include/eosio/chain/authority.hpp\<close> and \<open>authority_checker.hpp\<close>). Public keys are any
  linearly ordered type; where the authority of a permission comes from is a parameter of the
  checker, as in the source.
\<close>

section \<open>Authorities\<close>

text \<open>\<open>permission_level\<close> of \<open>action.hpp\<close>, ordered by the actor and then the permission.\<close>

datatype permission_level = Permission_Level (actor: name) (permission: name)

definition permission_level_le :: "permission_level \<Rightarrow> permission_level \<Rightarrow> bool" where
  "permission_level_le p q \<longleftrightarrow>
     actor p < actor q \<or> actor p = actor q \<and> permission p \<le> permission q"

definition permission_level_less :: "permission_level \<Rightarrow> permission_level \<Rightarrow> bool" where
  "permission_level_less p q \<longleftrightarrow>
     actor p < actor q \<or> actor p = actor q \<and> permission p < permission q"

instantiation permission_level :: linorder
begin

definition less_eq_permission_level :: "permission_level \<Rightarrow> permission_level \<Rightarrow> bool" where
  "less_eq_permission_level = permission_level_le"

definition less_permission_level :: "permission_level \<Rightarrow> permission_level \<Rightarrow> bool" where
  "less_permission_level = permission_level_less"

instance
  by standard (auto simp: less_eq_permission_level_def less_permission_level_def permission_level_le_def
    permission_level_less_def permission_level.expand)

end

type_synonym weight_type = u16

record permission_level_weight =
  plw_permission :: permission_level
  plw_weight :: weight_type

record 'k key_weight =
  kw_key :: 'k
  kw_weight :: weight_type

record wait_weight =
  ww_wait_sec :: u32
  ww_weight :: weight_type

record 'k authority =
  threshold :: u32
  keys :: "'k key_weight list"
  accounts :: "permission_level_weight list"
  waits :: "wait_weight list"

definition delay_waits :: "u32 \<Rightarrow> wait_weight list" where
  "delay_waits delay_sec =
     (if delay_sec > 0 then [\<lparr>ww_wait_sec = delay_sec, ww_weight = 1\<rparr>] else [])"

definition key_authority :: "'k \<Rightarrow> u32 \<Rightarrow> 'k authority" where
  "key_authority k delay_sec =
     \<lparr>threshold = (if delay_sec > 0 then 2 else 1), keys = [\<lparr>kw_key = k, kw_weight = 1\<rparr>],
      accounts = [], waits = delay_waits delay_sec\<rparr>"

definition account_authority :: "permission_level \<Rightarrow> u32 \<Rightarrow> 'k authority" where
  "account_authority p delay_sec =
     \<lparr>threshold = (if delay_sec > 0 then 2 else 1), keys = [],
      accounts = [\<lparr>plw_permission = p, plw_weight = 1\<rparr>], waits = delay_waits delay_sec\<rparr>"

text \<open>
  The size an authority is billed for, each part rounded up to the alignment of 16; \<open>pack_size\<close> is the serialized size of a key.
\<close>

definition billable_size_v :: "u64 \<Rightarrow> u64" where
  "billable_size_v v = ((v + 16 - 1) div 16) * 16"

definition get_billable_size :: "('k \<Rightarrow> u64) \<Rightarrow> 'k authority \<Rightarrow> u64" where
  "get_billable_size pack_size a =
     (let accounts_size = of_nat (length (accounts a)) * billable_size_v 24;
          waits_size = of_nat (length (waits a)) * billable_size_v 16;
          keys_size = fold (\<lambda>k n. n + billable_size_v 8 + pack_size (kw_key k)) (keys a) 0
      in accounts_size + waits_size + keys_size)"

text \<open>
  \<open>validate\<close>: three loops that check the order and add up the weights in 32 bits; \<open>None\<close> is an
  early \<open>return false\<close>.
\<close>

fun key_loop :: "'k :: linorder option \<Rightarrow> 'k key_weight list \<Rightarrow> u32 \<Rightarrow> u32 option" where
  "key_loop prev [] tw = Some tw"
| "key_loop prev (k # ks) tw =
     (if (case prev of None \<Rightarrow> False | Some q \<Rightarrow> \<not> q < kw_key k) then None
      else key_loop (Some (kw_key k)) ks (tw + ucast (kw_weight k)))"

fun account_loop :: "permission_level option \<Rightarrow> permission_level_weight list \<Rightarrow> u32 \<Rightarrow> u32 option" where
  "account_loop prev [] tw = Some tw"
| "account_loop prev (a # as) tw =
     (if (case prev of None \<Rightarrow> False | Some q \<Rightarrow> q \<ge> plw_permission a) then None
      else account_loop (Some (plw_permission a)) as (tw + ucast (plw_weight a)))"

fun wait_loop :: "u32 option \<Rightarrow> wait_weight list \<Rightarrow> u32 \<Rightarrow> u32 option" where
  "wait_loop prev [] tw = Some tw"
| "wait_loop prev (w # ws) tw =
     (if (case prev of None \<Rightarrow> False | Some q \<Rightarrow> q \<ge> ww_wait_sec w) then None
      else wait_loop (Some (ww_wait_sec w)) ws (tw + ucast (ww_weight w)))"

definition validate :: "'k :: linorder authority \<Rightarrow> bool" where
  "validate auth =
     (if length (keys auth) + length (accounts auth) + length (waits auth) > 2 ^ 16 then False
      else if threshold auth = 0 then False
      else case key_loop None (keys auth) 0 of
             None \<Rightarrow> False
           | Some tw \<Rightarrow>
               (case account_loop None (accounts auth) tw of
                  None \<Rightarrow> False
                | Some tw \<Rightarrow>
                    if waits auth \<noteq> [] \<and> ww_wait_sec (hd (waits auth)) = 0 then False
                    else case wait_loop None (waits auth) tw of
                           None \<Rightarrow> False
                         | Some tw \<Rightarrow> tw \<ge> threshold auth))"

section \<open>The checker\<close>

text \<open>
  The factors of an authority in one multiset, by descending weight, and at equal weights waits
  before keys before accounts; equivalent factors keep the order they are inserted in.
\<close>

datatype 'k meta_permission =
    Meta_Account permission_level_weight
  | Meta_Key "'k key_weight"
  | Meta_Wait wait_weight

primrec get_weight :: "'k meta_permission \<Rightarrow> u32" where
  "get_weight (Meta_Account a) = ucast (plw_weight a)"
| "get_weight (Meta_Key k) = ucast (kw_weight k)"
| "get_weight (Meta_Wait w) = ucast (ww_weight w)"

primrec which_meta :: "'k meta_permission \<Rightarrow> nat" where
  "which_meta (Meta_Account a) = 0"
| "which_meta (Meta_Key k) = 1"
| "which_meta (Meta_Wait w) = 2"

definition meta_before :: "'k meta_permission \<Rightarrow> 'k meta_permission \<Rightarrow> bool" where
  "meta_before l r \<longleftrightarrow> get_weight l > get_weight r \<or>
     get_weight l = get_weight r \<and> which_meta l > which_meta r"

fun meta_insert :: "'k meta_permission \<Rightarrow> 'k meta_permission list \<Rightarrow> 'k meta_permission list" where
  "meta_insert x [] = [x]"
| "meta_insert x (y # ys) = (if meta_before x y then x # y # ys else y # meta_insert x ys)"

definition meta_permissions :: "'k authority \<Rightarrow> 'k meta_permission list" where
  "meta_permissions a =
     fold meta_insert (map Meta_Wait (waits a) @ map Meta_Key (keys a) @ map Meta_Account (accounts a)) []"

datatype permission_cache_status = Being_Evaluated | Permission_Unsatisfied | Permission_Satisfied

type_synonym permission_cache = "permission_level \<rightharpoonup> permission_cache_status"

datatype auth_error =
    permission_query_exception
  | other_exception string

text \<open>
  The checker: what it is given, and what a check changes, the marks of the keys used so far
  and the cache.
\<close>

record 'k authority_checker =
  permission_to_authority :: "permission_level \<Rightarrow> (auth_error, 'k authority) result"
  provided_keys :: "'k list"
  provided_permissions :: "permission_level list"
  provided_delay :: int
  recursion_depth_limit :: u16

record checker_state =
  used_marks :: "bool list"
  cached :: permission_cache

type_synonym 'a checked = "(auth_error, 'a \<times> checker_state) result"

definition permission_status_in_cache :: "permission_cache \<Rightarrow> permission_level \<Rightarrow> permission_cache_status option" where
  "permission_status_in_cache permissions level =
     (case permissions level of
        Some st \<Rightarrow> Some st
      | None \<Rightarrow> permissions (Permission_Level (actor level) 0))"

definition initialize_permission_cache :: "'k authority_checker \<Rightarrow> permission_cache" where
  "initialize_permission_cache K =
     fold (\<lambda>p c. c(p \<mapsto> Permission_Satisfied)) (provided_permissions K) Map.empty"

text \<open>\<open>boost::find\<close>: the position of the first occurrence, the length when there is none.\<close>

fun find_key :: "'k \<Rightarrow> 'k list \<Rightarrow> nat" where
  "find_key k [] = 0"
| "find_key k (x # xs) = (if x = k then 0 else Suc (find_key k xs))"

text \<open>
  The visitor, on the running weight and the state. \<open>rec\<close> is the check of a nested authority,
  absent when the recursion depth has reached its limit.
\<close>

fun visit_permission :: "'k authority_checker \<Rightarrow> ('k authority \<Rightarrow> checker_state \<Rightarrow> bool checked) option \<Rightarrow>
    'k meta_permission \<Rightarrow> u32 \<Rightarrow> checker_state \<Rightarrow> u32 checked" where
  "visit_permission K rec (Meta_Wait w) tw s =
     Inr (if provided_delay K \<ge> uint (ww_wait_sec w) * 1000000 then tw + ucast (ww_weight w) else tw, s)"
| "visit_permission K rec (Meta_Key k) tw s =
     (let i = find_key (kw_key k) (provided_keys K) in
      Inr (if i \<noteq> length (provided_keys K)
           then (tw + ucast (kw_weight k), s\<lparr>used_marks := (used_marks s)[i := True]\<rparr>)
           else (tw, s)))"
| "visit_permission K rec (Meta_Account a) tw s =
     (case permission_status_in_cache (cached s) (plw_permission a) of
        None \<Rightarrow>
          (case rec of
             None \<Rightarrow> Inr (tw, s)
           | Some satisfied_rec \<Rightarrow>
               (case permission_to_authority K (plw_permission a) of
                  Inl e \<Rightarrow> if e = permission_query_exception then Inr (tw, s) else Inl e
                | Inr auth \<Rightarrow>
                    bind_res (satisfied_rec auth
                        (s\<lparr>cached := (cached s)(plw_permission a \<mapsto> Being_Evaluated)\<rparr>)) (\<lambda>(r, s).
                    if r
                    then Inr (tw + ucast (plw_weight a),
                              s\<lparr>cached := (cached s)(plw_permission a \<mapsto> Permission_Satisfied)\<rparr>)
                    else Inr (tw,
                              s\<lparr>cached := (cached s)(plw_permission a \<mapsto> Permission_Unsatisfied)\<rparr>))))
      | Some st \<Rightarrow>
          Inr (if st = Permission_Satisfied then tw + ucast (plw_weight a) else tw, s))"

text \<open>The loop over the factors, which ends as soon as the weight reaches the threshold.\<close>

fun tally :: "('k meta_permission \<Rightarrow> u32 \<Rightarrow> checker_state \<Rightarrow> u32 checked) \<Rightarrow> u32 \<Rightarrow>
    'k meta_permission list \<Rightarrow> u32 \<Rightarrow> checker_state \<Rightarrow> bool checked" where
  "tally visit thr [] tw s = Inr (False, s)"
| "tally visit thr (p # ps) tw s =
     bind_res (visit p tw s) (\<lambda>(tw, s).
     if tw \<ge> thr then Inr (True, s) else tally visit thr ps tw s)"

definition satisfied_step :: "'k authority_checker \<Rightarrow> ('k authority \<Rightarrow> checker_state \<Rightarrow> bool checked) option \<Rightarrow>
    'k authority \<Rightarrow> checker_state \<Rightarrow> bool checked" where
  "satisfied_step K rec auth s =
     bind_res (tally (visit_permission K rec) (threshold auth) (meta_permissions auth) 0 s) (\<lambda>(r, s').
     Inr (r, if r then s' else s'\<lparr>used_marks := used_marks s\<rparr>))"

text \<open>The recursion, by the number of levels left below the limit.\<close>

primrec satisfied_auth :: "'k authority_checker \<Rightarrow> nat \<Rightarrow> 'k authority \<Rightarrow> checker_state \<Rightarrow> bool checked" where
  "satisfied_auth K 0 = satisfied_step K None"
| "satisfied_auth K (Suc n) = satisfied_step K (Some (satisfied_auth K n))"

text \<open>
  The public entry points: a permission or an authority, with an optional cache to go on with,
  and with another delay. \<open>marks\<close> is \<open>_used_keys\<close> before the call.
\<close>

definition rec_limit :: "'k authority_checker \<Rightarrow> nat \<Rightarrow> ('k authority \<Rightarrow> checker_state \<Rightarrow> bool checked) option" where
  "rec_limit K n = (case n of 0 \<Rightarrow> None | Suc m \<Rightarrow> Some (satisfied_auth K m))"

definition start_state :: "'k authority_checker \<Rightarrow> bool list \<Rightarrow> permission_cache option \<Rightarrow> checker_state" where
  "start_state K marks cached_perms =
     \<lparr>used_marks = marks,
      cached = (case cached_perms of None \<Rightarrow> initialize_permission_cache K | Some c \<Rightarrow> c)\<rparr>"

definition satisfied_permission ::
  "'k authority_checker \<Rightarrow> permission_level \<Rightarrow> bool list \<Rightarrow> permission_cache option \<Rightarrow> bool checked" where
  "satisfied_permission K p marks cached_perms =
     bind_res (visit_permission K (rec_limit K (unat (recursion_depth_limit K)))
        (Meta_Account \<lparr>plw_permission = p, plw_weight = 1\<rparr>) 0 (start_state K marks cached_perms)) (\<lambda>(w, s).
     Inr (w > 0, s))"

definition satisfied_authority ::
  "'k authority_checker \<Rightarrow> 'k authority \<Rightarrow> bool list \<Rightarrow> permission_cache option \<Rightarrow> bool checked" where
  "satisfied_authority K auth marks cached_perms =
     satisfied_auth K (unat (recursion_depth_limit K)) auth (start_state K marks cached_perms)"

definition satisfied_permission_delay ::
  "'k authority_checker \<Rightarrow> permission_level \<Rightarrow> int \<Rightarrow> bool list \<Rightarrow> permission_cache option \<Rightarrow> bool checked" where
  "satisfied_permission_delay K p delay marks cached_perms =
     satisfied_permission (K\<lparr>provided_delay := delay\<rparr>) p marks cached_perms"

definition satisfied_authority_delay ::
  "'k authority_checker \<Rightarrow> 'k authority \<Rightarrow> int \<Rightarrow> bool list \<Rightarrow> permission_cache option \<Rightarrow> bool checked" where
  "satisfied_authority_delay K auth delay marks cached_perms =
     satisfied_authority (K\<lparr>provided_delay := delay\<rparr>) auth marks cached_perms"

definition filter_data_by_marker :: "'a list \<Rightarrow> bool list \<Rightarrow> bool \<Rightarrow> 'a list" where
  "filter_data_by_marker xs markers b = map snd (filter (\<lambda>(m, x). m = b) (zip markers xs))"

definition all_keys_used :: "bool list \<Rightarrow> bool" where
  "all_keys_used marks \<longleftrightarrow> list_all (\<lambda>m. m = True) marks"

definition used_keys :: "'k authority_checker \<Rightarrow> bool list \<Rightarrow> 'k list" where
  "used_keys K marks = filter_data_by_marker (provided_keys K) marks True"

definition unused_keys :: "'k authority_checker \<Rightarrow> bool list \<Rightarrow> 'k list" where
  "unused_keys K marks = filter_data_by_marker (provided_keys K) marks False"

definition make_auth_checker ::
  "(permission_level \<Rightarrow> (auth_error, 'k authority) result) \<Rightarrow> u16 \<Rightarrow> 'k list \<Rightarrow> permission_level list \<Rightarrow> int \<Rightarrow>
   'k authority_checker \<times> bool list" where
  "make_auth_checker pta limit ks ps delay =
     (\<lparr>permission_to_authority = pta, provided_keys = ks, provided_permissions = ps, provided_delay = delay,
       recursion_depth_limit = limit\<rparr>, replicate (length ks) False)"

section \<open>Validation\<close>

text \<open>The three loops of \<open>validate\<close> are one loop over a key and a weight.\<close>

fun order_loop :: "('a \<Rightarrow> 'b :: linorder) \<Rightarrow> ('a \<Rightarrow> weight_type) \<Rightarrow> 'b option \<Rightarrow> 'a list \<Rightarrow> u32 \<Rightarrow> u32 option" where
  "order_loop key weight prev [] tw = Some tw"
| "order_loop key weight prev (x # xs) tw =
     (if (case prev of None \<Rightarrow> False | Some q \<Rightarrow> \<not> q < key x) then None
      else order_loop key weight (Some (key x)) xs (tw + ucast (weight x)))"

lemma validate_loops:
  "key_loop p ks tw = order_loop kw_key kw_weight p ks tw"
  "account_loop q as tw = order_loop plw_permission plw_weight q as tw"
  "wait_loop r ws tw = order_loop ww_wait_sec ww_weight r ws tw"
  by (induction ks arbitrary: p tw, simp_all add: not_less split: option.splits)
    (induction as arbitrary: q tw, simp_all add: not_less split: option.splits,
     induction ws arbitrary: r tw, simp_all add: not_less split: option.splits)

definition weights :: "('a \<Rightarrow> weight_type) \<Rightarrow> 'a list \<Rightarrow> nat" where
  "weights weight xs = (\<Sum>x \<leftarrow> xs. unat (weight x))"

lemma weights_bound: "weights weight xs \<le> (2 ^ 16 - 1) * length xs"
proof (induction xs)
  case (Cons x xs)
  have "unat (weight x) \<le> 2 ^ 16 - 1" using unat_less_u16 [of "weight x"] by simp
  with Cons show ?case by (simp add: weights_def)
qed (simp add: weights_def)

lemma order_loop_eq:
  "order_loop key weight prev xs tw =
     (if sorted_wrt (<) (map key xs) \<and> (\<forall>q. prev = Some q \<longrightarrow> xs = [] \<or> q < key (hd xs))
      then Some (tw + of_nat (weights weight xs)) else None)"
proof (induction xs arbitrary: prev tw)
  case (Cons x xs)
  have "sorted_wrt (<) (map key (x # xs)) \<longleftrightarrow> (xs = [] \<or> key x < key (hd xs)) \<and> sorted_wrt (<) (map key xs)"
    by (cases xs) (auto intro: less_trans)
  with Cons show ?case
    by (auto simp: weights_def add.assoc split: option.splits)
qed (simp add: weights_def)

lemma sorted_positive:
  "sorted_wrt (<) (map f xs) \<Longrightarrow> xs \<noteq> [] \<Longrightarrow> (\<forall>x \<in> set xs. f x \<noteq> (0 :: u32)) \<longleftrightarrow> f (hd xs) \<noteq> 0"
  by (cases xs) (auto simp: word_gt_0 [symmetric] dest: le_less_trans [OF word_zero_le])

text \<open>
  C26: \<open>validate\<close> accepts exactly the authorities that can be satisfied: at most \<open>2\<^sup>1\<^sup>6\<close> factors,
  keys, accounts and waits in strictly ascending order without a zero wait, and a positive
  threshold that the sum of all weights reaches. The 32-bit sum of the code never wraps round.
\<close>

theorem validate_exact:
  "validate (a :: 'k :: linorder authority) \<longleftrightarrow>
     length (keys a) + length (accounts a) + length (waits a) \<le> 2 ^ 16
     \<and> sorted_wrt (<) (map kw_key (keys a)) \<and> sorted_wrt (<) (map plw_permission (accounts a))
     \<and> sorted_wrt (<) (map ww_wait_sec (waits a)) \<and> 0 \<notin> ww_wait_sec ` set (waits a)
     \<and> 0 < unat (threshold a)
     \<and> unat (threshold a) \<le> weights kw_weight (keys a) + weights plw_weight (accounts a) + weights ww_weight (waits a)"
  (is "_ \<longleftrightarrow> ?size \<and> _ \<and> _ \<and> _ \<and> ?nz \<and> _ \<and> _ \<le> ?w")
proof (cases ?size)
  case True
  have "?w \<le> (2 ^ 16 - 1) * (length (keys a) + length (accounts a) + length (waits a))"
    using weights_bound [of kw_weight "keys a"] weights_bound [of plw_weight "accounts a"]
      weights_bound [of ww_weight "waits a"] by (simp add: add_mult_distrib2)
  also have "\<dots> \<le> (2 ^ 16 - 1) * 2 ^ 16" using True by simp
  finally have w: "unat (of_nat ?w :: u32) = ?w" by (intro unat_of_nat_u32) simp
  have le: "threshold a \<le> of_nat ?w \<longleftrightarrow> unat (threshold a) \<le> ?w"
    unfolding word_le_nat_alt w ..
  have nz: "?nz \<longleftrightarrow> \<not> (waits a \<noteq> [] \<and> ww_wait_sec (hd (waits a)) = 0)" if "sorted_wrt (<) (map ww_wait_sec (waits a))"
    using sorted_positive [OF that] by force
  show ?thesis
    using True le nz
    by (auto simp: validate_def validate_loops order_loop_eq unat_gt_0 ac_simps split: if_splits)
qed (simp add: validate_def)

section \<open>What a check means\<close>

text \<open>
  The specification: the factors that hold given the permissions that hold, the weight they
  add up to, and the permissions granted by what was provided, through any number of nested
  authorities.
\<close>

fun meta_holds :: "'k authority_checker \<Rightarrow> (permission_level \<Rightarrow> bool) \<Rightarrow> 'k meta_permission \<Rightarrow> bool" where
  "meta_holds K P (Meta_Account a) \<longleftrightarrow> P (plw_permission a)"
| "meta_holds K P (Meta_Key k) \<longleftrightarrow> kw_key k \<in> set (provided_keys K)"
| "meta_holds K P (Meta_Wait w) \<longleftrightarrow> uint (ww_wait_sec w) * 1000000 \<le> provided_delay K"

definition meta_weight :: "'k authority_checker \<Rightarrow> (permission_level \<Rightarrow> bool) \<Rightarrow> 'k meta_permission list \<Rightarrow> nat" where
  "meta_weight K P ms = (\<Sum>m \<leftarrow> ms. if meta_holds K P m then unat (get_weight m) else 0)"

definition authority_weight :: "'k authority_checker \<Rightarrow> (permission_level \<Rightarrow> bool) \<Rightarrow> 'k authority \<Rightarrow> nat" where
  "authority_weight K P a =
     (\<Sum>w \<leftarrow> waits a. if uint (ww_wait_sec w) * 1000000 \<le> provided_delay K then unat (ww_weight w) else 0)
     + (\<Sum>k \<leftarrow> keys a. if kw_key k \<in> set (provided_keys K) then unat (kw_weight k) else 0)
     + (\<Sum>p \<leftarrow> accounts a. if P (plw_permission p) then unat (plw_weight p) else 0)"

inductive granted :: "'k authority_checker \<Rightarrow> permission_level \<Rightarrow> bool" for K where
  provided: "p \<in> set (provided_permissions K) \<Longrightarrow> granted K p"
| wildcard: "Permission_Level (actor p) 0 \<in> set (provided_permissions K) \<Longrightarrow> granted K p"
| authority: "permission_to_authority K p = Inr a \<Longrightarrow> (\<And>q. Q q \<Longrightarrow> granted K q) \<Longrightarrow>
    unat (threshold a) \<le> authority_weight K Q a \<Longrightarrow> granted K p"

lemma meta_weight_simps [simp]:
  "meta_weight K P [] = 0"
  "meta_weight K P (m # ms) = (if meta_holds K P m then unat (get_weight m) else 0) + meta_weight K P ms"
  "meta_weight K P (ms @ ms') = meta_weight K P ms + meta_weight K P ms'"
  by (simp_all add: meta_weight_def)

lemma meta_weight_insert: "meta_weight K P (meta_insert m ms) = meta_weight K P (m # ms)"
  by (induction ms) auto

lemma set_meta_insert: "set (meta_insert m ms) = insert m (set ms)"
  by (induction ms) auto

lemma meta_weight_fold: "meta_weight K P (fold meta_insert ms acc) = meta_weight K P ms + meta_weight K P acc"
  by (induction ms arbitrary: acc) (auto simp: meta_weight_insert)

lemma set_meta_fold: "set (fold meta_insert ms acc) = set ms \<union> set acc"
  by (induction ms arbitrary: acc) (auto simp: set_meta_insert)

lemma meta_permissions_weight: "meta_weight K P (meta_permissions a) = authority_weight K P a"
proof -
  have "meta_weight K P (map Meta_Wait ws)
      = (\<Sum>w \<leftarrow> ws. if uint (ww_wait_sec w) * 1000000 \<le> provided_delay K then unat (ww_weight w) else 0)" for ws
    by (simp add: meta_weight_def comp_def unat_u16_32 cong: if_cong)
  moreover have "meta_weight K P (map Meta_Key ks)
      = (\<Sum>k \<leftarrow> ks. if kw_key k \<in> set (provided_keys K) then unat (kw_weight k) else 0)" for ks
    by (simp add: meta_weight_def comp_def unat_u16_32 cong: if_cong)
  moreover have "meta_weight K P (map Meta_Account as)
      = (\<Sum>p \<leftarrow> as. if P (plw_permission p) then unat (plw_weight p) else 0)" for as
    by (simp add: meta_weight_def comp_def unat_u16_32 cong: if_cong)
  ultimately show ?thesis by (simp add: meta_permissions_def meta_weight_fold authority_weight_def)
qed

lemma meta_accounts:
  "Meta_Account p \<in> set (meta_permissions a) \<longleftrightarrow> p \<in> set (accounts a)"
  by (auto simp: meta_permissions_def set_meta_fold)

lemma authority_weight_mono:
  assumes "\<And>q. P q \<Longrightarrow> Q q"
  shows "authority_weight K P a \<le> authority_weight K Q a"
  unfolding authority_weight_def
  by (intro add_mono sum_list_mono order_refl) (use assms in auto)

lemma granted_iff:
  "granted K p \<longleftrightarrow> p \<in> set (provided_permissions K)
     \<or> Permission_Level (actor p) 0 \<in> set (provided_permissions K)
     \<or> (\<exists>a. permission_to_authority K p = Inr a \<and> unat (threshold a) \<le> authority_weight K (granted K) a)"
proof
  assume "granted K p"
  then show "p \<in> set (provided_permissions K) \<or> Permission_Level (actor p) 0 \<in> set (provided_permissions K)
      \<or> (\<exists>a. permission_to_authority K p = Inr a \<and> unat (threshold a) \<le> authority_weight K (granted K) a)"
  proof cases
    case (authority a Q)
    then show ?thesis using authority_weight_mono [of Q "granted K" K a] by fastforce
  qed auto
qed (auto intro: granted.intros)

lemma find_key_eq: "find_key k xs = length xs \<longleftrightarrow> k \<notin> set xs"
  by (induction xs) auto

lemma initialize_cache: "initialize_permission_cache K p =
    (if p \<in> set (provided_permissions K) then Some Permission_Satisfied else None)"
proof -
  have "fold (\<lambda>p c. c(p \<mapsto> Permission_Satisfied)) ps c p = (if p \<in> set ps then Some Permission_Satisfied else c p)" for ps c
    by (induction ps arbitrary: c) auto
  then show ?thesis by (simp add: initialize_permission_cache_def)
qed

section \<open>A check that succeeds is right\<close>

text \<open>
  The source of authorities the checker is used with refuses the empty permission name, which
  stands for every permission of an account among the provided ones.
\<close>

definition cache_sound :: "'k authority_checker \<Rightarrow> permission_cache \<Rightarrow> bool" where
  "cache_sound K c \<longleftrightarrow> (\<forall>p. c p = Some Permission_Satisfied \<longrightarrow> granted K p)"

definition judges :: "'k authority_checker \<Rightarrow> ('k authority \<Rightarrow> checker_state \<Rightarrow> bool checked) \<Rightarrow> bool" where
  "judges K f \<longleftrightarrow> (\<forall>a s r s'. f a s = Inr (r, s') \<longrightarrow> cache_sound K (cached s) \<longrightarrow>
     cache_sound K (cached s') \<and> (r \<longrightarrow> unat (threshold a) \<le> authority_weight K (granted K) a))"

locale authority_source =
  fixes K :: "'k authority_checker"
  assumes empty_permission: "permission_to_authority K (Permission_Level a 0) = Inl permission_query_exception"
begin

lemma granted_any: "granted K (Permission_Level a 0) \<Longrightarrow> Permission_Level a 0 \<in> set (provided_permissions K)"
  by (auto simp: granted_iff [of K "Permission_Level a 0"] empty_permission)

lemma status_sound:
  assumes "cache_sound K c" and "permission_status_in_cache c p = Some Permission_Satisfied"
  shows "granted K p"
proof (cases "c p")
  case None
  then have "c (Permission_Level (actor p) 0) = Some Permission_Satisfied"
    using assms(2) by (simp add: permission_status_in_cache_def)
  then have "granted K (Permission_Level (actor p) 0)" using assms(1) by (simp add: cache_sound_def)
  then show ?thesis using granted_any granted.wildcard by blast
next
  case (Some st)
  then show ?thesis using assms by (simp add: permission_status_in_cache_def cache_sound_def)
qed

lemma visit_sound:
  assumes "visit_permission K rec m tw s = Inr (tw', s')" and "cache_sound K (cached s)"
    and "\<And>f. rec = Some f \<Longrightarrow> judges K f"
  shows "cache_sound K (cached s')
    \<and> unat tw' \<le> unat tw + (if meta_holds K (granted K) m then unat (get_weight m) else 0)"
proof (cases m)
  case (Meta_Account a)
  let ?p = "plw_permission a"
  show ?thesis
  proof (cases "permission_status_in_cache (cached s) ?p")
    case None
    show ?thesis
    proof (cases rec)
      case (Some f)
      show ?thesis
      proof (cases "permission_to_authority K ?p")
        case (Inr auth)
        from assms(1) obtain r s1 where
          1: "f auth (s\<lparr>cached := (cached s)(?p \<mapsto> Being_Evaluated)\<rparr>) = Inr (r, s1)"
          and 2: "(tw', s') = (if r then (tw + ucast (plw_weight a), s1\<lparr>cached := (cached s1)(?p \<mapsto> Permission_Satisfied)\<rparr>)
                  else (tw, s1\<lparr>cached := (cached s1)(?p \<mapsto> Permission_Unsatisfied)\<rparr>))"
          by (auto simp: Meta_Account None Some Inr split: if_splits)
        have "cache_sound K (cached (s\<lparr>cached := (cached s)(?p \<mapsto> Being_Evaluated)\<rparr>))"
          using assms(2) by (simp add: cache_sound_def)
        then have 3: "cache_sound K (cached s1)" "r \<longrightarrow> granted K ?p"
          using assms(3) [OF Some] 1 Inr granted_iff [of K ?p] by (auto simp: judges_def)
        then show ?thesis
          using 2 by (auto simp: Meta_Account cache_sound_def unat_plus_le split: if_splits)
      qed (use assms in \<open>auto simp: Meta_Account None Some split: if_splits\<close>)
    qed (use assms in \<open>auto simp: Meta_Account None\<close>)
  next
    case (Some st)
    then show ?thesis
      using assms status_sound [OF assms(2), of ?p] by (auto simp: Meta_Account unat_plus_le split: if_splits)
  qed
qed (use assms in \<open>auto simp: Let_def find_key_eq unat_plus_le split: if_splits\<close>)

lemma tally_sound:
  assumes "tally (visit_permission K rec) thr ps tw s = Inr (r, s')" and "cache_sound K (cached s)"
    and "\<And>f. rec = Some f \<Longrightarrow> judges K f"
  shows "cache_sound K (cached s') \<and> (r \<longrightarrow> unat thr \<le> unat tw + meta_weight K (granted K) ps)"
  using assms(1,2)
proof (induction ps arbitrary: tw s)
  case (Cons p ps)
  from Cons.prems(1) obtain tw1 s1 where 1: "visit_permission K rec p tw s = Inr (tw1, s1)"
    and 2: "(if thr \<le> tw1 then Inr (True, s1) else tally (visit_permission K rec) thr ps tw1 s1) = Inr (r, s')"
    by auto
  note v = visit_sound [OF 1 Cons.prems(2) assms(3)]
  show ?case
  proof (cases "thr \<le> tw1")
    case True
    with 2 v show ?thesis by (auto simp: word_le_nat_alt)
  next
    case False
    with 2 v Cons.IH [of tw1 s1] show ?thesis by auto
  qed
qed simp

lemma satisfied_step_sound: "(\<And>f. rec = Some f \<Longrightarrow> judges K f) \<Longrightarrow> judges K (satisfied_step K rec)"
  by (auto simp: judges_def satisfied_step_def meta_permissions_weight [symmetric]
      dest!: tally_sound split: if_splits)

lemma satisfied_auth_sound: "judges K (satisfied_auth K n)"
  by (induction n) (auto intro: satisfied_step_sound)

lemma satisfied_permission_sound:
  assumes "satisfied_permission K p marks None = Inr (True, s)"
  shows "granted K p"
proof -
  let ?m = "Meta_Account \<lparr>plw_permission = p, plw_weight = 1\<rparr>"
  obtain w where 1: "visit_permission K (rec_limit K (unat (recursion_depth_limit K))) ?m 0 (start_state K marks None) = Inr (w, s)"
    and "w > 0"
    using assms by (auto simp: satisfied_permission_def)
  have "cache_sound K (cached (start_state K marks None))"
    by (auto simp: start_state_def cache_sound_def initialize_cache intro: granted.provided)
  moreover have "judges K f" if "rec_limit K (unat (recursion_depth_limit K)) = Some f" for f
    using that satisfied_auth_sound by (auto simp: rec_limit_def split: nat.splits)
  ultimately have "unat w \<le> (if granted K p then 1 else 0)"
    using visit_sound [OF 1] by (auto simp: unat_u16_32 split: if_splits)
  then show ?thesis using \<open>w > 0\<close> by (auto simp: word_less_nat_alt split: if_splits)
qed

end

section \<open>A check decides\<close>

text \<open>
  Where authorities refer to one another without a cycle and no deeper than the limit, where
  they are valid, and where a permission that is missing is the only error, the checker always
  answers and its answer is exact. \<open>rank\<close> bounds how deep the authority of a permission nests.
\<close>

definition well_nested :: "'k authority_checker \<Rightarrow> (permission_level \<Rightarrow> nat) \<Rightarrow> bool" where
  "well_nested K rank \<longleftrightarrow>
     (\<forall>p e. permission_to_authority K p = Inl e \<longrightarrow> e = permission_query_exception)
     \<and> (\<forall>p a. permission_to_authority K p = Inr a \<longrightarrow>
          (\<forall>q \<in> plw_permission ` set (accounts a). rank q < rank p) \<and> 0 < unat (threshold a)
          \<and> weights kw_weight (keys a) + weights plw_weight (accounts a) + weights ww_weight (waits a) < 2 ^ 32)"

lemma well_nestedD:
  assumes "well_nested K rank"
  shows "permission_to_authority K p = Inl e \<Longrightarrow> e = permission_query_exception"
    and "permission_to_authority K p = Inr a \<Longrightarrow> \<forall>q \<in> plw_permission ` set (accounts a). rank q < rank p"
    and "permission_to_authority K p = Inr a \<Longrightarrow> 0 < unat (threshold a)"
    and "permission_to_authority K p = Inr a \<Longrightarrow>
      weights kw_weight (keys a) + weights plw_weight (accounts a) + weights ww_weight (waits a) < 2 ^ 32"
  using assms unfolding well_nested_def by blast+

definition cache_exact :: "'k authority_checker \<Rightarrow> (permission_level \<Rightarrow> nat) \<Rightarrow> nat \<Rightarrow> permission_cache \<Rightarrow> bool" where
  "cache_exact K rank r c \<longleftrightarrow>
     (\<forall>p. (c p = Some Permission_Satisfied \<longrightarrow> granted K p) \<and> (c p = Some Permission_Unsatisfied \<longrightarrow> \<not> granted K p)
        \<and> (c p = Some Being_Evaluated \<longrightarrow> r \<le> rank p))
     \<and> (\<forall>a st. c (Permission_Level a 0) = Some st \<longrightarrow> st = Permission_Satisfied)
     \<and> (\<forall>p \<in> set (provided_permissions K). c p = Some Permission_Satisfied)"

definition same_open :: "permission_cache \<Rightarrow> permission_cache \<Rightarrow> bool" where
  "same_open c c' \<longleftrightarrow> (\<forall>p. c' p = Some Being_Evaluated \<longleftrightarrow> c p = Some Being_Evaluated)"

definition decides :: "'k authority_checker \<Rightarrow> (permission_level \<Rightarrow> nat) \<Rightarrow> nat \<Rightarrow> ('k authority \<Rightarrow> checker_state \<Rightarrow> bool checked) \<Rightarrow> bool" where
  "decides K rank n f \<longleftrightarrow> (\<forall>a s r p. permission_to_authority K p = Inr a \<longrightarrow> r \<le> n \<longrightarrow>
     (\<forall>q \<in> plw_permission ` set (accounts a). rank q < r) \<longrightarrow> cache_exact K rank r (cached s) \<longrightarrow>
     (\<exists>s'. f a s = Inr (unat (threshold a) \<le> authority_weight K (granted K) a, s')
        \<and> cache_exact K rank r (cached s') \<and> same_open (cached s) (cached s')))"

lemma cache_exact_mono:
  assumes "cache_exact K rank r c" and "\<And>p. c p = Some Being_Evaluated \<Longrightarrow> r' \<le> rank p"
  shows "cache_exact K rank r' c"
  using assms unfolding cache_exact_def by blast

context authority_source
begin

lemma status_exact:
  assumes "cache_exact K rank r c" and "rank p < r"
  shows "(permission_status_in_cache c p = None \<and> c p = None \<and> Permission_Level (actor p) 0 \<notin> set (provided_permissions K))
    \<or> (permission_status_in_cache c p = Some Permission_Satisfied \<and> granted K p)
    \<or> (permission_status_in_cache c p = Some Permission_Unsatisfied \<and> \<not> granted K p)"
proof (cases "c p")
  case None
  let ?any = "Permission_Level (actor p) 0"
  show ?thesis
  proof (cases "c ?any")
    case (Some st)
    then have "c ?any = Some Permission_Satisfied" using assms(1) unfolding cache_exact_def by blast
    then have "granted K ?any" using assms(1) unfolding cache_exact_def by blast
    then have "granted K p" using granted_any granted.wildcard by blast
    with \<open>c ?any = Some Permission_Satisfied\<close> None show ?thesis by (simp add: permission_status_in_cache_def)
  next
    case none: None
    then have "?any \<notin> set (provided_permissions K)" using assms(1) unfolding cache_exact_def by force
    with None none show ?thesis by (simp add: permission_status_in_cache_def)
  qed
next
  case (Some st)
  have "st \<noteq> Being_Evaluated" using Some assms unfolding cache_exact_def by fastforce
  moreover have "st = Permission_Satisfied \<Longrightarrow> granted K p" "st = Permission_Unsatisfied \<Longrightarrow> \<not> granted K p"
    using Some assms(1) unfolding cache_exact_def by blast+
  ultimately show ?thesis using Some by (cases st) (auto simp: permission_status_in_cache_def)
qed

lemma open_exact:
  assumes "cache_exact K rank r c" and "rank p < r" and "permission_to_authority K p = Inr a" and "c p = None"
  shows "cache_exact K rank (rank p) (c(p \<mapsto> Being_Evaluated))"
proof -
  have "p \<noteq> Permission_Level b 0" for b using assms(3) empty_permission [of b] by auto
  moreover have "p \<notin> set (provided_permissions K)" using assms(1,4) unfolding cache_exact_def by auto
  moreover have "\<And>q. c q = Some Being_Evaluated \<Longrightarrow> rank p \<le> rank q"
    using assms(1,2) unfolding cache_exact_def by (meson le_trans less_imp_le)
  ultimately show ?thesis using assms(1) unfolding cache_exact_def by auto
qed

lemma close_exact:
  assumes 1: "cache_exact K rank r c" and 2: "cache_exact K rank (rank p) c'"
    and 3: "same_open (c(p \<mapsto> Being_Evaluated)) c'" and 4: "c p = None"
    and "permission_to_authority K p = Inr a"
    and st: "st = (if granted K p then Permission_Satisfied else Permission_Unsatisfied)"
  shows "cache_exact K rank r (c'(p \<mapsto> st))" and "same_open c (c'(p \<mapsto> st))"
proof -
  have "p \<noteq> Permission_Level b 0" for b using assms(5) empty_permission [of b] by auto
  moreover have "p \<notin> set (provided_permissions K)" using 1 4 unfolding cache_exact_def by auto
  moreover have "\<And>q. q \<noteq> p \<Longrightarrow> c' q = Some Being_Evaluated \<Longrightarrow> r \<le> rank q"
    using 1 3 unfolding cache_exact_def same_open_def by (metis fun_upd_other)
  ultimately show "cache_exact K rank r (c'(p \<mapsto> st))"
    using 2 unfolding cache_exact_def st by auto
  show "same_open c (c'(p \<mapsto> st))"
    using 3 4 unfolding same_open_def st by auto
qed

lemma visit_exact:
  assumes "n = 0 \<and> rec = None \<or> (\<exists>m f. n = Suc m \<and> rec = Some f \<and> decides K rank m f)" and "r \<le> n"
    and "\<And>a. m = Meta_Account a \<Longrightarrow> rank (plw_permission a) < r" and "cache_exact K rank r (cached s)"
    and nest: "well_nested K rank"
  shows "\<exists>s'. visit_permission K rec m tw s
      = Inr (if meta_holds K (granted K) m then tw + get_weight m else tw, s')
    \<and> cache_exact K rank r (cached s') \<and> same_open (cached s) (cached s')"
proof (cases m)
  case (Meta_Account a)
  let ?p = "plw_permission a"
  have rank: "rank ?p < r" using assms(3) Meta_Account by blast
  then obtain k f where n: "n = Suc k" "rec = Some f" "decides K rank k f" using assms(1,2) by auto
  from status_exact [OF assms(4) rank] show ?thesis
  proof (elim disjE conjE, goal_cases)
    case None: 1
    have np: "?p \<notin> set (provided_permissions K)" using assms(4) None(2) unfolding cache_exact_def by auto
    show ?thesis
    proof (cases "permission_to_authority K ?p")
      case (Inl e)
      then have "\<not> granted K ?p" using np None(3) by (simp add: granted_iff [of K ?p])
      then show ?thesis
        using assms(4) None(1) well_nestedD(1) [OF nest Inl] by (auto simp: Meta_Account n Inl same_open_def)
    next
      case (Inr auth)
      let ?s = "s\<lparr>cached := (cached s)(?p \<mapsto> Being_Evaluated)\<rparr>"
      have g: "granted K ?p \<longleftrightarrow> unat (threshold auth) \<le> authority_weight K (granted K) auth"
        using np None(3) by (simp add: granted_iff [of K ?p] Inr)
      have "rank ?p \<le> k" using rank assms(2) n(1) by simp
      moreover have "cache_exact K rank (rank ?p) (cached ?s)"
        using open_exact [OF assms(4) rank Inr None(2)] by simp
      ultimately obtain s1 where s1: "f auth ?s = Inr (granted K ?p, s1)"
          "cache_exact K rank (rank ?p) (cached s1)" "same_open (cached ?s) (cached s1)"
        using n(3) [unfolded decides_def, rule_format, OF Inr, of "rank ?p" ?s] well_nestedD(2) [OF nest Inr]
        unfolding g by blast
      let ?st = "if granted K ?p then Permission_Satisfied else Permission_Unsatisfied"
      have "visit_permission K rec m tw s = Inr (if granted K ?p then tw + get_weight m else tw,
          s1\<lparr>cached := (cached s1)(?p \<mapsto> ?st)\<rparr>)"
        using s1(1) None(1) by (simp add: Meta_Account n Inr)
      then show ?thesis
        using close_exact [OF assms(4) s1(2) _ None(2) Inr refl] s1(3) by (simp add: Meta_Account)
    qed
  qed (rule exI [of _ s], simp add: Meta_Account same_open_def assms(4))+
qed (use assms(4) in \<open>auto simp: Let_def find_key_eq same_open_def\<close>)

lemma tally_exact:
  assumes "n = 0 \<and> rec = None \<or> (\<exists>m f. n = Suc m \<and> rec = Some f \<and> decides K rank m f)" and "r \<le> n"
    and "\<forall>a. Meta_Account a \<in> set ps \<longrightarrow> rank (plw_permission a) < r" and "cache_exact K rank r (cached s)"
    and "unat tw < unat thr" and "unat tw + meta_weight K (granted K) ps < 2 ^ 32" and nest: "well_nested K rank"
  shows "\<exists>s'. tally (visit_permission K rec) thr ps tw s
      = Inr (unat thr \<le> unat tw + meta_weight K (granted K) ps, s')
    \<and> cache_exact K rank r (cached s') \<and> same_open (cached s) (cached s')"
  using assms(3-6)
proof (induction ps arbitrary: tw s)
  case Nil
  then show ?case by (auto simp: same_open_def)
next
  case (Cons p ps)
  let ?w = "if meta_holds K (granted K) p then unat (get_weight p) else 0"
  obtain s1 where s1: "visit_permission K rec p tw s
      = Inr (if meta_holds K (granted K) p then tw + get_weight p else tw, s1)"
      "cache_exact K rank r (cached s1)" "same_open (cached s) (cached s1)"
    using visit_exact [OF assms(1,2) _ Cons.prems(2) nest, of p tw] Cons.prems(1) by auto
  let ?tw = "if meta_holds K (granted K) p then tw + get_weight p else tw"
  have tw: "unat ?tw = unat tw + ?w"
    using Cons.prems(4) by (auto simp: unat_word_ariths)
  show ?case
  proof (cases "thr \<le> ?tw")
    case True
    then have "unat thr \<le> unat tw + ?w" using tw by (simp add: word_le_nat_alt)
    with True s1 show ?thesis by auto
  next
    case False
    then have "unat ?tw < unat thr" by (simp add: word_le_nat_alt)
    moreover have "unat ?tw + meta_weight K (granted K) ps < 2 ^ 32"
      using Cons.prems(4) tw by simp
    ultimately obtain s' where s': "tally (visit_permission K rec) thr ps ?tw s1
        = Inr (unat thr \<le> unat ?tw + meta_weight K (granted K) ps, s')"
        "cache_exact K rank r (cached s')" "same_open (cached s1) (cached s')"
      using Cons.IH [OF _ s1(2)] Cons.prems(1) by auto
    have "tally (visit_permission K rec) thr (p # ps) tw s
        = Inr (unat thr \<le> unat tw + meta_weight K (granted K) (p # ps), s')"
      using False s1(1) s'(1) tw by (simp add: add.assoc split del: if_split)
    with s' s1(3) show ?thesis by (auto simp: same_open_def)
  qed
qed

lemma authority_weight_bound:
  "authority_weight K P a \<le> weights kw_weight (keys a) + weights plw_weight (accounts a) + weights ww_weight (waits a)"
proof -
  have "authority_weight K P a \<le> weights ww_weight (waits a) + weights kw_weight (keys a) + weights plw_weight (accounts a)"
    unfolding authority_weight_def weights_def by (intro add_mono sum_list_mono) auto
  then show ?thesis by simp
qed

lemma satisfied_step_exact:
  assumes "n = 0 \<and> rec = None \<or> (\<exists>m f. n = Suc m \<and> rec = Some f \<and> decides K rank m f)"
    and nest: "well_nested K rank"
  shows "decides K rank n (satisfied_step K rec)"
  unfolding decides_def
proof (intro allI impI)
  fix a :: "'k authority" and s :: checker_state and r p
  assume a: "permission_to_authority K p = Inr a" "r \<le> n"
    "\<forall>q \<in> plw_permission ` set (accounts a). rank q < r" "cache_exact K rank r (cached s)"
  have "authority_weight K (granted K) a < 2 ^ 32"
    using authority_weight_bound well_nestedD(4) [OF nest a(1)] by (rule le_less_trans)
  then obtain s' where "tally (visit_permission K rec) (threshold a) (meta_permissions a) 0 s
      = Inr (unat (threshold a) \<le> authority_weight K (granted K) a, s')"
      "cache_exact K rank r (cached s')" "same_open (cached s) (cached s')"
    using tally_exact [OF assms(1) a(2) _ a(4) _ _ nest, of "meta_permissions a" 0 "threshold a"] a(3) well_nestedD(3) [OF nest a(1)]
    by (auto simp: meta_accounts meta_permissions_weight)
  then show "\<exists>s'. satisfied_step K rec a s = Inr (unat (threshold a) \<le> authority_weight K (granted K) a, s')
      \<and> cache_exact K rank r (cached s') \<and> same_open (cached s) (cached s')"
    by (auto simp: satisfied_step_def)
qed

lemma satisfied_auth_exact: "well_nested K rank \<Longrightarrow> decides K rank n (satisfied_auth K n)"
  by (induction n) (auto intro: satisfied_step_exact)

lemma satisfied_permission_exact:
  assumes "rank p < unat (recursion_depth_limit K)" and nest: "well_nested K rank"
  shows "\<exists>s. satisfied_permission K p marks None = Inr (granted K p, s)"
proof -
  let ?n = "unat (recursion_depth_limit K)" and ?s = "start_state K marks None"
  have rec: "?n = 0 \<and> rec_limit K ?n = None \<or> (\<exists>m f. ?n = Suc m \<and> rec_limit K ?n = Some f \<and> decides K rank m f)"
    using satisfied_auth_exact [OF nest] by (cases ?n) (auto simp: rec_limit_def)
  have "cache_exact K rank ?n (cached ?s)"
    by (auto simp: cache_exact_def start_state_def initialize_cache intro: granted.provided split: if_splits)
  from visit_exact [OF rec order_refl _ this nest, of "Meta_Account \<lparr>plw_permission = p, plw_weight = 1\<rparr>" 0]
  obtain s' where "visit_permission K (rec_limit K ?n) (Meta_Account \<lparr>plw_permission = p, plw_weight = 1\<rparr>) 0 ?s
      = Inr (if granted K p then 1 else 0, s')"
    using assms(1) by auto
  then show ?thesis by (simp add: satisfied_permission_def)
qed

end



text \<open>
  The authorities of the examples: permission 10 of account 1 needs one of the permissions 11
  and 12; permission 11 needs 12 and 13, the latter missing, and 12 needs the key 7.
\<close>

definition demo_authorities :: "permission_level \<Rightarrow> (auth_error, nat authority) result" where
  "demo_authorities p =
     (if p = Permission_Level 1 10
      then Inr \<lparr>threshold = 1, keys = [],
             accounts = [\<lparr>plw_permission = Permission_Level 1 11, plw_weight = 1\<rparr>,
                         \<lparr>plw_permission = Permission_Level 1 12, plw_weight = 1\<rparr>], waits = []\<rparr>
      else if p = Permission_Level 1 11
      then Inr \<lparr>threshold = 2, keys = [],
             accounts = [\<lparr>plw_permission = Permission_Level 1 12, plw_weight = 1\<rparr>,
                         \<lparr>plw_permission = Permission_Level 1 13, plw_weight = 1\<rparr>], waits = []\<rparr>
      else if p = Permission_Level 1 12 then Inr (key_authority 7 0)
      else Inl permission_query_exception)"

definition demo_checker :: "nat authority_checker" where
  "demo_checker = fst (make_auth_checker demo_authorities 6 [7] [] 0)"

lemma demo_checker_sel:
  "permission_to_authority demo_checker = demo_authorities" "provided_keys demo_checker = [7]"
  "provided_permissions demo_checker = []" "recursion_depth_limit demo_checker = 6"
  by (simp_all add: demo_checker_def make_auth_checker_def)

lemma demo_answer:
  "case satisfied_permission demo_checker (Permission_Level 1 10) [False] None of
     Inl e \<Rightarrow> False | Inr (r, s) \<Rightarrow> r \<and> used_marks s = [False]"
  by code_simp

lemma demo_check:
  "\<exists>s. satisfied_permission demo_checker (Permission_Level 1 10) [False] None = Inr (True, s)
    \<and> used_marks s = [False]"
  using demo_answer by (auto split: sum.splits)




end
