(* ===== verification/Resource_Limits.thy ===== *)
theory Resource_Limits
  imports Prelude Name_Type
begin

text \<open>
  Accounting of CPU, network and RAM (\<open>libraries/chain/resource_limits.cpp\<close>,
  \<open>resource_limits.hpp\<close> and \<open>resource_limits_private.hpp\<close>). Unsigned quantities are words of their width,
  128-bit intermediate products included; the signed weights and limits are integers. The rows
  of the database are maps from the account, the pending limits a list in the order of the
  index. Divisions by zero, which the C++ leaves undefined, are an error of their own.
\<close>

type_synonym u128 = "128 word"

datatype resource_error =
    rate_limiting_state_inconsistent
  | resource_limit_exception
  | tx_cpu_usage_exceeded
  | tx_net_usage_exceeded
  | block_resource_exhausted
  | transaction_exception
  | ram_usage_exceeded
  | row_not_found
  | row_exists
  | division_by_zero

type_synonym 'a metered = "(resource_error, 'a) result"

section \<open>Ratios and casts\<close>

record ratio =
  numerator :: u64
  denominator :: u64

definition times_ratio :: "u64 \<Rightarrow> ratio \<Rightarrow> u64 metered" where
  "times_ratio v r =
     check (numerator r = 0 \<or> - 1 div numerator r \<ge> v) rate_limiting_state_inconsistent
    (check (denominator r \<noteq> 0) division_by_zero
    (Inr ((v * numerator r) div denominator r)))"

definition integer_divide_ceil :: "'a :: len word \<Rightarrow> 'a word \<Rightarrow> 'a word metered" where
  "integer_divide_ceil num den =
     check (den \<noteq> 0) division_by_zero
    (Inr ((num div den) + (if num mod den > 0 then 1 else 0)))"

definition downgrade_u64 :: "u128 \<Rightarrow> u64 metered" where
  "downgrade_u64 v = check (v \<le> ucast (- 1 :: u64)) rate_limiting_state_inconsistent (Inr (ucast v))"

definition downgrade_int64 :: "u128 \<Rightarrow> int metered" where
  "downgrade_int64 v = check (v \<le> 2 ^ 63 - 1) rate_limiting_state_inconsistent (Inr (uint v))"

section \<open>The moving average\<close>

abbreviation precision :: "'a :: len word" where
  "precision \<equiv> 1000000"

record usage_accumulator =
  last_ordinal :: u32
  value_ex :: u64
  consumed :: u64

definition empty_accumulator :: usage_accumulator where
  "empty_accumulator = \<lparr>last_ordinal = 0, value_ex = 0, consumed = 0\<rparr>"

definition average :: "usage_accumulator \<Rightarrow> u64" where
  "average a = (value_ex a div precision) + (if value_ex a mod precision > 0 then 1 else 0)"

definition decay_to :: "u32 \<Rightarrow> u32 \<Rightarrow> usage_accumulator \<Rightarrow> u64 metered" where
  "decay_to ordinal window_size a =
     (if ucast (last_ordinal a) + ucast window_size > (ucast ordinal :: u64)
      then times_ratio (value_ex a)
             \<lparr>numerator = ucast window_size - ucast (ordinal - last_ordinal a), denominator = ucast window_size\<rparr>
      else Inr 0)"

definition accumulator_add :: "u64 \<Rightarrow> u32 \<Rightarrow> u32 \<Rightarrow> usage_accumulator \<Rightarrow> usage_accumulator metered" where
  "accumulator_add units ordinal window_size a =
     check (units \<le> - 1 div precision) rate_limiting_state_inconsistent
    (check (- 1 - consumed a \<ge> units) rate_limiting_state_inconsistent
    (bind_res (integer_divide_ceil (ucast units * precision :: u128) (ucast window_size)) (\<lambda>contrib.
     bind_res (downgrade_u64 contrib) (\<lambda>value_ex_contrib.
     check (- 1 - value_ex a \<ge> value_ex_contrib) rate_limiting_state_inconsistent
    (bind_res
       (if last_ordinal a \<noteq> ordinal
        then check (ordinal > last_ordinal a) resource_limit_exception
            (bind_res (decay_to ordinal window_size a) (\<lambda>v.
             let a = a\<lparr>value_ex := v, last_ordinal := ordinal\<rparr>
             in Inr (a\<lparr>consumed := average a\<rparr>)))
        else Inr a) (\<lambda>a.
     Inr (a\<lparr>consumed := consumed a + units, value_ex := value_ex a + value_ex_contrib\<rparr>)))))))"

section \<open>Elastic limits\<close>

record elastic_limit_parameters =
  target_usage :: u64
  max_usage :: u64
  periods :: u32
  max_multiplier :: u32
  contract_rate :: ratio
  expand_rate :: ratio

definition validate_parameters :: "elastic_limit_parameters \<Rightarrow> unit metered" where
  "validate_parameters p =
     check (periods p > 0) resource_limit_exception
    (check (denominator (contract_rate p) > 0) resource_limit_exception
    (check (denominator (expand_rate p) > 0) resource_limit_exception
    (Inr ())))"

definition update_elastic_limit :: "u64 \<Rightarrow> u64 \<Rightarrow> elastic_limit_parameters \<Rightarrow> u64 metered" where
  "update_elastic_limit current_limit average_usage params =
     bind_res (times_ratio current_limit
        (if average_usage > target_usage params then contract_rate params else expand_rate params)) (\<lambda>v.
     Inr (min (max v (max_usage params)) (max_usage params * ucast (max_multiplier params))))"

section \<open>The database\<close>

record limits_row =
  net_weight :: int
  cpu_weight :: int
  ram_bytes :: int

record usage_row =
  net_usage :: usage_accumulator
  cpu_usage :: usage_accumulator
  ram_usage :: u64

record limits_config =
  cpu_limit_parameters :: elastic_limit_parameters
  net_limit_parameters :: elastic_limit_parameters
  account_cpu_usage_average_window :: u32
  account_net_usage_average_window :: u32

record limits_state =
  average_block_net_usage :: usage_accumulator
  average_block_cpu_usage :: usage_accumulator
  pending_net_usage :: u64
  pending_cpu_usage :: u64
  total_net_weight :: u64
  total_cpu_weight :: u64
  total_ram_bytes :: u64
  virtual_net_limit :: u64
  virtual_cpu_limit :: u64

record resource_db =
  limits_table :: "name \<rightharpoonup> limits_row"
  pending_limits :: "(name \<times> limits_row) list"
  usage_table :: "name \<rightharpoonup> usage_row"
  limits_config :: limits_config
  limits_state :: limits_state

definition update_virtual_cpu_limit :: "limits_config \<Rightarrow> limits_state \<Rightarrow> limits_state metered" where
  "update_virtual_cpu_limit cfg s =
     bind_res (update_elastic_limit (virtual_cpu_limit s) (average (average_block_cpu_usage s))
        (cpu_limit_parameters cfg)) (\<lambda>v. Inr (s\<lparr>virtual_cpu_limit := v\<rparr>))"

definition update_virtual_net_limit :: "limits_config \<Rightarrow> limits_state \<Rightarrow> limits_state metered" where
  "update_virtual_net_limit cfg s =
     bind_res (update_elastic_limit (virtual_net_limit s) (average (average_block_net_usage s))
        (net_limit_parameters cfg)) (\<lambda>v. Inr (s\<lparr>virtual_net_limit := v\<rparr>))"

text \<open>The defaults of the configuration and the start of the chain.\<close>

definition eos_percent :: "u64 \<Rightarrow> u32 \<Rightarrow> u64" where
  "eos_percent v percentage = (v * ucast percentage) div 10000"

definition default_parameters :: "u64 \<Rightarrow> elastic_limit_parameters" where
  "default_parameters max_block_usage =
     \<lparr>target_usage = eos_percent max_block_usage (10 * 100), max_usage = max_block_usage,
      periods = 60 * 1000 div 500, max_multiplier = 1000,
      contract_rate = \<lparr>numerator = 99, denominator = 100\<rparr>, expand_rate = \<lparr>numerator = 1000, denominator = 999\<rparr>\<rparr>"

definition default_limits_config :: limits_config where
  "default_limits_config =
     \<lparr>cpu_limit_parameters = default_parameters 200000, net_limit_parameters = default_parameters (1024 * 1024),
      account_cpu_usage_average_window = 24 * 60 * 60 * 1000 div 500,
      account_net_usage_average_window = 24 * 60 * 60 * 1000 div 500\<rparr>"

definition initialize_database :: resource_db where
  "initialize_database =
     \<lparr>limits_table = Map.empty, pending_limits = [], usage_table = Map.empty, limits_config = default_limits_config,
      limits_state =
        \<lparr>average_block_net_usage = empty_accumulator, average_block_cpu_usage = empty_accumulator,
         pending_net_usage = 0, pending_cpu_usage = 0,
         total_net_weight = 0, total_cpu_weight = 0, total_ram_bytes = 0,
         virtual_net_limit = max_usage (net_limit_parameters default_limits_config),
         virtual_cpu_limit = max_usage (cpu_limit_parameters default_limits_config)\<rparr>\<rparr>"

section \<open>The manager\<close>

definition initialize_account :: "name \<Rightarrow> resource_db \<Rightarrow> resource_db metered" where
  "initialize_account account db =
     bind_res (table_emplace (limits_table db) account \<lparr>net_weight = - 1, cpu_weight = - 1, ram_bytes = - 1\<rparr>
        row_exists) (\<lambda>t.
     bind_res (table_emplace (usage_table db) account
        \<lparr>net_usage = empty_accumulator, cpu_usage = empty_accumulator, ram_usage = 0\<rparr> row_exists) (\<lambda>u.
     Inr (db\<lparr>limits_table := t, usage_table := u\<rparr>)))"

definition set_block_parameters ::
  "elastic_limit_parameters \<Rightarrow> elastic_limit_parameters \<Rightarrow> resource_db \<Rightarrow> resource_db metered" where
  "set_block_parameters cpu_params net_params db =
     bind_res (validate_parameters cpu_params) (\<lambda>_.
     bind_res (validate_parameters net_params) (\<lambda>_.
     let cfg = limits_config db in
     if cpu_limit_parameters cfg = cpu_params \<and> net_limit_parameters cfg = net_params then Inr db
     else Inr (db\<lparr>limits_config := cfg\<lparr>cpu_limit_parameters := cpu_params, net_limit_parameters := net_params\<rparr>\<rparr>)))"

text \<open>The modification of the usage of one account, shared by the two usage methods.\<close>

definition add_usage :: "limits_config \<Rightarrow> u64 \<Rightarrow> u64 \<Rightarrow> u32 \<Rightarrow> usage_row \<Rightarrow> usage_row metered" where
  "add_usage cfg cpu_units net_units time_slot usage =
     bind_res (accumulator_add net_units time_slot (account_net_usage_average_window cfg) (net_usage usage)) (\<lambda>net.
     bind_res (accumulator_add cpu_units time_slot (account_cpu_usage_average_window cfg) (cpu_usage usage)) (\<lambda>cpu.
     Inr (usage\<lparr>net_usage := net, cpu_usage := cpu\<rparr>)))"

definition update_account_usage :: "name list \<Rightarrow> u32 \<Rightarrow> resource_db \<Rightarrow> resource_db metered" where
  "update_account_usage accounts time_slot db =
     for_each (\<lambda>a db.
       bind_res (table_get (usage_table db) a row_not_found) (\<lambda>usage.
       bind_res (add_usage (limits_config db) 0 0 time_slot usage) (\<lambda>usage.
       Inr (db\<lparr>usage_table := (usage_table db)(a \<mapsto> usage)\<rparr>)))) accounts db"

definition get_account_limits :: "name \<Rightarrow> resource_db \<Rightarrow> limits_row metered" where
  "get_account_limits account db =
     (case map_of (pending_limits db) account of
        Some l \<Rightarrow> Inr l
      | None \<Rightarrow> table_get (limits_table db) account row_not_found)"

text \<open>
  The share of an account: whether the usage in the window stays within the part of the virtual
  limit its weight entitles it to, in 128-bit arithmetic.
\<close>

definition max_user_use_in_window :: "u64 \<Rightarrow> u32 \<Rightarrow> int \<Rightarrow> u64 \<Rightarrow> u128" where
  "max_user_use_in_window virtual_limit window_size weight total_weight =
     (ucast virtual_limit * ucast window_size * of_int weight) div ucast total_weight"

definition within_share :: "u64 \<Rightarrow> u32 \<Rightarrow> int \<Rightarrow> u64 \<Rightarrow> u64 \<Rightarrow> bool" where
  "within_share virtual_limit window_size weight total_weight usage_ex \<longleftrightarrow>
     (ucast usage_ex * ucast window_size) div (precision :: u128)
       \<le> max_user_use_in_window virtual_limit window_size weight total_weight"

definition charge_account :: "u64 \<Rightarrow> u64 \<Rightarrow> u32 \<Rightarrow> name \<Rightarrow> resource_db \<Rightarrow> resource_db metered" where
  "charge_account cpu_units net_units time_slot a db =
     (let cfg = limits_config db; state = limits_state db in
      bind_res (table_get (usage_table db) a row_not_found) (\<lambda>usage.
      bind_res (get_account_limits a db) (\<lambda>limits.
      bind_res (add_usage cfg cpu_units net_units time_slot usage) (\<lambda>usage.
      check (cpu_weight limits \<ge> 0 \<and> total_cpu_weight state > 0 \<longrightarrow>
             within_share (virtual_cpu_limit state) (account_cpu_usage_average_window cfg) (cpu_weight limits)
               (total_cpu_weight state) (value_ex (cpu_usage usage))) tx_cpu_usage_exceeded
     (check (net_weight limits \<ge> 0 \<and> total_net_weight state > 0 \<longrightarrow>
             within_share (virtual_net_limit state) (account_net_usage_average_window cfg) (net_weight limits)
               (total_net_weight state) (value_ex (net_usage usage))) tx_net_usage_exceeded
     (Inr (db\<lparr>usage_table := (usage_table db)(a \<mapsto> usage)\<rparr>)))))))"

definition add_transaction_usage :: "name list \<Rightarrow> u64 \<Rightarrow> u64 \<Rightarrow> u32 \<Rightarrow> resource_db \<Rightarrow> resource_db metered" where
  "add_transaction_usage accounts cpu_units net_units time_slot db =
     bind_res (for_each (charge_account cpu_units net_units time_slot) accounts db) (\<lambda>db.
     let state = limits_state db;
         state = state\<lparr>pending_cpu_usage := pending_cpu_usage state + cpu_units,
                       pending_net_usage := pending_net_usage state + net_units\<rparr>
     in check (pending_cpu_usage state \<le> max_usage (cpu_limit_parameters (limits_config db))) block_resource_exhausted
       (check (pending_net_usage state \<le> max_usage (net_limit_parameters (limits_config db))) block_resource_exhausted
       (Inr (db\<lparr>limits_state := state\<rparr>))))"

definition add_pending_ram_usage :: "name \<Rightarrow> int \<Rightarrow> resource_db \<Rightarrow> resource_db metered" where
  "add_pending_ram_usage account ram_delta db =
     (if ram_delta = 0 then Inr db
      else bind_res (table_get (usage_table db) account row_not_found) (\<lambda>usage.
           check (ram_delta \<le> 0 \<or> - 1 - ram_usage usage \<ge> of_int ram_delta) transaction_exception
          (check (ram_delta \<ge> 0 \<or> ram_usage usage \<ge> of_int (- ram_delta)) transaction_exception
          (Inr (db\<lparr>usage_table := (usage_table db)(account \<mapsto>
                 usage\<lparr>ram_usage := ram_usage usage + of_int ram_delta\<rparr>)\<rparr>)))))"

definition verify_account_ram_usage :: "name \<Rightarrow> resource_db \<Rightarrow> unit metered" where
  "verify_account_ram_usage account db =
     bind_res (get_account_limits account db) (\<lambda>limits.
     bind_res (table_get (usage_table db) account row_not_found) (\<lambda>usage.
     check (ram_bytes limits \<ge> 0 \<longrightarrow> ram_usage usage \<le> of_int (ram_bytes limits)) ram_usage_exceeded
    (Inr ())))"

definition get_account_ram_usage :: "name \<Rightarrow> resource_db \<Rightarrow> int metered" where
  "get_account_ram_usage account db =
     bind_res (table_get (usage_table db) account row_not_found) (\<lambda>usage. Inr (sint (ram_usage usage)))"

text \<open>The pending rows, in ascending order of the owner.\<close>

fun put_pending :: "name \<Rightarrow> limits_row \<Rightarrow> (name \<times> limits_row) list \<Rightarrow> (name \<times> limits_row) list" where
  "put_pending a l [] = [(a, l)]"
| "put_pending a l ((b, l') # ps) =
     (if a < b then (a, l) # (b, l') # ps else if a = b then (a, l) # ps else (b, l') # put_pending a l ps)"

definition set_account_limits :: "name \<Rightarrow> int \<Rightarrow> int \<Rightarrow> int \<Rightarrow> resource_db \<Rightarrow> (bool \<times> resource_db) metered" where
  "set_account_limits account ram net cpu db =
     bind_res (get_account_limits account db) (\<lambda>limits.
     let decreased_limit = (ram \<ge> 0 \<and> (ram_bytes limits < 0 \<or> ram < ram_bytes limits))
     in Inr (decreased_limit,
             db\<lparr>pending_limits := put_pending account
                  \<lparr>net_weight = net, cpu_weight = cpu, ram_bytes = ram\<rparr> (pending_limits db)\<rparr>))"

definition update_state_and_value :: "u64 \<Rightarrow> int \<Rightarrow> int \<Rightarrow> u64 metered" where
  "update_state_and_value total_weight v pending_value =
     bind_res (if v > 0
               then check (total_weight \<ge> of_int v) rate_limiting_state_inconsistent (Inr (total_weight - of_int v))
               else Inr total_weight) (\<lambda>total_weight.
     if pending_value > 0
     then check (- 1 - total_weight \<ge> of_int pending_value) rate_limiting_state_inconsistent
         (Inr (total_weight + of_int pending_value))
     else Inr total_weight)"

definition apply_pending :: "name \<times> limits_row \<Rightarrow> resource_db \<Rightarrow> resource_db metered" where
  "apply_pending p db =
     (case p of (account, pending) \<Rightarrow>
      let s = limits_state db in
      bind_res (table_get (limits_table db) account row_not_found) (\<lambda>limits.
      bind_res (update_state_and_value (total_ram_bytes s) (ram_bytes limits) (ram_bytes pending)) (\<lambda>ram.
      bind_res (update_state_and_value (total_cpu_weight s) (cpu_weight limits) (cpu_weight pending)) (\<lambda>cpu.
      bind_res (update_state_and_value (total_net_weight s) (net_weight limits) (net_weight pending)) (\<lambda>net.
      Inr (db\<lparr>limits_table := (limits_table db)(account \<mapsto> pending),
              pending_limits := filter (\<lambda>q. fst q \<noteq> account) (pending_limits db),
              limits_state := s\<lparr>total_ram_bytes := ram, total_cpu_weight := cpu, total_net_weight := net\<rparr>\<rparr>))))))"

definition process_account_limit_updates :: "resource_db \<Rightarrow> resource_db metered" where
  "process_account_limit_updates db = for_each apply_pending (pending_limits db) db"

definition process_block_usage :: "u32 \<Rightarrow> resource_db \<Rightarrow> resource_db metered" where
  "process_block_usage block_num db =
     (let s = limits_state db; cfg = limits_config db in
      bind_res (accumulator_add (pending_cpu_usage s) block_num (periods (cpu_limit_parameters cfg))
         (average_block_cpu_usage s)) (\<lambda>a.
      bind_res (update_virtual_cpu_limit cfg (s\<lparr>average_block_cpu_usage := a\<rparr>)) (\<lambda>s.
      let s = s\<lparr>pending_cpu_usage := 0\<rparr> in
      bind_res (accumulator_add (pending_net_usage s) block_num (periods (net_limit_parameters cfg))
         (average_block_net_usage s)) (\<lambda>a.
      bind_res (update_virtual_net_limit cfg (s\<lparr>average_block_net_usage := a\<rparr>)) (\<lambda>s.
      let s = s\<lparr>pending_net_usage := 0\<rparr> in
      Inr (db\<lparr>limits_state := s\<rparr>))))))"

definition get_virtual_block_cpu_limit :: "resource_db \<Rightarrow> u64" where
  "get_virtual_block_cpu_limit db = virtual_cpu_limit (limits_state db)"

definition get_virtual_block_net_limit :: "resource_db \<Rightarrow> u64" where
  "get_virtual_block_net_limit db = virtual_net_limit (limits_state db)"

definition get_block_cpu_limit :: "resource_db \<Rightarrow> u64" where
  "get_block_cpu_limit db =
     max_usage (cpu_limit_parameters (limits_config db)) - pending_cpu_usage (limits_state db)"

definition get_block_net_limit :: "resource_db \<Rightarrow> u64" where
  "get_block_net_limit db =
     max_usage (net_limit_parameters (limits_config db)) - pending_net_usage (limits_state db)"

record account_resource_limit =
  limit_used :: int
  limit_available :: int
  limit_max :: int

text \<open>The common part of the two \<open>_ex\<close> queries, after the check for unlimited accounts.\<close>

definition account_limit ::
  "u64 \<Rightarrow> u64 \<Rightarrow> u32 \<Rightarrow> u32 \<Rightarrow> int \<Rightarrow> u64 \<Rightarrow> u64 \<Rightarrow> (account_resource_limit \<times> bool) metered" where
  "account_limit max_block virtual_limit window_size greylist_limit weight total_weight usage_ex =
     (let greylisted_virtual_limit = max_block * ucast greylist_limit;
          greylisted = (greylisted_virtual_limit < virtual_limit);
          max_use = max_user_use_in_window (if greylisted then greylisted_virtual_limit else virtual_limit)
                      window_size weight total_weight
      in bind_res (integer_divide_ceil (ucast usage_ex * ucast window_size :: u128) precision) (\<lambda>used.
         bind_res (if max_use \<le> used then Inr 0 else downgrade_int64 (max_use - used)) (\<lambda>available.
         bind_res (downgrade_int64 used) (\<lambda>u.
         bind_res (downgrade_int64 max_use) (\<lambda>m.
         Inr (\<lparr>limit_used = u, limit_available = available, limit_max = m\<rparr>, greylisted))))))"

definition get_account_cpu_limit_ex :: "name \<Rightarrow> u32 \<Rightarrow> resource_db \<Rightarrow> (account_resource_limit \<times> bool) metered" where
  "get_account_cpu_limit_ex account greylist_limit db =
     (let state = limits_state db; cfg = limits_config db in
      bind_res (table_get (usage_table db) account row_not_found) (\<lambda>usage.
      bind_res (get_account_limits account db) (\<lambda>limits.
      if cpu_weight limits < 0 \<or> total_cpu_weight state = 0
      then Inr (\<lparr>limit_used = - 1, limit_available = - 1, limit_max = - 1\<rparr>, False)
      else account_limit (max_usage (cpu_limit_parameters cfg)) (virtual_cpu_limit state)
             (account_cpu_usage_average_window cfg) greylist_limit (cpu_weight limits) (total_cpu_weight state)
             (value_ex (cpu_usage usage)))))"

definition get_account_net_limit_ex :: "name \<Rightarrow> u32 \<Rightarrow> resource_db \<Rightarrow> (account_resource_limit \<times> bool) metered" where
  "get_account_net_limit_ex account greylist_limit db =
     (let state = limits_state db; cfg = limits_config db in
      bind_res (table_get (usage_table db) account row_not_found) (\<lambda>usage.
      bind_res (get_account_limits account db) (\<lambda>limits.
      if net_weight limits < 0 \<or> total_net_weight state = 0
      then Inr (\<lparr>limit_used = - 1, limit_available = - 1, limit_max = - 1\<rparr>, False)
      else account_limit (max_usage (net_limit_parameters cfg)) (virtual_net_limit state)
             (account_net_usage_average_window cfg) greylist_limit (net_weight limits) (total_net_weight state)
             (value_ex (net_usage usage)))))"

definition get_account_cpu_limit :: "name \<Rightarrow> u32 \<Rightarrow> resource_db \<Rightarrow> (int \<times> bool) metered" where
  "get_account_cpu_limit account greylist_limit db =
     bind_res (get_account_cpu_limit_ex account greylist_limit db) (\<lambda>(arl, greylisted).
     Inr (limit_available arl, greylisted))"

definition get_account_net_limit :: "name \<Rightarrow> u32 \<Rightarrow> resource_db \<Rightarrow> (int \<times> bool) metered" where
  "get_account_net_limit account greylist_limit db =
     bind_res (get_account_net_limit_ex account greylist_limit db) (\<lambda>(arl, greylisted).
     Inr (limit_available arl, greylisted))"

section \<open>Exact arithmetic\<close>

definition ceil_div :: "nat \<Rightarrow> nat \<Rightarrow> nat" where
  "ceil_div n d = n div d + (if n mod d > 0 then 1 else 0)"

lemma ceil_div_mult: "0 < d \<Longrightarrow> n \<le> ceil_div n d * d \<and> ceil_div n d * d < n + d"
proof -
  assume d: "0 < d"
  have "n div d * d + n mod d = n" by simp
  moreover have "n mod d < d" using d by simp
  ultimately have "n \<le> (n div d + 1) * d \<and> (0 < n mod d \<longrightarrow> (n div d + 1) * d < n + d)
      \<and> (n mod d = 0 \<longrightarrow> n div d * d = n)"
    unfolding distrib_right by linarith
  then show ?thesis using d by (cases "n mod d = 0") (simp_all only: ceil_div_def, auto)
qed

lemma integer_divide_ceil_Inr:
  fixes x y :: "'a :: len word"
  assumes "integer_divide_ceil x y = Inr z"
  shows "0 < unat y \<and> unat z = ceil_div (unat x) (unat y)"
proof -
  have y: "0 < unat y" and z: "z = x div y + (if x mod y > 0 then 1 else 0)"
    using assms by (auto simp: integer_divide_ceil_def unat_eq_0 [symmetric] simp del: unat_eq_0)
  have "unat (x div y + 1) = unat x div unat y + 1" if m: "unat x mod unat y > 0"
  proof -
    have "unat y \<noteq> 1" "unat x \<noteq> 0" using m by (auto intro!: gr0I)
    then have "unat x div unat y < unat x" using y by (intro div_less_dividend) auto
    then have "unat (x div y) + unat (1 :: 'a word) < 2 ^ LENGTH('a)"
      using le_less_trans [OF Suc_leI unsigned_less] by (simp add: unat_div_distrib)
    then have "unat (x div y + 1) = unat (x div y) + unat (1 :: 'a word)" by (rule unat_add_lem [THEN iffD1])
    then show ?thesis by (simp add: unat_div_distrib)
  qed
  then show ?thesis
    using y by (auto simp: z ceil_div_def unat_div_distrib unat_mod_distrib word_less_nat_alt)
qed

lemma unat_mult_exact: "unat x * unat y < 2 ^ LENGTH('a) \<Longrightarrow> unat (x * y :: 'a :: len word) = unat x * unat y"
  by (simp add: unat_mult_lem)

lemma unat_add_exact: "unat x + unat y < 2 ^ LENGTH('a) \<Longrightarrow> unat (x + y :: 'a :: len word) = unat x + unat y"
  by (simp add: unat_add_lem)

lemma u64_less: "unat (x :: u64) < 2 ^ 64" and u32_less: "unat (w :: u32) < 2 ^ 32"
  using unsigned_less [of x] unsigned_less [of w] by simp_all

lemma unat_max64: "unat (- 1 :: u64) = 2 ^ 64 - 1"
  by (simp add: unsigned_minus_1_eq_mask mask_eq_exp_minus_1)

lemma unat_room: "- 1 - x \<ge> y \<longleftrightarrow> unat x + unat y < 2 ^ 64" for x y :: u64
proof -
  have "unat (- 1 - x) = 2 ^ 64 - 1 - unat x" by (simp add: unat_sub unat_max64)
  then show ?thesis using u64_less [of x] by (auto simp: word_le_nat_alt)
qed

lemma unat_ucast_32_64: "unat (ucast (x :: u32) :: u64) = unat x"
  using u32_less [of x] by (simp add: unsigned_ucast_eq take_bit_nat_eq_self)

lemma unat_ucast_32_128: "unat (ucast (x :: u32) :: u128) = unat x"
  using u32_less [of x] by (simp add: unsigned_ucast_eq take_bit_nat_eq_self)

lemma unat_ucast_64_128: "unat (ucast (x :: u64) :: u128) = unat x"
  using u64_less [of x] by (simp add: unsigned_ucast_eq take_bit_nat_eq_self)

lemma downgrade_u64_Inr: "downgrade_u64 v = Inr w \<Longrightarrow> unat w = unat v"
proof -
  assume "downgrade_u64 v = Inr w"
  then have w: "w = ucast v" and v: "v \<le> ucast (- 1 :: u64)" by (auto simp: downgrade_u64_def)
  from v have "unat v < 2 ^ 64" by (simp add: word_le_nat_alt unat_ucast_64_128 unat_max64)
  then show ?thesis by (simp add: w unsigned_ucast_eq take_bit_nat_eq_self)
qed

lemma times_ratio_Inr:
  assumes "times_ratio v r = Inr w"
  shows "unat w = unat v * unat (numerator r) div unat (denominator r) \<and> 0 < unat (denominator r)"
proof -
  from assms have c: "numerator r = 0 \<or> - 1 div numerator r \<ge> v" and w: "w = v * numerator r div denominator r"
    and d: "denominator r \<noteq> 0"
    by (auto simp: times_ratio_def)
  have "unat v * unat (numerator r) < 2 ^ 64"
  proof (cases "numerator r = 0")
    case False
    then have "unat v \<le> (2 ^ 64 - 1) div unat (numerator r)"
      using c by (simp add: word_le_nat_alt unat_div_distrib unat_max64)
    then have "unat v * unat (numerator r) \<le> (2 ^ 64 - 1) div unat (numerator r) * unat (numerator r)"
      by (rule mult_le_mono1)
    also have "\<dots> \<le> 2 ^ 64 - 1" by (rule div_times_less_eq_dividend)
    finally show ?thesis by simp
  qed simp
  then show ?thesis using d by (simp add: w unat_div_distrib unat_mult_exact unat_gt_0)
qed

lemma unat_average: "unat (average a) = ceil_div (unat (value_ex a)) 1000000"
proof -
  have "integer_divide_ceil (value_ex a) 1000000 = Inr (average a)"
    by (simp add: integer_divide_ceil_def average_def)
  then show ?thesis using integer_divide_ceil_Inr by fastforce
qed

text \<open>What is left of the average when a period begins, over the integers.\<close>

definition decayed :: "u32 \<Rightarrow> u32 \<Rightarrow> usage_accumulator \<Rightarrow> nat" where
  "decayed ordinal window_size a =
     (if last_ordinal a = ordinal then unat (value_ex a)
      else if unat ordinal < unat (last_ordinal a) + unat window_size
      then unat (value_ex a) * (unat window_size - (unat ordinal - unat (last_ordinal a))) div unat window_size
      else 0)"

lemma decayed_le: "decayed ordinal window_size a \<le> unat (value_ex a)"
proof -
  have "v * (w - d) div w \<le> v" for v w d :: nat
    by (cases "w = 0") (auto intro: order_trans [OF div_le_mono [of _ "v * w"]])
  then show ?thesis by (simp add: decayed_def)
qed

lemma decay_to_Inr:
  assumes "decay_to ordinal w a = Inr v" and "last_ordinal a < ordinal"
  shows "unat v = decayed ordinal w a"
proof -
  have lt: "unat (last_ordinal a) < unat ordinal" using assms(2) by (simp add: word_less_nat_alt)
  have "unat (ucast (last_ordinal a) :: u64) + unat (ucast w :: u64) < 2 ^ LENGTH(64)"
    using u32_less [of "last_ordinal a"] u32_less [of w] by (simp add: unat_ucast_32_64)
  then have c: "ucast (last_ordinal a) + ucast w > (ucast ordinal :: u64)
      \<longleftrightarrow> unat ordinal < unat (last_ordinal a) + unat w"
    by (simp add: word_less_nat_alt unat_add_exact unat_ucast_32_64)
  show ?thesis
  proof (cases "unat ordinal < unat (last_ordinal a) + unat w")
    case True
    have d: "unat (ordinal - last_ordinal a) = unat ordinal - unat (last_ordinal a)"
      using assms(2) by (simp add: unat_sub)
    have "(ucast (ordinal - last_ordinal a) :: u64) \<le> ucast w"
      using True lt by (simp add: word_le_nat_alt unat_ucast_32_64 d)
    then have "unat (ucast w - ucast (ordinal - last_ordinal a) :: u64)
        = unat w - (unat ordinal - unat (last_ordinal a))"
      by (simp add: unat_sub unat_ucast_32_64 d)
    with True c assms(1) lt show ?thesis
      by (auto simp: decay_to_def decayed_def unat_ucast_32_64 dest!: times_ratio_Inr)
  next
    case False
    with c assms(1) lt show ?thesis by (auto simp: decay_to_def decayed_def)
  qed
qed

lemma accumulator_add_cases:
  assumes "accumulator_add units ordinal w a = Inr a'"
  obtains x c where "unat units \<le> (2 ^ 64 - 1) div 1000000" "unat (consumed a) + unat units < 2 ^ 64" "0 < unat w"
    "unat c = ceil_div (unat units * 1000000) (unat w)" "unat (value_ex a) + unat c < 2 ^ 64"
    "unat (value_ex x) = decayed ordinal w a" "last_ordinal x = ordinal" "last_ordinal a \<le> ordinal"
    "consumed x = (if last_ordinal a = ordinal then consumed a else average x)"
    "a' = x\<lparr>consumed := consumed x + units, value_ex := value_ex x + c\<rparr>"
proof -
  from assms obtain k c x where 1: "units \<le> - 1 div 1000000" "- 1 - consumed a \<ge> units"
    "integer_divide_ceil (ucast units * 1000000 :: u128) (ucast w) = Inr k" "downgrade_u64 k = Inr c"
    "- 1 - value_ex a \<ge> c"
    and x: "(if last_ordinal a \<noteq> ordinal
        then check (ordinal > last_ordinal a) resource_limit_exception
            (bind_res (decay_to ordinal w a) (\<lambda>v.
             let a = a\<lparr>value_ex := v, last_ordinal := ordinal\<rparr>
             in Inr (a\<lparr>consumed := average a\<rparr>)))
        else Inr a) = Inr x"
    and a': "a' = x\<lparr>consumed := consumed x + units, value_ex := value_ex x + c\<rparr>"
    unfolding accumulator_add_def by (elim check_InrE bind_res_InrE) auto
  have "unat units * 1000000 < 2 ^ 128" using u64_less [of units] by simp
  then have u: "unat (ucast units * 1000000 :: u128) = unat units * 1000000"
    using unat_mult_exact [of "ucast units :: u128" 1000000] by (simp add: unat_ucast_64_128)
  have c: "unat c = ceil_div (unat units * 1000000) (unat w)" "0 < unat w"
    using integer_divide_ceil_Inr [OF 1(3)] downgrade_u64_Inr [OF 1(4)] u by (auto simp: unat_ucast_32_128)
  have x': "unat (value_ex x) = decayed ordinal w a \<and> last_ordinal x = ordinal \<and> last_ordinal a \<le> ordinal
      \<and> consumed x = (if last_ordinal a = ordinal then consumed a else average x)"
  proof (cases "last_ordinal a = ordinal")
    case True
    with x show ?thesis by (simp add: decayed_def)
  next
    case False
    with x obtain v where "last_ordinal a < ordinal" "decay_to ordinal w a = Inr v"
      and v: "x = (a\<lparr>value_ex := v, last_ordinal := ordinal\<rparr>)\<lparr>consumed := average (a\<lparr>value_ex := v, last_ordinal := ordinal\<rparr>)\<rparr>"
      by (auto simp: Let_def)
    with decay_to_Inr [of ordinal w a v] False show ?thesis by (simp add: v average_def)
  qed
  show ?thesis
    using 1(1) 1(2,5) [unfolded unat_room] x' c
    by (intro that [of c x]) (simp_all add: a' word_le_nat_alt unat_div_distrib unat_max64)
qed

text \<open>
  C36: Recording usage never wraps round. Whenever it succeeds, the accumulator holds exactly the
  decayed average plus the contribution of the units, and the consumption of the period is the
  rounded-up average it began with, or the consumption so far, plus the units; the period never
  goes back.
\<close>

theorem accumulator_add_exact:
  assumes "accumulator_add units ordinal window_size a = Inr a'"
  shows "last_ordinal a' = ordinal \<and> last_ordinal a \<le> ordinal
    \<and> unat (value_ex a') = decayed ordinal window_size a + ceil_div (unat units * 1000000) (unat window_size)
    \<and> unat (consumed a') = (if last_ordinal a = ordinal then unat (consumed a)
        else ceil_div (decayed ordinal window_size a) 1000000) + unat units"
  using assms
proof (rule accumulator_add_cases)
  fix x c
  assume units: "unat units \<le> (2 ^ 64 - 1) div 1000000" "unat (consumed a) + unat units < 2 ^ 64"
    and c: "unat c = ceil_div (unat units * 1000000) (unat window_size)" "unat (value_ex a) + unat c < 2 ^ 64"
    and x: "unat (value_ex x) = decayed ordinal window_size a" "last_ordinal x = ordinal" "last_ordinal a \<le> ordinal"
      "consumed x = (if last_ordinal a = ordinal then consumed a else average x)"
    and a': "a' = x\<lparr>consumed := consumed x + units, value_ex := value_ex x + c\<rparr>"
  have "unat (average x) \<le> (2 ^ 64 - 1) div 1000000 + 1"
    using div_le_mono [of "unat (value_ex x)" "2 ^ 64 - 1" 1000000] u64_less [of "value_ex x"]
    by (simp add: unat_average ceil_div_def)
  then have "unat (consumed x) + unat units < 2 ^ LENGTH(64)" using units x(4) by auto
  moreover have "unat (value_ex x) + unat c < 2 ^ LENGTH(64)"
    using c(2) decayed_le [of ordinal window_size a] x(1) by simp
  ultimately show ?thesis
    using x c(1) by (auto simp: a' unat_add_exact unat_average)
qed

theorem accumulator_add_exact_witness:
  "\<exists>a. accumulator_add 5000000 1000 172800 empty_accumulator = Inr a \<and> unat (value_ex a) = 28935186
    \<and> unat (consumed a) = 5000000"
proof -
  have "case accumulator_add 5000000 1000 172800 empty_accumulator of Inl e \<Rightarrow> False | Inr a \<Rightarrow> True"
    by code_simp
  then obtain a where a: "accumulator_add 5000000 1000 172800 empty_accumulator = Inr a"
    by (auto split: sum.splits)
  then show ?thesis using accumulator_add_exact [OF a]
    by (auto simp: decayed_def empty_accumulator_def ceil_div_def)
qed

section \<open>What an account may use\<close>

lemma downgrade_int64_Inr: "downgrade_int64 v = Inr n \<Longrightarrow> n = int (unat v)"
  by (auto simp: downgrade_int64_def)

lemma window_product: "unat (ucast (v :: u64) * ucast (w :: u32) :: u128) = unat v * unat w"
proof -
  have "unat v * unat w < 2 ^ 64 * 2 ^ 32" using u64_less u32_less by (intro mult_strict_mono) auto
  then have "unat v * unat w < 2 ^ LENGTH(128)" by simp
  then show ?thesis
    using unat_mult_exact [of "ucast v :: u128" "ucast w :: u128"] by (simp add: unat_ucast_64_128 unat_ucast_32_128)
qed

lemma share_arith:
  assumes "0 < w" and "w \<le> (1000000 :: nat)" and "ceil_div (v * w) 1000000 + units \<le> m"
  shows "(v + ceil_div (units * 1000000) w) * w div 1000000 \<le> m"
proof -
  have "(v + ceil_div (units * 1000000) w) * w < v * w + units * 1000000 + w"
    using ceil_div_mult [OF assms(1), of "units * 1000000"] by (simp add: distrib_right)
  also have "\<dots> \<le> ceil_div (v * w) 1000000 * 1000000 + units * 1000000 + 1000000"
    using ceil_div_mult [of 1000000 "v * w"] assms(2) by simp
  also have "\<dots> = (ceil_div (v * w) 1000000 + units + 1) * 1000000" by (simp add: distrib_right)
  also have "\<dots> \<le> (m + 1) * 1000000" using assms(3) by (intro mult_le_mono1) simp
  finally show ?thesis by (simp add: less_mult_imp_div_less less_Suc_eq_le [symmetric])
qed

lemma account_limit_share:
  assumes "account_limit max_block virtual_limit w greylist weight tot v = Inr (arl, False)"
    and "0 < limit_available arl" and "int (unat units) \<le> limit_available arl"
    and "0 < unat w" and "unat w \<le> 1000000" and "unat v' = unat v + ceil_div (unat units * 1000000) (unat w)"
  shows "within_share virtual_limit w weight tot v'"
proof -
  let ?m = "max_user_use_in_window virtual_limit w weight tot"
  from assms(1,2) obtain used where 1: "integer_divide_ceil (ucast v * ucast w :: u128) 1000000 = Inr used"
    and 2: "\<not> ?m \<le> used" "limit_available arl = int (unat (?m - used))"
    unfolding account_limit_def Let_def
    by (elim bind_res_InrE) (auto dest: downgrade_int64_Inr split: if_splits)
  have used: "unat used = ceil_div (unat v * unat w) 1000000"
    using integer_divide_ceil_Inr [OF 1] by (simp add: window_product)
  have "unat units \<le> unat (?m - used)" using assms(3) unfolding 2(2) by (simp only: of_nat_le_iff)
  moreover have "unat (?m - used) = unat ?m - unat used" "unat used < unat ?m"
    using 2(1) by (simp_all add: unat_sub word_le_nat_alt)
  ultimately have "ceil_div (unat v * unat w) 1000000 + unat units \<le> unat ?m"
    unfolding used by linarith
  then have "unat v' * unat w div 1000000 \<le> unat ?m"
    unfolding assms(6) by (rule share_arith [OF assms(4,5)])
  then show ?thesis by (simp add: within_share_def word_le_nat_alt unat_div_distrib window_product)
qed

lemma limit_available_nonneg:
  "account_limit max_block virtual_limit w greylist weight tot v = Inr (arl, b) \<Longrightarrow> 0 \<le> limit_available arl"
  unfolding account_limit_def Let_def
  by (elim bind_res_InrE) (auto dest!: downgrade_int64_Inr split: if_splits)

lemma add_in_period:
  assumes "accumulator_add units slot w a = Inr a'" and "last_ordinal a = slot"
  shows "unat (value_ex a') = unat (value_ex a) + ceil_div (unat units * 1000000) (unat w)" and "0 < unat w"
proof -
  from assms(1) have "0 < unat w \<and> unat (value_ex a') = unat (value_ex a) + ceil_div (unat units * 1000000) (unat w)"
  proof (rule accumulator_add_cases)
    fix x c
    assume c: "0 < unat w" "unat c = ceil_div (unat units * 1000000) (unat w)" "unat (value_ex a) + unat c < 2 ^ 64"
      and x: "unat (value_ex x) = decayed slot w a" "a' = x\<lparr>consumed := consumed x + units, value_ex := value_ex x + c\<rparr>"
    have "unat (value_ex x) = unat (value_ex a)" using x(1) assms(2) by (simp add: decayed_def)
    with c x(2) show ?thesis by (simp add: unat_add_exact)
  qed
  then show "unat (value_ex a') = unat (value_ex a) + ceil_div (unat units * 1000000) (unat w)" "0 < unat w" by auto
qed

text \<open>
  C18: What the chain reports as available can be used: when the queries of CPU and network
  report an account as unlimited, or as having some positive amount that covers the units of a
  transaction in the current period, and no counter overflows, the transaction is charged to
  the account and not refused, in spite of the different rounding of the two computations.
\<close>

theorem available_is_accepted:
  assumes "get_account_cpu_limit a g db = Inr (cpu, False)" and "cpu = - 1 \<or> 0 < cpu \<and> int (unat cpu_units) \<le> cpu"
    and "get_account_net_limit a g db = Inr (net, False)" and "net = - 1 \<or> 0 < net \<and> int (unat net_units) \<le> net"
    and "usage_table db a = Some u" and "last_ordinal (cpu_usage u) = slot" and "last_ordinal (net_usage u) = slot"
    and "add_usage (limits_config db) cpu_units net_units slot u = Inr u'"
    and "unat (account_cpu_usage_average_window (limits_config db)) \<le> 1000000"
    and "unat (account_net_usage_average_window (limits_config db)) \<le> 1000000"
  shows "charge_account cpu_units net_units slot a db = Inr (db\<lparr>usage_table := (usage_table db)(a \<mapsto> u')\<rparr>)"
proof -
  let ?cfg = "limits_config db" and ?st = "limits_state db"
  from assms(8) have adds: "accumulator_add cpu_units slot (account_cpu_usage_average_window ?cfg) (cpu_usage u) = Inr (cpu_usage u')"
      "accumulator_add net_units slot (account_net_usage_average_window ?cfg) (net_usage u) = Inr (net_usage u')"
    by (auto simp: add_usage_def)
  from assms(1,5) obtain l where l: "get_account_limits a db = Inr l"
    by (auto simp: get_account_cpu_limit_def get_account_cpu_limit_ex_def Let_def)
  have "within_share (virtual_cpu_limit ?st) (account_cpu_usage_average_window ?cfg) (cpu_weight l)
      (total_cpu_weight ?st) (value_ex (cpu_usage u'))" if "cpu_weight l \<ge> 0" "total_cpu_weight ?st > 0"
  proof -
    from assms(1,5) l that obtain arl where arl: "account_limit (max_usage (cpu_limit_parameters ?cfg)) (virtual_cpu_limit ?st)
        (account_cpu_usage_average_window ?cfg) g (cpu_weight l) (total_cpu_weight ?st) (value_ex (cpu_usage u)) = Inr (arl, False)"
        "cpu = limit_available arl"
      by (auto simp: get_account_cpu_limit_def get_account_cpu_limit_ex_def Let_def word_gt_0 split: if_splits)
    show ?thesis
      using arl(1) limit_available_nonneg [OF arl(1)] assms(2) add_in_period [OF adds(1) assms(6)] assms(9)
      by (intro account_limit_share [OF arl(1), of cpu_units]) (auto simp: arl(2))
  qed
  moreover have "within_share (virtual_net_limit ?st) (account_net_usage_average_window ?cfg) (net_weight l)
      (total_net_weight ?st) (value_ex (net_usage u'))" if "net_weight l \<ge> 0" "total_net_weight ?st > 0"
  proof -
    from assms(3,5) l that obtain arl where arl: "account_limit (max_usage (net_limit_parameters ?cfg)) (virtual_net_limit ?st)
        (account_net_usage_average_window ?cfg) g (net_weight l) (total_net_weight ?st) (value_ex (net_usage u)) = Inr (arl, False)"
        "net = limit_available arl"
      by (auto simp: get_account_net_limit_def get_account_net_limit_ex_def Let_def word_gt_0 split: if_splits)
    show ?thesis
      using arl(1) limit_available_nonneg [OF arl(1)] assms(4) add_in_period [OF adds(2) assms(7)] assms(10)
      by (intro account_limit_share [OF arl(1), of net_units]) (auto simp: arl(2))
  qed
  ultimately show ?thesis
    using assms(5,8) l by (simp add: charge_account_def Let_def)
qed

section \<open>The manager as a state machine\<close>

datatype resource_op =
    Initialize_Account name
  | Set_Block_Parameters elastic_limit_parameters elastic_limit_parameters
  | Update_Account_Usage "name list" u32
  | Add_Transaction_Usage "name list" u64 u64 u32
  | Add_Pending_Ram_Usage name int
  | Set_Account_Limits name int int int
  | Process_Account_Limit_Updates
  | Process_Block_Usage u32

primrec resource_call :: "resource_op \<Rightarrow> resource_db \<Rightarrow> resource_db metered" where
  "resource_call (Initialize_Account a) db = initialize_account a db"
| "resource_call (Set_Block_Parameters cpu net) db = set_block_parameters cpu net db"
| "resource_call (Update_Account_Usage as slot) db = update_account_usage as slot db"
| "resource_call (Add_Transaction_Usage as cpu net slot) db = add_transaction_usage as cpu net slot db"
| "resource_call (Add_Pending_Ram_Usage a delta) db = add_pending_ram_usage a delta db"
| "resource_call (Set_Account_Limits a ram net cpu) db =
     bind_res (set_account_limits a ram net cpu db) (\<lambda>(decreased, db). Inr db)"
| "resource_call Process_Account_Limit_Updates db = process_account_limit_updates db"
| "resource_call (Process_Block_Usage n) db = process_block_usage n db"

text \<open>The weights and limits of a call are 64-bit integers.\<close>

primrec well_typed_op :: "resource_op \<Rightarrow> bool" where
  "well_typed_op (Initialize_Account a) \<longleftrightarrow> True"
| "well_typed_op (Set_Block_Parameters cpu net) \<longleftrightarrow> True"
| "well_typed_op (Update_Account_Usage as slot) \<longleftrightarrow> True"
| "well_typed_op (Add_Transaction_Usage as cpu net slot) \<longleftrightarrow> True"
| "well_typed_op (Add_Pending_Ram_Usage a delta) \<longleftrightarrow> in_int64 delta"
| "well_typed_op (Set_Account_Limits a ram net cpu) \<longleftrightarrow> in_int64 ram \<and> in_int64 net \<and> in_int64 cpu"
| "well_typed_op Process_Account_Limit_Updates \<longleftrightarrow> True"
| "well_typed_op (Process_Block_Usage n) \<longleftrightarrow> True"

inductive resource_reachable :: "resource_db \<Rightarrow> bool" where
  start: "resource_reachable initialize_database"
| step: "resource_reachable db \<Longrightarrow> well_typed_op call \<Longrightarrow> resource_call call db = Inr db' \<Longrightarrow> resource_reachable db'"

section \<open>Totals and pending limits\<close>

definition row_ok :: "limits_row \<Rightarrow> bool" where
  "row_ok l \<longleftrightarrow> in_int64 (ram_bytes l) \<and> in_int64 (net_weight l) \<and> in_int64 (cpu_weight l)"

definition positive_sum :: "(limits_row \<Rightarrow> int) \<Rightarrow> resource_db \<Rightarrow> int" where
  "positive_sum f db = table_sum (limits_table db) (\<lambda>a l. max 0 (f l))"

definition totals_ok :: "resource_db \<Rightarrow> bool" where
  "totals_ok db \<longleftrightarrow> finite (dom (limits_table db)) \<and> (\<forall>a l. limits_table db a = Some l \<longrightarrow> row_ok l)
     \<and> uint (total_ram_bytes (limits_state db)) = positive_sum ram_bytes db
     \<and> uint (total_net_weight (limits_state db)) = positive_sum net_weight db
     \<and> uint (total_cpu_weight (limits_state db)) = positive_sum cpu_weight db"

definition pending_ok :: "resource_db \<Rightarrow> bool" where
  "pending_ok db \<longleftrightarrow> sorted_wrt (<) (map fst (pending_limits db))
     \<and> (\<forall>(a, l) \<in> set (pending_limits db). row_ok l \<and> a \<in> dom (limits_table db))"

definition same_limits :: "resource_db \<Rightarrow> resource_db \<Rightarrow> bool" where
  "same_limits db db' \<longleftrightarrow> limits_table db' = limits_table db \<and> pending_limits db' = pending_limits db
     \<and> total_ram_bytes (limits_state db') = total_ram_bytes (limits_state db)
     \<and> total_net_weight (limits_state db') = total_net_weight (limits_state db)
     \<and> total_cpu_weight (limits_state db') = total_cpu_weight (limits_state db)"

lemma same_limits_refl: "same_limits db db"
  by (simp add: same_limits_def)

lemma same_limits_trans: "same_limits a b \<Longrightarrow> same_limits b c \<Longrightarrow> same_limits a c"
  by (simp add: same_limits_def)

lemma same_limits_ok: "same_limits db db' \<Longrightarrow> totals_ok db \<Longrightarrow> totals_ok db'"
  "same_limits db db' \<Longrightarrow> pending_ok db \<Longrightarrow> pending_ok db'"
  by (simp_all add: same_limits_def totals_ok_def pending_ok_def positive_sum_def)

lemma charge_account_same: "charge_account cpu net slot a db = Inr db' \<Longrightarrow> same_limits db db'"
  by (auto simp: charge_account_def Let_def same_limits_def)

lemma usage_same:
  "update_account_usage as slot db = Inr db' \<Longrightarrow> same_limits db db'"
  "add_transaction_usage as cpu net slot db = Inr db' \<Longrightarrow> same_limits db db'"
  "add_pending_ram_usage a delta db = Inr db' \<Longrightarrow> same_limits db db'"
  "set_block_parameters p q db = Inr db' \<Longrightarrow> same_limits db db'"
  "process_block_usage n db = Inr db' \<Longrightarrow> same_limits db db'"
proof -
  show "update_account_usage as slot db = Inr db' \<Longrightarrow> same_limits db db'"
    unfolding update_account_usage_def
    by (erule for_each_rel [where R = same_limits])
      (auto intro: same_limits_refl same_limits_trans simp: same_limits_def [of _ "_ \<lparr>usage_table := _\<rparr>"])
  show "same_limits db db'" if run: "add_transaction_usage as cpu net slot db = Inr db'"
  proof -
    from run obtain db1 where 1: "for_each (charge_account cpu net slot) as db = Inr db1" and "same_limits db1 db'"
      by (auto simp: add_transaction_usage_def Let_def same_limits_def)
    moreover have "same_limits db db1"
      using 1 by (rule for_each_rel [where R = same_limits])
        (auto intro: same_limits_refl same_limits_trans charge_account_same)
    ultimately show ?thesis using same_limits_trans by blast
  qed
qed (auto simp: add_pending_ram_usage_def set_block_parameters_def process_block_usage_def update_virtual_cpu_limit_def
    update_virtual_net_limit_def same_limits_def Let_def split: if_splits)

lemma uint_of_int64: "0 \<le> v \<Longrightarrow> in_int64 v \<Longrightarrow> uint (of_int v :: u64) = v"
  by (simp add: in_int64_def uint_word_of_int)

lemma uint_room: "- 1 - x \<ge> y \<longleftrightarrow> uint x + uint y < 2 ^ 64" for x y :: u64
  using unat_room [of y x] by (simp add: add.commute flip: of_nat_less_iff [where 'a = int])

lemma uint_add_exact: "uint x + uint y < 2 ^ 64 \<Longrightarrow> uint (x + y :: u64) = uint x + uint y"
  by (simp add: uint_add_lem [THEN iffD1])

lemma update_state_and_value_Inr:
  assumes "update_state_and_value tot v p = Inr tot'" and "in_int64 v" and "in_int64 p"
  shows "uint tot' = uint tot - max 0 v + max 0 p"
proof -
  from assms(1) obtain t where
    1: "(if v > 0 then check (tot \<ge> of_int v) rate_limiting_state_inconsistent (Inr (tot - of_int v)) else Inr tot) = Inr t"
    and 2: "(if p > 0 then check (- 1 - t \<ge> of_int p) rate_limiting_state_inconsistent (Inr (t + of_int p)) else Inr t) = Inr tot'"
    by (auto simp: update_state_and_value_def)
  have "uint t = uint tot - max 0 v"
    using 1 assms(2) by (auto simp: uint_of_int64 uint_sub_lem [THEN iffD1] word_le_def split: if_splits)
  moreover have "uint tot' = uint t + max 0 p"
    using 2 assms(3) by (auto simp: uint_of_int64 uint_room uint_add_exact split: if_splits)
  ultimately show ?thesis by simp
qed

lemma apply_pending_Inr:
  assumes "apply_pending (a, p) db = Inr db'" and "totals_ok db" and "row_ok p"
  shows "totals_ok db'" and "limits_table db' = (limits_table db)(a \<mapsto> p)" and "a \<in> dom (limits_table db)"
    and "pending_limits db' = filter (\<lambda>q. fst q \<noteq> a) (pending_limits db)"
proof -
  let ?s = "limits_state db"
  from assms(1) obtain l ram cpu net where l: "limits_table db a = Some l"
    and upd: "update_state_and_value (total_ram_bytes ?s) (ram_bytes l) (ram_bytes p) = Inr ram"
      "update_state_and_value (total_cpu_weight ?s) (cpu_weight l) (cpu_weight p) = Inr cpu"
      "update_state_and_value (total_net_weight ?s) (net_weight l) (net_weight p) = Inr net"
    and db': "db' = db\<lparr>limits_table := (limits_table db)(a \<mapsto> p),
        pending_limits := filter (\<lambda>q. fst q \<noteq> a) (pending_limits db),
        limits_state := ?s\<lparr>total_ram_bytes := ram, total_cpu_weight := cpu, total_net_weight := net\<rparr>\<rparr>"
    by (auto simp: apply_pending_def Let_def)
  have "row_ok l" using assms(2) l by (auto simp: totals_ok_def)
  then have "uint ram = uint (total_ram_bytes ?s) - max 0 (ram_bytes l) + max 0 (ram_bytes p)"
      "uint cpu = uint (total_cpu_weight ?s) - max 0 (cpu_weight l) + max 0 (cpu_weight p)"
      "uint net = uint (total_net_weight ?s) - max 0 (net_weight l) + max 0 (net_weight p)"
    using assms(3) by (auto simp: row_ok_def intro!: update_state_and_value_Inr upd)
  then show "totals_ok db'"
    using assms(2,3) l by (auto simp: totals_ok_def db' positive_sum_def table_sum_upd split: if_splits)
qed (use assms(1) in \<open>auto simp: apply_pending_def Let_def\<close>)

lemma process_loop:
  assumes "for_each apply_pending ps db = Inr db'" and "totals_ok db" and "\<forall>(a, l) \<in> set ps. row_ok l"
    and "distinct (map fst ps)"
  shows "totals_ok db' \<and> limits_table db' = limits_table db ++ map_of ps
    \<and> pending_limits db' = filter (\<lambda>q. fst q \<notin> fst ` set ps) (pending_limits db)"
  using assms
proof (induction ps arbitrary: db)
  case (Cons q ps)
  obtain a p where q: "q = (a, p)" by (cases q)
  from Cons.prems(1) obtain db1 where 1: "apply_pending (a, p) db = Inr db1" "for_each apply_pending ps db1 = Inr db'"
    by (auto simp: q)
  have "row_ok p" using Cons.prems(3) by (simp add: q)
  note step = apply_pending_Inr [OF 1(1) Cons.prems(2) this]
  have "totals_ok db' \<and> limits_table db' = limits_table db1 ++ map_of ps
      \<and> pending_limits db' = filter (\<lambda>q. fst q \<notin> fst ` set ps) (pending_limits db1)"
    using Cons.IH [OF 1(2) step(1)] Cons.prems(3,4) by simp
  moreover have "(limits_table db)(a \<mapsto> p) ++ map_of ps = limits_table db ++ map_of (q # ps)"
    using Cons.prems(4) by (simp add: q map_add_upd_left dom_map_of_conv_image_fst)
  moreover have "filter (\<lambda>q. fst q \<notin> fst ` set ps) (filter (\<lambda>q. fst q \<noteq> a) (pending_limits db))
      = filter (\<lambda>x. fst x \<notin> fst ` set (q # ps)) (pending_limits db)"
    by (auto simp: q intro: filter_cong)
  ultimately show ?case using step(2,4) by (simp del: map_of.simps)
qed simp

lemma process_updates:
  assumes "process_account_limit_updates db = Inr db'" and "totals_ok db" and "pending_ok db"
  shows "totals_ok db'" and "pending_limits db' = []"
    and "limits_table db' = limits_table db ++ map_of (pending_limits db)"
proof -
  have "distinct (map fst (pending_limits db))" using assms(3) by (auto simp: pending_ok_def strict_sorted_iff)
  moreover have "\<forall>(a, l) \<in> set (pending_limits db). row_ok l" using assms(3) by (auto simp: pending_ok_def)
  ultimately show "totals_ok db'" "limits_table db' = limits_table db ++ map_of (pending_limits db)" "pending_limits db' = []"
    using process_loop [OF assms(1) [unfolded process_account_limit_updates_def] assms(2)]
    by (auto simp: filter_empty_conv)
qed

lemma put_pending_map: "map_of (put_pending a l ps) = (map_of ps)(a \<mapsto> l)"
  by (induction a l ps rule: put_pending.induct) auto

lemma put_pending_set: "set (put_pending a l ps) \<subseteq> insert (a, l) (set ps)"
  by (induction a l ps rule: put_pending.induct) auto

lemma put_pending_sorted: "sorted_wrt (<) (map fst ps) \<Longrightarrow> sorted_wrt (<) (map fst (put_pending a l ps))"
proof (induction a l ps rule: put_pending.induct)
  case (2 a l b l' ps)
  have "fst ` set (put_pending a l ps) \<subseteq> insert a (fst ` set ps)" using put_pending_set [of a l ps] by force
  with 2 show ?case by fastforce
qed simp

lemma same_limits_call:
  assumes "resource_call call db = Inr db'"
    and "case call of Initialize_Account a \<Rightarrow> False | Set_Account_Limits a ram net cpu \<Rightarrow> False
         | Process_Account_Limit_Updates \<Rightarrow> False | _ \<Rightarrow> True"
  shows "same_limits db db'"
  using assms by (cases call) (simp_all add: usage_same)

abbreviation unlimited_row :: limits_row where
  "unlimited_row \<equiv> \<lparr>net_weight = - 1, cpu_weight = - 1, ram_bytes = - 1\<rparr>"

lemma initialize_account_Inr:
  assumes "initialize_account a db = Inr db'"
  shows "limits_table db a = None" and "limits_table db' = (limits_table db)(a \<mapsto> unlimited_row)"
    and "pending_limits db' = pending_limits db" and "limits_state db' = limits_state db"
  using assms by (auto simp: initialize_account_def table_emplace_def split: if_splits)

lemma initialize_account_ok:
  assumes "initialize_account a db = Inr db'" and "totals_ok db" and "pending_ok db"
  shows "totals_ok db'" and "pending_ok db'"
proof -
  note new = initialize_account_Inr [OF assms(1)]
  have "row_ok unlimited_row" by (simp add: row_ok_def in_int64_def)
  then have "\<forall>b l. limits_table db' b = Some l \<longrightarrow> row_ok l"
    using assms(2) by (auto simp: new(2) totals_ok_def)
  moreover have "positive_sum f db' = positive_sum f db" if "f unlimited_row = - 1" for f
    using assms(2) new(1) that by (simp add: positive_sum_def new(2) totals_ok_def table_sum_upd)
  ultimately show "totals_ok db'"
    using assms(2) by (simp add: totals_ok_def new(2,4))
  show "pending_ok db'"
    using assms(3) by (auto simp: pending_ok_def new(2,3))
qed

lemma set_account_limits_ok:
  assumes "set_account_limits a ram net cpu db = Inr (d, db')" and "in_int64 ram" and "in_int64 net" and "in_int64 cpu"
    and "totals_ok db" and "pending_ok db"
  shows "totals_ok db'" and "pending_ok db'"
proof -
  let ?l = "\<lparr>net_weight = net, cpu_weight = cpu, ram_bytes = ram\<rparr>"
  from assms(1) obtain l where l: "get_account_limits a db = Inr l"
    and new: "db' = db\<lparr>pending_limits := put_pending a ?l (pending_limits db)\<rparr>"
    by (auto simp: set_account_limits_def Let_def)
  have "a \<in> dom (limits_table db)"
  proof (cases "map_of (pending_limits db) a")
    case None
    with l show ?thesis by (auto simp: get_account_limits_def table_get_def split: option.splits)
  next
    case (Some l')
    then show ?thesis using assms(6) by (auto simp: pending_ok_def dest!: map_of_SomeD)
  qed
  moreover have "row_ok ?l" using assms(2,3,4) by (simp add: row_ok_def)
  ultimately have "\<forall>(b, l) \<in> insert (a, ?l) (set (pending_limits db)). row_ok l \<and> b \<in> dom (limits_table db)"
    using assms(6) by (simp add: pending_ok_def)
  then show "pending_ok db'"
    using assms(6) put_pending_set [of a ?l "pending_limits db"]
    by (simp add: pending_ok_def new put_pending_sorted) blast
  show "totals_ok db'" using assms(5) by (simp add: totals_ok_def positive_sum_def new)
qed

lemma resource_call_ok:
  assumes "resource_call call db = Inr db'" and "well_typed_op call" and "totals_ok db" and "pending_ok db"
  shows "totals_ok db' \<and> pending_ok db'"
proof (cases call)
  case (Initialize_Account a)
  then show ?thesis using assms(1,3,4) initialize_account_ok [of a db db'] by simp
next
  case (Set_Account_Limits a ram net cpu)
  with assms(1) obtain d where "set_account_limits a ram net cpu db = Inr (d, db')" by auto
  with Set_Account_Limits assms(2,3,4) show ?thesis
    using set_account_limits_ok [of a ram net cpu db d db'] by simp
next
  case Process_Account_Limit_Updates
  then show ?thesis
    using process_updates [OF _ assms(3,4), of db'] assms(1) by (simp add: pending_ok_def)
qed (use same_limits_ok [OF same_limits_call [OF assms(1)]] assms(3,4) in simp_all)

lemma reachable_ok: "resource_reachable db \<Longrightarrow> totals_ok db \<and> pending_ok db"
proof (induction rule: resource_reachable.induct)
  case start
  show ?case
    by (simp add: totals_ok_def pending_ok_def positive_sum_def initialize_database_def table_sum_def)
next
  case (step db call db')
  then show ?case using resource_call_ok by blast
qed

text \<open>
  C4: In every state the manager can reach, whatever calls are made and in whatever order, the
  totals it divides the shares by are exact: the total of RAM, of network weight and of CPU
  weight is the sum over the accounts of their limit in force, where an unlimited account counts
  as nothing. The totals never wrap and no limit is counted twice or left behind.
\<close>

theorem totals_exact:
  assumes "resource_reachable db"
  shows "uint (total_ram_bytes (limits_state db)) = table_sum (limits_table db) (\<lambda>a l. max 0 (ram_bytes l))
    \<and> uint (total_net_weight (limits_state db)) = table_sum (limits_table db) (\<lambda>a l. max 0 (net_weight l))
    \<and> uint (total_cpu_weight (limits_state db)) = table_sum (limits_table db) (\<lambda>a l. max 0 (cpu_weight l))"
  using reachable_ok [OF assms] by (simp add: totals_ok_def positive_sum_def)

section \<open>Refinement of the two limit rows to one\<close>

text \<open>
  The specification keeps one row of limits per account, changed at once. The code keeps the
  row in force and a pending row that \<open>process_account_limit_updates\<close> moves there.
\<close>

definition effective_limits :: "resource_db \<Rightarrow> name \<rightharpoonup> limits_row" where
  "effective_limits db = limits_table db ++ map_of (pending_limits db)"

definition limits_spec :: "resource_op \<Rightarrow> (name \<rightharpoonup> limits_row) \<Rightarrow> name \<rightharpoonup> limits_row" where
  "limits_spec call t =
     (case call of
        Initialize_Account a \<Rightarrow> t(a \<mapsto> \<lparr>net_weight = - 1, cpu_weight = - 1, ram_bytes = - 1\<rparr>)
      | Set_Account_Limits a ram net cpu \<Rightarrow> t(a \<mapsto> \<lparr>net_weight = net, cpu_weight = cpu, ram_bytes = ram\<rparr>)
      | _ \<Rightarrow> t)"

lemma same_limits_effective: "same_limits db db' \<Longrightarrow> effective_limits db' = effective_limits db"
  by (simp add: same_limits_def effective_limits_def)

text \<open>
  C17: The pending rows are invisible: every call of the manager, the block-end processing of
  the pending updates included, acts on what \<open>get_account_limits\<close> reports as the specification with one
  row per account does, so that setting limits takes effect at once and processing them
  changes the report of no account.
\<close>

theorem limits_refine:
  assumes "resource_reachable db" and "well_typed_op call" and "resource_call call db = Inr db'"
  shows "effective_limits db' = limits_spec call (effective_limits db)
    \<and> (\<forall>a. get_account_limits a db = table_get (effective_limits db) a row_not_found)"
proof (intro conjI allI)
  note ok = reachable_ok [OF assms(1)]
  show "effective_limits db' = limits_spec call (effective_limits db)"
  proof (cases call)
    case (Initialize_Account a)
    with assms(3) have "initialize_account a db = Inr db'" by simp
    note new = initialize_account_Inr [OF this]
    have "a \<notin> dom (map_of (pending_limits db))"
      using ok new(1) by (auto simp: pending_ok_def dest!: map_of_SomeD)
    then show ?thesis by (simp add: Initialize_Account effective_limits_def limits_spec_def map_add_upd_left new)
  next
    case (Set_Account_Limits a ram net cpu)
    with assms(3) show ?thesis
      by (auto simp: set_account_limits_def Let_def effective_limits_def limits_spec_def put_pending_map)
  next
    case Process_Account_Limit_Updates
    with process_updates [of db db'] ok assms(3) show ?thesis by (simp add: effective_limits_def limits_spec_def)
  qed (use same_limits_effective [OF same_limits_call [OF assms(3)]] in \<open>simp_all add: limits_spec_def\<close>)
  show "get_account_limits a db = table_get (effective_limits db) a row_not_found" for a
    by (simp add: get_account_limits_def effective_limits_def table_get_def map_add_def split: option.splits)
qed

section \<open>RAM\<close>

lemma uint_minus_int64:
  assumes "d < 0" and "in_int64 d"
  shows "uint (of_int (- d) :: u64) = - d"
proof -
  have "uint (word_of_int (- d) :: u64) = - d" using assms unfolding uint_word_of_int by (simp add: in_int64_def)
  then show ?thesis by simp
qed

lemma add_pending_ram_usage_exact:
  assumes "usage_table db a = Some u" and "in_int64 d" and "d \<noteq> - (2 ^ 63)"
  shows "case add_pending_ram_usage a d db of
           Inl e \<Rightarrow> e = transaction_exception \<and> \<not> (0 \<le> uint (ram_usage u) + d \<and> uint (ram_usage u) + d < 2 ^ 64)
         | Inr db' \<Rightarrow> \<exists>r. db' = db\<lparr>usage_table := (usage_table db)(a \<mapsto> u\<lparr>ram_usage := r\<rparr>)\<rparr>
             \<and> uint r = uint (ram_usage u) + d"
proof -
  consider (zero) "d = 0" | (pos) "d > 0" | (neg) "d < 0" by linarith
  then show ?thesis
  proof cases
    case zero
    have "db = db\<lparr>usage_table := (usage_table db)(a \<mapsto> u\<lparr>ram_usage := ram_usage u\<rparr>)\<rparr>"
      using assms(1) by (simp add: map_upd_triv)
    then have "\<exists>r. db = db\<lparr>usage_table := (usage_table db)(a \<mapsto> u\<lparr>ram_usage := r\<rparr>)\<rparr> \<and> uint r = uint (ram_usage u) + d"
      using zero by (intro exI [of _ "ram_usage u"]) simp
    with zero show ?thesis by (simp add: add_pending_ram_usage_def)
  next
    case pos
    have d: "uint (of_int d :: u64) = d" using pos assms(2) by (simp add: uint_of_int64)
    have "uint (ram_usage u + of_int d) = uint (ram_usage u) + d" if "uint (ram_usage u) + d < 2 ^ 64"
      using that uint_add_exact [of "ram_usage u" "of_int d"] by (simp add: d)
    moreover have "- 1 - ram_usage u \<ge> of_int d \<longleftrightarrow> uint (ram_usage u) + d < 2 ^ 64"
      by (simp add: uint_room d)
    ultimately show ?thesis using pos assms(1)
      by (auto simp: add_pending_ram_usage_def table_get_def check_def)
  next
    case neg
    have d: "uint (of_int (- d) :: u64) = - d" using neg assms(2) by (rule uint_minus_int64)
    have le: "ram_usage u \<ge> of_int (- d) \<longleftrightarrow> 0 \<le> uint (ram_usage u) + d"
      unfolding word_le_def d by linarith
    have "uint (ram_usage u - of_int (- d)) = uint (ram_usage u) + d" if "0 \<le> uint (ram_usage u) + d"
      using that by (subst uint_sub_lem [THEN iffD1]) (use d in simp_all)
    then have "uint (ram_usage u + of_int d) = uint (ram_usage u) + d" if "0 \<le> uint (ram_usage u) + d"
      using that by simp
    with neg le assms(1) show ?thesis
      by (auto simp: add_pending_ram_usage_def table_get_def check_def)
  qed
qed

text \<open>
  C38: Charging RAM is exact: for every account with a usage row and every 64-bit delta (the least
  one, whose negation is undefined in C++, apart) the call
  succeeds just when the usage plus the delta is a number of 64 bits that is not negative, and
  then that number is the new usage and nothing else changes; otherwise it is refused.
\<close>

theorem ram_usage_exact:
  assumes "usage_table db a = Some u" and "in_int64 d" and "d \<noteq> - (2 ^ 63)"
  shows "case add_pending_ram_usage a d db of
           Inl e \<Rightarrow> e = transaction_exception \<and> \<not> (0 \<le> uint (ram_usage u) + d \<and> uint (ram_usage u) + d < 2 ^ 64)
         | Inr db' \<Rightarrow> \<exists>r. db' = db\<lparr>usage_table := (usage_table db)(a \<mapsto> u\<lparr>ram_usage := r\<rparr>)\<rparr>
             \<and> uint r = uint (ram_usage u) + d"
  using assms by (rule add_pending_ram_usage_exact)

section \<open>Elastic block limits\<close>

definition rate_for :: "u64 \<Rightarrow> elastic_limit_parameters \<Rightarrow> ratio" where
  "rate_for average_usage p = (if average_usage > target_usage p then contract_rate p else expand_rate p)"

lemma unat_min: "unat (min x y :: u64) = min (unat x) (unat y)"
  by (simp add: min_def word_le_nat_alt)

lemma unat_max: "unat (max x y :: u64) = max (unat x) (unat y)"
  by (simp add: max_def word_le_nat_alt)

lemma update_elastic_limit_Inr:
  assumes "update_elastic_limit v avg p = Inr v'" and "unat (max_usage p) * unat (max_multiplier p) < 2 ^ 64"
  shows "unat v' = min (max (unat v * unat (numerator (rate_for avg p)) div unat (denominator (rate_for avg p))) (unat (max_usage p)))
    (unat (max_usage p) * unat (max_multiplier p))"
proof -
  from assms(1) obtain w where w: "times_ratio v (rate_for avg p) = Inr w"
      "v' = min (max w (max_usage p)) (max_usage p * ucast (max_multiplier p))"
    by (auto simp: update_elastic_limit_def rate_for_def)
  have "unat (max_usage p * ucast (max_multiplier p)) = unat (max_usage p) * unat (max_multiplier p)"
    using assms(2) by (subst unat_mult_exact) (simp_all add: unat_ucast_32_64)
  then show ?thesis using w times_ratio_Inr [OF w(1)] by (simp add: unat_min unat_max)
qed

text \<open>
  C37: At the end of a block the virtual CPU and network limits follow the elastic rule exactly:
  the old limit is multiplied by the contracting ratio when the moving average, the block
  included, is above the target and by the expanding ratio otherwise, rounded down, and then
  held between the configured maximum and the maximum times the multiplier. The usage of the
  block is set back to zero.
\<close>

theorem block_limits_elastic:
  assumes "process_block_usage n db = Inr db'"
    and "cpu = cpu_limit_parameters (limits_config db)" and "net = net_limit_parameters (limits_config db)"
    and "unat (max_usage cpu) * unat (max_multiplier cpu) < 2 ^ 64"
    and "unat (max_usage net) * unat (max_multiplier net) < 2 ^ 64"
    and "rc = rate_for (average (average_block_cpu_usage (limits_state db'))) cpu"
    and "rn = rate_for (average (average_block_net_usage (limits_state db'))) net"
  shows "unat (virtual_cpu_limit (limits_state db')) =
      min (max (unat (virtual_cpu_limit (limits_state db)) * unat (numerator rc) div unat (denominator rc)) (unat (max_usage cpu)))
        (unat (max_usage cpu) * unat (max_multiplier cpu))
    \<and> unat (virtual_net_limit (limits_state db')) =
      min (max (unat (virtual_net_limit (limits_state db)) * unat (numerator rn) div unat (denominator rn)) (unat (max_usage net)))
        (unat (max_usage net) * unat (max_multiplier net))
    \<and> get_block_cpu_limit db' = max_usage cpu \<and> get_block_net_limit db' = max_usage net"
  using assms(1) update_elastic_limit_Inr [OF _ assms(4)] update_elastic_limit_Inr [OF _ assms(5)]
  by (auto simp: process_block_usage_def update_virtual_cpu_limit_def update_virtual_net_limit_def Let_def
      get_block_cpu_limit_def get_block_net_limit_def assms(2,3,6,7))

section \<open>A run of the manager\<close>

text \<open>Two accounts get limits, which come into force; one of them uses RAM.\<close>

definition demo_calls :: "resource_op list" where
  "demo_calls =
     [Initialize_Account 5, Initialize_Account 7, Set_Account_Limits 7 2000 5 20, Set_Account_Limits 5 1000 10 10,
      Process_Account_Limit_Updates, Add_Pending_Ram_Usage 5 400, Set_Account_Limits 7 (- 1) 1 1]"

definition demo_resources :: resource_db where
  "demo_resources =
     initialize_database
       \<lparr>limits_table := [5 \<mapsto> \<lparr>net_weight = 10, cpu_weight = 10, ram_bytes = 1000\<rparr>,
                         7 \<mapsto> \<lparr>net_weight = 5, cpu_weight = 20, ram_bytes = 2000\<rparr>],
        pending_limits := [(7, \<lparr>net_weight = 1, cpu_weight = 1, ram_bytes = - 1\<rparr>)],
        usage_table := [5 \<mapsto> \<lparr>net_usage = empty_accumulator, cpu_usage = empty_accumulator, ram_usage = 400\<rparr>,
                        7 \<mapsto> \<lparr>net_usage = empty_accumulator, cpu_usage = empty_accumulator, ram_usage = 0\<rparr>],
        limits_state := (limits_state initialize_database)
          \<lparr>total_net_weight := 15, total_cpu_weight := 30, total_ram_bytes := 3000\<rparr>\<rparr>"

lemma for_each_reachable:
  "for_each resource_call cs db = Inr db' \<Longrightarrow> resource_reachable db \<Longrightarrow> list_all well_typed_op cs \<Longrightarrow> resource_reachable db'"
  by (induction cs arbitrary: db) (auto intro: resource_reachable.step)

lemma demo_resources_run: "for_each resource_call demo_calls initialize_database = Inr demo_resources"
  by (simp add: demo_calls_def demo_resources_def initialize_database_def initialize_account_def set_account_limits_def
      get_account_limits_def table_get_def table_emplace_def process_account_limit_updates_def apply_pending_def
      update_state_and_value_def add_pending_ram_usage_def Let_def check_def word_le_nat_alt unat_max64 fun_upd_twist)

lemma demo_resources_reachable: "resource_reachable demo_resources"
  by (rule for_each_reachable [OF demo_resources_run resource_reachable.start])
    (simp add: demo_calls_def in_int64_def)

theorem totals_exact_witness:
  "resource_reachable demo_resources
    \<and> table_sum (limits_table demo_resources) (\<lambda>a l. max 0 (ram_bytes l)) = 3000
    \<and> table_sum (limits_table demo_resources) (\<lambda>a l. max 0 (net_weight l)) = 15
    \<and> table_sum (limits_table demo_resources) (\<lambda>a l. max 0 (cpu_weight l)) = 30"
  using totals_exact [OF demo_resources_reachable] demo_resources_reachable by (simp add: demo_resources_def)

theorem limits_refine_witness:
  "\<exists>db'. resource_call Process_Account_Limit_Updates demo_resources = Inr db'
    \<and> pending_limits demo_resources \<noteq> [] \<and> pending_limits db' = []
    \<and> effective_limits db' = effective_limits demo_resources
    \<and> get_account_limits 7 demo_resources = Inr \<lparr>net_weight = 1, cpu_weight = 1, ram_bytes = - 1\<rparr>"
proof -
  obtain db' where db': "resource_call Process_Account_Limit_Updates demo_resources = Inr db'" "pending_limits db' = []"
    by (simp add: demo_resources_def initialize_database_def table_get_def process_account_limit_updates_def
        apply_pending_def update_state_and_value_def Let_def check_def word_le_nat_alt unat_max64)
  have "effective_limits db' = limits_spec Process_Account_Limit_Updates (effective_limits demo_resources)
      \<and> (\<forall>a. get_account_limits a demo_resources = table_get (effective_limits demo_resources) a row_not_found)"
    by (rule limits_refine [OF demo_resources_reachable _ db'(1)]) simp
  then show ?thesis
    using db' by (auto simp: limits_spec_def demo_resources_def effective_limits_def table_get_def)
qed

theorem ram_usage_exact_witness:
  "add_pending_ram_usage 5 (- 401) demo_resources = Inl transaction_exception
    \<and> (\<exists>db' u. add_pending_ram_usage 5 (- 400) demo_resources = Inr db' \<and> usage_table db' 5 = Some u \<and> ram_usage u = 0)"
proof -
  obtain u where u: "usage_table demo_resources 5 = Some u" "ram_usage u = 400" by (simp add: demo_resources_def)
  have no_word: "uint r \<noteq> - 1" for r :: u64 using uint_ge_0 [of r] by linarith
  have "add_pending_ram_usage 5 (- 401) demo_resources = Inl transaction_exception"
    using ram_usage_exact [OF u(1), of "- 401"] no_word by (auto simp: u(2) in_int64_def split: sum.splits)
  moreover have "\<exists>db' u. add_pending_ram_usage 5 (- 400) demo_resources = Inr db' \<and> usage_table db' 5 = Some u \<and> ram_usage u = 0"
    using ram_usage_exact [OF u(1), of "- 400"] by (auto simp: u(2) in_int64_def uint_0_iff split: sum.splits)
  ultimately show ?thesis by blast
qed

theorem block_limits_elastic_witness:
  "\<exists>db'. process_block_usage 1 initialize_database = Inr db' \<and> unat (virtual_cpu_limit (limits_state db')) = 200200
    \<and> get_block_cpu_limit db' = 200000"
proof -
  have run: "case process_block_usage 1 initialize_database of Inl e \<Rightarrow> False
      | Inr db' \<Rightarrow> average (average_block_cpu_usage (limits_state db')) = 0"
    by code_simp
  then obtain db' where db': "process_block_usage 1 initialize_database = Inr db'"
      "average (average_block_cpu_usage (limits_state db')) = 0"
    by (auto split: sum.splits)
  note cfg = initialize_database_def default_limits_config_def default_parameters_def eos_percent_def rate_for_def db'(2)
  show ?thesis
    using db'(1) block_limits_elastic [OF db'(1) refl refl _ _ refl refl] by (simp add: cfg)
qed

theorem available_is_accepted_witness:
  "\<exists>db'. get_account_cpu_limit 5 1000 demo_resources = Inr (11520000000, False)
    \<and> charge_account 100 200 0 5 demo_resources = Inr db'"
proof -
  have q: "get_account_cpu_limit 5 1000 demo_resources = Inr (11520000000, False)"
      "get_account_net_limit 5 1000 demo_resources = Inr (120795955200, False)"
    by code_simp+
  have "case add_usage (limits_config demo_resources) 100 200 0
      \<lparr>net_usage = empty_accumulator, cpu_usage = empty_accumulator, ram_usage = 400\<rparr> of Inl e \<Rightarrow> False | Inr u \<Rightarrow> True"
    by code_simp
  then obtain u' where u': "add_usage (limits_config demo_resources) 100 200 0
      \<lparr>net_usage = empty_accumulator, cpu_usage = empty_accumulator, ram_usage = 400\<rparr> = Inr u'"
    by (auto split: sum.splits)
  have "charge_account 100 200 0 5 demo_resources = Inr (demo_resources\<lparr>usage_table := (usage_table demo_resources)(5 \<mapsto> u')\<rparr>)"
    by (rule available_is_accepted [OF q(1) _ q(2) _ _ _ _ u'])
      (simp_all add: demo_resources_def empty_accumulator_def initialize_database_def default_limits_config_def)
  with q(1) show ?thesis by blast
qed

end
