(* ===== verification/Authorization_Manager.thy ===== *)
theory Authorization_Manager
  imports Authority
begin

text \<open>
  The permissions of the accounts and the check of a transaction's authorizations
  (\<open>libraries/chain/authorization_manager.cpp\<close>, \<open>permission_object.hpp\<close>, \<open>permission_link_object.hpp\<close>, and the
  structures of \<open>contract_types.hpp\<close> and \<open>generated_transaction_object.hpp\<close> it reads). The rows of a
  chainbase index are a map from their ids with the next id, the links a list in the order of their
  creation; times are microseconds, the data of an action is
  what its bytes unpack to. The deadline callback \<open>checktime\<close> is the one that does nothing, which the
  code uses when none is given. A reference to a row is its id together with the row.
\<close>

section \<open>Names of the system\<close>

definition system_account_name :: name where
  "system_account_name = string_to_name ''eosio''"

definition active_name :: name where
  "active_name = string_to_name ''active''"

definition owner_name :: name where
  "owner_name = string_to_name ''owner''"

definition eosio_any_name :: name where
  "eosio_any_name = string_to_name ''eosio.any''"

definition eosio_code_name :: name where
  "eosio_code_name = string_to_name ''eosio.code''"

definition updateauth_name :: name where
  "updateauth_name = string_to_name ''updateauth''"

definition deleteauth_name :: name where
  "deleteauth_name = string_to_name ''deleteauth''"

definition linkauth_name :: name where
  "linkauth_name = string_to_name ''linkauth''"

definition unlinkauth_name :: name where
  "unlinkauth_name = string_to_name ''unlinkauth''"

definition canceldelay_name :: name where
  "canceldelay_name = string_to_name ''canceldelay''"

lemma system_names [code]:
  "system_account_name = 6138663577826885632" "active_name = 3617214756542218240" "owner_name = 12044502819693133824"
  "eosio_any_name = 6138663581382606848" "eosio_code_name = 6138663582462279680"
  "updateauth_name = 15371467950649982976" "deleteauth_name = 5378050746259030016" "linkauth_name = 10063015651234021376"
  "unlinkauth_name = 15340080295291076608" "canceldelay_name = 4730614990712192000"
  by (simp_all add: system_account_name_def active_name_def owner_name_def eosio_any_name_def eosio_code_name_def
      updateauth_name_def deleteauth_name_def linkauth_name_def unlinkauth_name_def canceldelay_name_def
      string_to_name_def char_to_symbol_def of_char_def push_bit_eq_mult)

section \<open>Actions\<close>

datatype trx_id = Trx_Id u64 u64 u64 u64

record 'k newaccount =
  na_creator :: name
  na_name :: name
  na_owner :: "'k authority"
  na_active :: "'k authority"

record setcode =
  sc_account :: name
  sc_vmtype :: u8
  sc_vmversion :: u8
  sc_code :: "u8 list"

record setabi =
  sa_account :: name
  sa_abi :: "u8 list"

record 'k updateauth =
  ua_account :: name
  ua_permission :: name
  ua_parent :: name
  ua_auth :: "'k authority"

record deleteauth =
  da_account :: name
  da_permission :: name

record linkauth =
  la_account :: name
  la_code :: name
  la_type :: name
  la_requirement :: name

record unlinkauth =
  ul_account :: name
  ul_code :: name
  ul_type :: name

record canceldelay =
  cd_canceling_auth :: permission_level
  cd_trx_id :: trx_id

datatype 'k action_data =
    Newaccount_Data "'k newaccount"
  | Setcode_Data setcode
  | Setabi_Data setabi
  | Updateauth_Data "'k updateauth"
  | Deleteauth_Data deleteauth
  | Linkauth_Data linkauth
  | Unlinkauth_Data unlinkauth
  | Canceldelay_Data canceldelay
  | Other_Data "u8 list"

record 'k action =
  act_account :: name
  act_name :: name
  act_authorization :: "permission_level list"
  act_data :: "'k action_data"

record 'k generated_transaction =
  gt_sender :: name
  gt_sender_id :: "128 word"
  gt_payer :: name
  gt_delay_until :: int
  gt_published :: int
  gt_packed_size :: nat
  gt_actions :: "'k action list"

section \<open>The permission database\<close>

record 'k permission_object =
  usage_id :: nat
  parent :: nat
  perm_owner :: name
  perm_name :: name
  last_updated :: int
  perm_auth :: "'k authority"

datatype link_key = Link_Key (link_account: name) (link_code: name) (message_type: name)

record 'k auth_db =
  permissions :: "nat \<rightharpoonup> 'k permission_object"
  next_permission_id :: nat
  permission_usage :: "nat \<rightharpoonup> int"
  next_usage_id :: nat
  permission_links :: "(link_key \<times> name) list"

datatype manager_error =
    irrelevant_auth_exception
  | action_validate_exception
  | action_type_exception
  | unpack_exception
  | unlinkable_min_permission_action
  | link_not_found
  | tx_not_found
  | unsatisfied_authorization
  | tx_irrelevant_sig
  | unique_key_violation
  | dangling_reference
  | walk_without_end
  | Permission_Error auth_error

type_synonym 'a managed = "(manager_error, 'a) result"
type_synonym 'k perm_ref = "nat \<times> 'k permission_object"

definition lift_permission :: "(auth_error, 'a) result \<Rightarrow> 'a managed" where
  "lift_permission r = (case r of Inl e \<Rightarrow> Inl (Permission_Error e) | Inr x \<Rightarrow> Inr x)"

text \<open>What the manager reads from the controller.\<close>

record control_state =
  pending_block_time :: int
  max_transaction_delay :: u32
  max_authority_depth :: u16
  fix_linkauth_restriction :: bool
  only_link_to_existing_permission :: bool

definition reserved_permission :: "'k permission_object" where
  "reserved_permission =
     \<lparr>usage_id = 0, parent = 0, perm_owner = 0, perm_name = 0, last_updated = 0,
      perm_auth = \<lparr>threshold = 0, keys = [], accounts = [], waits = []\<rparr>\<rparr>"

definition initialize_permissions :: "'k auth_db" where
  "initialize_permissions =
     \<lparr>permissions = [0 \<mapsto> reserved_permission], next_permission_id = 1,
      permission_usage = Map.empty, next_usage_id = 0, permission_links = []\<rparr>"

text \<open>The lookup by the unique index of owner and name, and by the index of names.\<close>

definition owned_row :: "name \<Rightarrow> name \<Rightarrow> 'k auth_db \<Rightarrow> nat \<Rightarrow> bool" where
  "owned_row a n db i = (case permissions db i of None \<Rightarrow> False | Some p \<Rightarrow> perm_owner p = a \<and> perm_name p = n)"

definition find_by_owner :: "name \<Rightarrow> name \<Rightarrow> 'k auth_db \<Rightarrow> 'k perm_ref option" where
  "find_by_owner a n db =
     (case find (owned_row a n db) [0..<next_permission_id db] of
        None \<Rightarrow> None
      | Some i \<Rightarrow> map_option (\<lambda>p. (i, p)) (permissions db i))"

definition exists_by_name :: "name \<Rightarrow> 'k auth_db \<Rightarrow> bool" where
  "exists_by_name n db =
     list_ex (\<lambda>i. case permissions db i of None \<Rightarrow> False | Some p \<Rightarrow> perm_name p = n) [0..<next_permission_id db]"

definition has_children :: "nat \<Rightarrow> 'k auth_db \<Rightarrow> bool" where
  "has_children i db =
     list_ex (\<lambda>j. case permissions db j of None \<Rightarrow> False | Some p \<Rightarrow> parent p = i) [0..<next_permission_id db]"

definition create_permission ::
  "control_state \<Rightarrow> name \<Rightarrow> name \<Rightarrow> nat \<Rightarrow> 'k authority \<Rightarrow> int \<Rightarrow> 'k auth_db \<Rightarrow> ('k perm_ref \<times> 'k auth_db) managed" where
  "create_permission C account nm par auth initial_creation_time db =
     (let creation_time = (if initial_creation_time = 0 then pending_block_time C else initial_creation_time);
          u = next_usage_id db;
          i = next_permission_id db;
          p = \<lparr>usage_id = u, parent = par, perm_owner = account, perm_name = nm,
               last_updated = creation_time, perm_auth = auth\<rparr>
      in check (find_by_owner account nm db = None) unique_key_violation
        (Inr ((i, p),
              db\<lparr>permission_usage := (permission_usage db)(u \<mapsto> creation_time), next_usage_id := Suc u,
                 permissions := (permissions db)(i \<mapsto> p), next_permission_id := Suc i\<rparr>)))"

definition modify_permission :: "control_state \<Rightarrow> 'k perm_ref \<Rightarrow> 'k authority \<Rightarrow> 'k auth_db \<Rightarrow> 'k auth_db" where
  "modify_permission C perm auth db =
     (case perm of (i, p) \<Rightarrow>
      db\<lparr>permissions := (permissions db)(i \<mapsto> p\<lparr>perm_auth := auth, last_updated := pending_block_time C\<rparr>)\<rparr>)"

definition remove_permission :: "'k perm_ref \<Rightarrow> 'k auth_db \<Rightarrow> 'k auth_db managed" where
  "remove_permission perm db =
     (case perm of (i, p) \<Rightarrow>
      check (\<not> has_children i db) action_validate_exception
     (check (permission_usage db (usage_id p) \<noteq> None) dangling_reference
     (Inr (db\<lparr>permission_usage := table_erase (permission_usage db) (usage_id p),
              permissions := table_erase (permissions db) i\<rparr>))))"

definition update_permission_usage :: "control_state \<Rightarrow> 'k perm_ref \<Rightarrow> 'k auth_db \<Rightarrow> 'k auth_db managed" where
  "update_permission_usage C perm db =
     bind_res (table_get (permission_usage db) (usage_id (snd perm)) dangling_reference) (\<lambda>_.
     Inr (db\<lparr>permission_usage := (permission_usage db)(usage_id (snd perm) \<mapsto> pending_block_time C)\<rparr>))"

definition get_permission_last_used :: "'k perm_ref \<Rightarrow> 'k auth_db \<Rightarrow> int managed" where
  "get_permission_last_used perm db = table_get (permission_usage db) (usage_id (snd perm)) dangling_reference"

definition find_permission :: "permission_level \<Rightarrow> 'k auth_db \<Rightarrow> (auth_error, 'k perm_ref option) result" where
  "find_permission level db =
     check (actor level \<noteq> 0 \<and> permission level \<noteq> 0) permission_query_exception
    (Inr (find_by_owner (actor level) (permission level) db))"

definition get_permission :: "permission_level \<Rightarrow> 'k auth_db \<Rightarrow> (auth_error, 'k perm_ref) result" where
  "get_permission level db =
     check (actor level \<noteq> 0 \<and> permission level \<noteq> 0) permission_query_exception
    (case find_by_owner (actor level) (permission level) db of
       None \<Rightarrow> Inl permission_query_exception
     | Some perm \<Rightarrow> Inr perm)"

text \<open>
  The walk of \<open>permission_object::satisfies\<close> up the parents. A row is visited once on the way to
  the root, so that more steps than there are ids would be a walk without end.
\<close>

fun satisfies_walk :: "nat \<Rightarrow> 'k auth_db \<Rightarrow> nat \<Rightarrow> nat \<Rightarrow> bool managed" where
  "satisfies_walk 0 db i j = Inl walk_without_end"
| "satisfies_walk (Suc n) db i j =
     (case permissions db j of
        None \<Rightarrow> Inl dangling_reference
      | Some q \<Rightarrow>
          if i = parent q then Inr True
          else if parent q = 0 then Inr False
          else satisfies_walk n db i (parent q))"

definition satisfies :: "'k perm_ref \<Rightarrow> 'k perm_ref \<Rightarrow> 'k auth_db \<Rightarrow> bool managed" where
  "satisfies perm other db =
     (if perm_owner (snd perm) \<noteq> perm_owner (snd other) then Inr False
      else if fst perm = fst other \<or> fst perm = parent (snd other) then Inr True
      else satisfies_walk (Suc (next_permission_id db)) db (fst perm) (parent (snd other)))"

section \<open>Linked and minimum permissions\<close>

definition lookup_linked_permission :: "name \<Rightarrow> name \<Rightarrow> name \<Rightarrow> 'k auth_db \<Rightarrow> name option" where
  "lookup_linked_permission authorizer_account scope nm db =
     (case map_of (permission_links db) (Link_Key authorizer_account scope nm) of
        None \<Rightarrow> map_of (permission_links db) (Link_Key authorizer_account scope 0)
      | Some r \<Rightarrow> Some r)"

definition native_auth_actions :: "name list" where
  "native_auth_actions = [updateauth_name, deleteauth_name, linkauth_name, unlinkauth_name, canceldelay_name]"

definition lookup_minimum_permission :: "name \<Rightarrow> name \<Rightarrow> name \<Rightarrow> 'k auth_db \<Rightarrow> name option managed" where
  "lookup_minimum_permission authorizer_account scope nm db =
     check (scope = system_account_name \<longrightarrow> nm \<notin> set native_auth_actions) unlinkable_min_permission_action
    (case lookup_linked_permission authorizer_account scope nm db of
       None \<Rightarrow> Inr (Some active_name)
     | Some linked \<Rightarrow> if linked = eosio_any_name then Inr None else Inr (Some linked))"

text \<open>The declared authorization is that of an ancestor of the minimum permission, or the same.\<close>

definition require_satisfies :: "permission_level \<Rightarrow> 'k perm_ref \<Rightarrow> 'k auth_db \<Rightarrow> unit managed" where
  "require_satisfies auth min_permission db =
     bind_res (lift_permission (get_permission auth db)) (\<lambda>perm.
     bind_res (satisfies perm min_permission db) (\<lambda>ok.
     check ok irrelevant_auth_exception (Inr ())))"

definition check_updateauth_authorization :: "'k updateauth \<Rightarrow> permission_level list \<Rightarrow> 'k auth_db \<Rightarrow> unit managed" where
  "check_updateauth_authorization update auths db =
     check (length auths = 1) irrelevant_auth_exception
    (let auth = hd auths in
     check (actor auth = ua_account update) irrelevant_auth_exception
    (bind_res (lift_permission (find_permission (Permission_Level (ua_account update) (ua_permission update)) db)) (\<lambda>found.
     bind_res (case found of
                 Some perm \<Rightarrow> Inr perm
               | None \<Rightarrow> lift_permission (get_permission (Permission_Level (ua_account update) (ua_parent update)) db)) (\<lambda>min_permission.
     require_satisfies auth min_permission db))))"

definition check_deleteauth_authorization :: "deleteauth \<Rightarrow> permission_level list \<Rightarrow> 'k auth_db \<Rightarrow> unit managed" where
  "check_deleteauth_authorization del auths db =
     check (length auths = 1) irrelevant_auth_exception
    (let auth = hd auths in
     check (actor auth = da_account del) irrelevant_auth_exception
    (bind_res (lift_permission (get_permission (Permission_Level (da_account del) (da_permission del)) db)) (\<lambda>min_permission.
     require_satisfies auth min_permission db)))"

definition check_linkauth_authorization ::
  "control_state \<Rightarrow> linkauth \<Rightarrow> permission_level list \<Rightarrow> 'k auth_db \<Rightarrow> unit managed" where
  "check_linkauth_authorization C link auths db =
     check (length auths = 1) irrelevant_auth_exception
    (let auth = hd auths in
     check (actor auth = la_account link) irrelevant_auth_exception
    (check (la_code link = system_account_name \<or> \<not> fix_linkauth_restriction C \<longrightarrow>
              la_type link \<notin> set native_auth_actions) action_validate_exception
    (bind_res (lookup_minimum_permission (la_account link) (la_code link) (la_type link) db) (\<lambda>linked.
     case linked of
       None \<Rightarrow> Inr ()
     | Some nm \<Rightarrow>
         bind_res (lift_permission (get_permission (Permission_Level (la_account link) nm) db)) (\<lambda>min_permission.
         require_satisfies auth min_permission db)))))"

definition check_unlinkauth_authorization :: "unlinkauth \<Rightarrow> permission_level list \<Rightarrow> 'k auth_db \<Rightarrow> unit managed" where
  "check_unlinkauth_authorization unlink auths db =
     check (length auths = 1) irrelevant_auth_exception
    (let auth = hd auths in
     check (actor auth = ul_account unlink) irrelevant_auth_exception
    (case lookup_linked_permission (ul_account unlink) (ul_code unlink) (ul_type unlink) db of
       None \<Rightarrow> Inl link_not_found
     | Some nm \<Rightarrow>
         if nm = eosio_any_name then Inr ()
         else bind_res (lift_permission (get_permission (Permission_Level (ul_account unlink) nm) db)) (\<lambda>min_permission.
              require_satisfies auth min_permission db)))"

type_synonym 'k deferred_table = "trx_id \<rightharpoonup> 'k generated_transaction"

definition check_canceldelay_authorization ::
  "canceldelay \<Rightarrow> permission_level list \<Rightarrow> 'k deferred_table \<Rightarrow> 'k auth_db \<Rightarrow> int managed" where
  "check_canceldelay_authorization cancel auths gtx db =
     check (length auths = 1) irrelevant_auth_exception
    (let auth = hd auths in
     bind_res (lift_permission (get_permission (cd_canceling_auth cancel) db)) (\<lambda>min_permission.
     bind_res (require_satisfies auth min_permission db) (\<lambda>_.
     bind_res (table_get gtx (cd_trx_id cancel) tx_not_found) (\<lambda>itr.
     check (gt_sender itr = 0) tx_not_found
    (check (list_ex (\<lambda>act. cd_canceling_auth cancel \<in> set (act_authorization act)) (gt_actions itr)) action_validate_exception
    (Inr (gt_delay_until itr - gt_published itr)))))))"

section \<open>The check of a transaction\<close>

text \<open>
  The data of an action as the structure its name promises; \<open>data_as\<close> checks account and name and
  unpacks the bytes.
\<close>

definition data_as :: "name \<Rightarrow> ('k action_data \<Rightarrow> 'a option) \<Rightarrow> 'k action \<Rightarrow> 'a managed" where
  "data_as nm unpack act =
     check (act_account act = system_account_name) action_type_exception
    (check (act_name act = nm) action_type_exception
    (case unpack (act_data act) of None \<Rightarrow> Inl unpack_exception | Some d \<Rightarrow> Inr d))"

fun unpack_updateauth :: "'k action_data \<Rightarrow> 'k updateauth option" where
  "unpack_updateauth (Updateauth_Data d) = Some d"
| "unpack_updateauth _ = None"

fun unpack_deleteauth :: "'k action_data \<Rightarrow> deleteauth option" where
  "unpack_deleteauth (Deleteauth_Data d) = Some d"
| "unpack_deleteauth _ = None"

fun unpack_linkauth :: "'k action_data \<Rightarrow> linkauth option" where
  "unpack_linkauth (Linkauth_Data d) = Some d"
| "unpack_linkauth _ = None"

fun unpack_unlinkauth :: "'k action_data \<Rightarrow> unlinkauth option" where
  "unpack_unlinkauth (Unlinkauth_Data d) = Some d"
| "unpack_unlinkauth _ = None"

fun unpack_canceldelay :: "'k action_data \<Rightarrow> canceldelay option" where
  "unpack_canceldelay (Canceldelay_Data d) = Some d"
| "unpack_canceldelay _ = None"

text \<open>The special cases of an action of the system account: whether it is one, and the delay it is given.\<close>

definition check_special :: "control_state \<Rightarrow> 'k deferred_table \<Rightarrow> 'k auth_db \<Rightarrow> int \<Rightarrow> 'k action \<Rightarrow> (bool \<times> int) managed" where
  "check_special C gtx db delay act =
     (let auths = act_authorization act in
      if act_account act = system_account_name then
        if act_name act = updateauth_name then
          bind_res (data_as updateauth_name unpack_updateauth act) (\<lambda>d.
          bind_res (check_updateauth_authorization d auths db) (\<lambda>_. Inr (True, delay)))
        else if act_name act = deleteauth_name then
          bind_res (data_as deleteauth_name unpack_deleteauth act) (\<lambda>d.
          bind_res (check_deleteauth_authorization d auths db) (\<lambda>_. Inr (True, delay)))
        else if act_name act = linkauth_name then
          bind_res (data_as linkauth_name unpack_linkauth act) (\<lambda>d.
          bind_res (check_linkauth_authorization C d auths db) (\<lambda>_. Inr (True, delay)))
        else if act_name act = unlinkauth_name then
          bind_res (data_as unlinkauth_name unpack_unlinkauth act) (\<lambda>d.
          bind_res (check_unlinkauth_authorization d auths db) (\<lambda>_. Inr (True, delay)))
        else if act_name act = canceldelay_name then
          bind_res (data_as canceldelay_name unpack_canceldelay act) (\<lambda>d.
          bind_res (check_canceldelay_authorization d auths gtx db) (\<lambda>w. Inr (True, max delay w)))
        else Inr (False, delay)
      else Inr (False, delay))"

text \<open>
  The map of the permissions to satisfy, in ascending order; a level that is there already keeps
  the lower delay.
\<close>

fun emplace_delay :: "permission_level \<Rightarrow> int \<Rightarrow> (permission_level \<times> int) list \<Rightarrow> (permission_level \<times> int) list" where
  "emplace_delay p delay [] = [(p, delay)]"
| "emplace_delay p delay ((q, d) # ps) =
     (if p < q then (p, delay) # (q, d) # ps
      else if p = q then (q, if d > delay then delay else d) # ps
      else (q, d) # emplace_delay p delay ps)"

definition check_declared ::
  "permission_level list \<Rightarrow> 'k auth_db \<Rightarrow> bool \<Rightarrow> int \<Rightarrow> 'k action \<Rightarrow> permission_level \<Rightarrow>
   (permission_level \<times> int) list \<Rightarrow> (permission_level \<times> int) list managed" where
  "check_declared satisfied_authorizations db special_case delay act declared_auth to_satisfy =
     bind_res
       (if special_case then Inr ()
        else bind_res (lookup_minimum_permission (actor declared_auth) (act_account act) (act_name act) db) (\<lambda>nm.
             case nm of
               None \<Rightarrow> Inr ()
             | Some n \<Rightarrow>
                 bind_res (lift_permission (get_permission (Permission_Level (actor declared_auth) n) db)) (\<lambda>min_permission.
                 require_satisfies declared_auth min_permission db))) (\<lambda>_.
     Inr (if declared_auth \<in> set satisfied_authorizations then to_satisfy
          else emplace_delay declared_auth delay to_satisfy))"

definition check_action ::
  "control_state \<Rightarrow> 'k deferred_table \<Rightarrow> permission_level list \<Rightarrow> 'k auth_db \<Rightarrow> int \<Rightarrow> 'k action \<Rightarrow>
   (permission_level \<times> int) list \<Rightarrow> (permission_level \<times> int) list managed" where
  "check_action C gtx satisfied_authorizations db effective_provided_delay act to_satisfy =
     bind_res (check_special C gtx db effective_provided_delay act) (\<lambda>(special_case, delay).
     for_each (check_declared satisfied_authorizations db special_case delay act) (act_authorization act) to_satisfy)"

definition effective_delay :: "control_state \<Rightarrow> int \<Rightarrow> int" where
  "effective_delay C delay =
     (if delay \<ge> uint (max_transaction_delay C) * 1000000 then 2 ^ 63 - 1 else delay)"

definition manager_checker ::
  "control_state \<Rightarrow> 'k auth_db \<Rightarrow> 'k list \<Rightarrow> permission_level list \<Rightarrow> int \<Rightarrow> 'k authority_checker \<times> bool list" where
  "manager_checker C db ks ps delay =
     make_auth_checker (\<lambda>p. bind_res (get_permission p db) (\<lambda>perm. Inr (perm_auth (snd perm))))
       (max_authority_depth C) ks ps delay"

definition check_satisfied :: "'k authority_checker \<Rightarrow> permission_level \<times> int \<Rightarrow> bool list \<Rightarrow> bool list managed" where
  "check_satisfied K pd marks =
     bind_res (lift_permission (satisfied_permission_delay K (fst pd) (snd pd) marks None)) (\<lambda>(r, s).
     check r unsatisfied_authorization (Inr (used_marks s)))"

definition check_authorization ::
  "control_state \<Rightarrow> 'k deferred_table \<Rightarrow> 'k action list \<Rightarrow> 'k list \<Rightarrow> permission_level list \<Rightarrow> int \<Rightarrow> bool \<Rightarrow>
   permission_level list \<Rightarrow> 'k auth_db \<Rightarrow> unit managed" where
  "check_authorization C gtx acts ks ps delay allow_unused_keys satisfied_authorizations db =
     (let effective_provided_delay = effective_delay C delay;
          (checker, marks) = manager_checker C db ks ps effective_provided_delay
      in bind_res (for_each (check_action C gtx satisfied_authorizations db effective_provided_delay) acts []) (\<lambda>to_satisfy.
         bind_res (for_each (check_satisfied checker) to_satisfy marks) (\<lambda>marks.
         check (allow_unused_keys \<or> all_keys_used marks) tx_irrelevant_sig (Inr ()))))"

definition check_account_authorization ::
  "control_state \<Rightarrow> name \<Rightarrow> name \<Rightarrow> 'k list \<Rightarrow> permission_level list \<Rightarrow> int \<Rightarrow> bool \<Rightarrow> 'k auth_db \<Rightarrow> unit managed" where
  "check_account_authorization C account nm ks ps delay allow_unused_keys db =
     (let (checker, marks) = manager_checker C db ks ps (effective_delay C delay)
      in bind_res (lift_permission (satisfied_permission checker (Permission_Level account nm) marks None)) (\<lambda>(r, s).
         check r unsatisfied_authorization
        (check (allow_unused_keys \<or> all_keys_used (used_marks s)) tx_irrelevant_sig (Inr ()))))"

definition require_declared :: "'k authority_checker \<Rightarrow> permission_level \<Rightarrow> bool list \<Rightarrow> bool list managed" where
  "require_declared K declared_auth marks =
     bind_res (lift_permission (satisfied_permission K declared_auth marks None)) (\<lambda>(r, s).
     check r unsatisfied_authorization (Inr (used_marks s)))"

definition get_required_keys ::
  "control_state \<Rightarrow> 'k action list \<Rightarrow> 'k list \<Rightarrow> int \<Rightarrow> 'k auth_db \<Rightarrow> 'k list managed" where
  "get_required_keys C acts candidate_keys delay db =
     (let (checker, marks) = manager_checker C db candidate_keys [] delay
      in bind_res (for_each (\<lambda>act. for_each (require_declared checker) (act_authorization act)) acts marks) (\<lambda>marks.
         Inr (used_keys checker marks)))"

section \<open>The permission tree\<close>

definition row_valid :: "'k auth_db \<Rightarrow> nat \<Rightarrow> 'k permission_object \<Rightarrow> bool" where
  "row_valid db i p \<longleftrightarrow> perm_owner p \<noteq> 0 \<and> perm_name p \<noteq> 0 \<and> parent p < i
     \<and> (parent p \<noteq> 0 \<longrightarrow> (\<exists>q. permissions db (parent p) = Some q \<and> perm_owner q = perm_owner p))
     \<and> permission_usage db (usage_id p) \<noteq> None"

definition auth_ok :: "'k auth_db \<Rightarrow> bool" where
  "auth_ok db \<longleftrightarrow>
     permissions db 0 = Some reserved_permission
     \<and> (\<forall>i p. permissions db i = Some p \<longrightarrow> i < next_permission_id db)
     \<and> (\<forall>u t. permission_usage db u = Some t \<longrightarrow> u < next_usage_id db)
     \<and> (\<forall>i p. i \<noteq> 0 \<longrightarrow> permissions db i = Some p \<longrightarrow> row_valid db i p)
     \<and> (\<forall>i j p q. permissions db i = Some p \<longrightarrow> permissions db j = Some q \<longrightarrow>
          perm_owner p = perm_owner q \<longrightarrow> perm_name p = perm_name q \<longrightarrow> i = j)
     \<and> (\<forall>i j p q. i \<noteq> 0 \<longrightarrow> j \<noteq> 0 \<longrightarrow> permissions db i = Some p \<longrightarrow> permissions db j = Some q \<longrightarrow>
          usage_id p = usage_id q \<longrightarrow> i = j)"

lemma auth_okD:
  assumes "auth_ok db"
  shows "permissions db 0 = Some reserved_permission"
    and "permissions db i = Some p \<Longrightarrow> i < next_permission_id db"
    and "permission_usage db u = Some t \<Longrightarrow> u < next_usage_id db"
    and "i \<noteq> 0 \<Longrightarrow> permissions db i = Some p \<Longrightarrow> row_valid db i p"
    and "permissions db i = Some p \<Longrightarrow> permissions db j = Some q \<Longrightarrow> perm_owner p = perm_owner q \<Longrightarrow>
      perm_name p = perm_name q \<Longrightarrow> i = j"
    and "i \<noteq> 0 \<Longrightarrow> j \<noteq> 0 \<Longrightarrow> permissions db i = Some p \<Longrightarrow> permissions db j = Some q \<Longrightarrow> usage_id p = usage_id q \<Longrightarrow> i = j"
proof -
  note c = assms [unfolded auth_ok_def]
  note d = c [THEN conjunct2] note e = d [THEN conjunct2] note f = e [THEN conjunct2] note g = f [THEN conjunct2]
  show "permissions db 0 = Some reserved_permission" by (rule c [THEN conjunct1])
  show "permissions db i = Some p \<Longrightarrow> i < next_permission_id db" by (rule d [THEN conjunct1, rule_format])
  show "permission_usage db u = Some t \<Longrightarrow> u < next_usage_id db" by (rule e [THEN conjunct1, rule_format])
  show "i \<noteq> 0 \<Longrightarrow> permissions db i = Some p \<Longrightarrow> row_valid db i p" by (rule f [THEN conjunct1, rule_format])
  show "permissions db i = Some p \<Longrightarrow> permissions db j = Some q \<Longrightarrow> perm_owner p = perm_owner q \<Longrightarrow>
      perm_name p = perm_name q \<Longrightarrow> i = j" by (rule g [THEN conjunct1, rule_format])
  show "i \<noteq> 0 \<Longrightarrow> j \<noteq> 0 \<Longrightarrow> permissions db i = Some p \<Longrightarrow> permissions db j = Some q \<Longrightarrow> usage_id p = usage_id q \<Longrightarrow> i = j"
    by (rule g [THEN conjunct2, rule_format])
qed

lemma row_validD:
  assumes "row_valid db i p"
  shows "perm_owner p \<noteq> 0" and "perm_name p \<noteq> 0" and "parent p < i"
    and "parent p \<noteq> 0 \<Longrightarrow> \<exists>q. permissions db (parent p) = Some q \<and> perm_owner q = perm_owner p"
    and "permission_usage db (usage_id p) \<noteq> None"
  using assms by (simp_all add: row_valid_def)

lemma initialize_permissions_ok: "auth_ok initialize_permissions"
  by (simp add: auth_ok_def initialize_permissions_def)

lemma find_holds: "find P xs = Some x \<Longrightarrow> P x"
  by (induction xs) (auto split: if_splits)

lemma find_by_owner_SomeD:
  assumes "find_by_owner a n db = Some (i, p)"
  shows "permissions db i = Some p" and "perm_owner p = a" and "perm_name p = n"
proof -
  from assms have f: "find (owned_row a n db) [0..<next_permission_id db] = Some i" and p: "permissions db i = Some p"
    by (auto simp: find_by_owner_def split: option.splits)
  with find_holds [OF f] show "permissions db i = Some p" "perm_owner p = a" "perm_name p = n"
    by (simp_all add: owned_row_def)
qed

lemma find_by_owner_NoneD:
  assumes "find_by_owner a n db = None" and "permissions db i = Some p" and "auth_ok db"
  shows "\<not> (perm_owner p = a \<and> perm_name p = n)"
proof
  assume "perm_owner p = a \<and> perm_name p = n"
  then have "owned_row a n db i" using assms(2) by (simp add: owned_row_def)
  moreover have "i \<in> set [0..<next_permission_id db]" using auth_okD(2) [OF assms(3,2)] by simp
  ultimately obtain j where j: "find (owned_row a n db) [0..<next_permission_id db] = Some j"
    by (metis find_None_iff2 not_Some_eq)
  then have "owned_row a n db j" by (rule find_holds)
  with j assms(1) show False by (auto simp: find_by_owner_def owned_row_def split: option.splits)
qed

lemma find_by_owner_iff:
  assumes "auth_ok db"
  shows "find_by_owner a n db = Some (i, p) \<longleftrightarrow> permissions db i = Some p \<and> perm_owner p = a \<and> perm_name p = n"
proof
  assume r: "permissions db i = Some p \<and> perm_owner p = a \<and> perm_name p = n"
  then obtain j q where f: "find_by_owner a n db = Some (j, q)"
    using find_by_owner_NoneD [OF _ _ assms] by (metis not_Some_eq surj_pair)
  with find_by_owner_SomeD [OF f] r auth_okD(5) [OF assms] have "j = i" by metis
  with f find_by_owner_SomeD(1) [OF f] r show "find_by_owner a n db = Some (i, p)" by simp
qed (auto dest: find_by_owner_SomeD)

lemma get_permission_Inr:
  assumes "get_permission level db = Inr (i, p)" and "auth_ok db"
  shows "permissions db i = Some p" and "perm_owner p = actor level" and "perm_name p = permission level" and "i \<noteq> 0"
proof -
  have f: "find_by_owner (actor level) (permission level) db = Some (i, p)" and "actor level \<noteq> 0"
    using assms(1) by (auto simp: get_permission_def split: option.splits)
  note p = find_by_owner_SomeD [OF f]
  show "permissions db i = Some p" "perm_owner p = actor level" "perm_name p = permission level" by (fact p)+
  show "i \<noteq> 0"
  proof
    assume "i = 0"
    then have "p = reserved_permission" using p(1) auth_okD(1) [OF assms(2)] by simp
    then show False using p(2) \<open>actor level \<noteq> 0\<close> by (simp add: reserved_permission_def)
  qed
qed

text \<open>The parent relation; the id 0 stands for no parent.\<close>

definition parent_of :: "'k auth_db \<Rightarrow> nat \<Rightarrow> nat \<Rightarrow> bool" where
  "parent_of db i j \<longleftrightarrow> i \<noteq> 0 \<and> (\<exists>q. permissions db j = Some q \<and> parent q = i)"

lemma strict_ancestor:
  assumes "permissions db j = Some q"
  shows "(parent_of db)\<^sup>+\<^sup>+ i j \<longleftrightarrow> parent q \<noteq> 0 \<and> (i = parent q \<or> (parent_of db)\<^sup>+\<^sup>+ i (parent q))"
proof
  assume "(parent_of db)\<^sup>+\<^sup>+ i j"
  then show "parent q \<noteq> 0 \<and> (i = parent q \<or> (parent_of db)\<^sup>+\<^sup>+ i (parent q))"
    by (cases rule: tranclp.cases) (use assms in \<open>auto simp: parent_of_def\<close>)
next
  assume a: "parent q \<noteq> 0 \<and> (i = parent q \<or> (parent_of db)\<^sup>+\<^sup>+ i (parent q))"
  then have "parent_of db (parent q) j" using assms by (auto simp: parent_of_def)
  with a show "(parent_of db)\<^sup>+\<^sup>+ i j" by (auto intro: tranclp.intros)
qed

lemma ancestor_owner:
  assumes "(parent_of db)\<^sup>*\<^sup>* i j" and "auth_ok db" and "permissions db j = Some q"
  shows "\<exists>p. permissions db i = Some p \<and> perm_owner p = perm_owner q"
  using assms(1,3)
proof (induction arbitrary: q rule: rtranclp_induct)
  case (step j k)
  then have q: "j \<noteq> 0" "permissions db k = Some q" "parent q = j" by (auto simp: parent_of_def)
  have "k \<noteq> 0"
  proof
    assume "k = 0"
    then have "q = reserved_permission" using q(2) auth_okD(1) [OF assms(2)] by simp
    then show False using q(1,3) by (simp add: reserved_permission_def)
  qed
  then have "row_valid db k q" using auth_okD(4) [OF assms(2) _ q(2)] by blast
  then obtain r where "permissions db j = Some r" "perm_owner r = perm_owner q" using row_validD(4) q(1,3) by blast
  then show ?case using step.IH by force
qed auto

lemma satisfies_walk_exact:
  assumes "auth_ok db" and "i \<noteq> 0"
  shows "permissions db j = Some q \<Longrightarrow> j < n \<Longrightarrow> satisfies_walk n db i j = Inr ((parent_of db)\<^sup>+\<^sup>+ i j)"
proof (induction n arbitrary: j q)
  case (Suc n)
  note anc = strict_ancestor [OF Suc.prems(1), of i]
  consider "i = parent q" | "i \<noteq> parent q" "parent q = 0" | "i \<noteq> parent q" "parent q \<noteq> 0" by blast
  then show ?case
  proof cases
    case 1
    then have "(parent_of db)\<^sup>+\<^sup>+ i j" using anc assms(2) by blast
    with 1 Suc.prems(1) show ?thesis by simp
  next
    case 2
    then have "\<not> (parent_of db)\<^sup>+\<^sup>+ i j" using anc by blast
    with 2 Suc.prems(1) show ?thesis by simp
  next
    case 3
    have "j \<noteq> 0"
    proof
      assume "j = 0"
      then have "q = reserved_permission" using Suc.prems(1) auth_okD(1) [OF assms(1)] by simp
      then show False using 3(2) by (simp add: reserved_permission_def)
    qed
    then have v: "row_valid db j q" using auth_okD(4) [OF assms(1) _ Suc.prems(1)] by blast
    then obtain r where r: "permissions db (parent q) = Some r" using row_validD(4) 3(2) by blast
    have "parent q < n" using row_validD(3) [OF v] Suc.prems(2) by linarith
    then have "satisfies_walk n db i (parent q) = Inr ((parent_of db)\<^sup>+\<^sup>+ i (parent q))" by (rule Suc.IH [OF r])
    moreover have "(parent_of db)\<^sup>+\<^sup>+ i j \<longleftrightarrow> (parent_of db)\<^sup>+\<^sup>+ i (parent q)" using anc 3 by blast
    ultimately show ?thesis using 3 Suc.prems(1) by simp
  qed
qed simp

lemma satisfies_ancestor:
  assumes ok: "auth_ok db" and p: "permissions db i = Some p" and q: "permissions db j = Some q" and "i \<noteq> 0" and "j \<noteq> 0"
  shows "satisfies (i, p) (j, q) db = Inr ((parent_of db)\<^sup>*\<^sup>* i j)"
proof (cases "perm_owner p = perm_owner q")
  case False
  then have "\<not> (parent_of db)\<^sup>*\<^sup>* i j" using ancestor_owner [OF _ ok q] p by force
  with False show ?thesis by (simp add: satisfies_def)
next
  case True
  note v = row_validD [OF auth_okD(4) [OF ok assms(5) q]]
  obtain r where r: "permissions db (parent q) = Some r"
    using v(4) auth_okD(1) [OF ok] by (cases "parent q = 0") auto
  have "parent q < Suc (next_permission_id db)" using auth_okD(2) [OF ok r] by simp
  then have walk: "satisfies_walk (Suc (next_permission_id db)) db i (parent q) = Inr ((parent_of db)\<^sup>+\<^sup>+ i (parent q))"
    by (rule satisfies_walk_exact [OF ok assms(4) r])
  have "(parent_of db)\<^sup>*\<^sup>* i j \<longleftrightarrow> i = j \<or> i = parent q \<or> parent q \<noteq> 0 \<and> (parent_of db)\<^sup>+\<^sup>+ i (parent q)"
    using assms(4) strict_ancestor [OF q, of i] unfolding Nitpick.rtranclp_unfold by blast
  moreover have "\<not> (parent_of db)\<^sup>+\<^sup>+ i 0"
    using strict_ancestor [OF auth_okD(1) [OF ok]] by (simp add: reserved_permission_def)
  ultimately show ?thesis using True walk by (cases "parent q = 0") (simp_all add: satisfies_def del: satisfies_walk.simps)
qed

text \<open>
  C14: A permission satisfies another exactly when it is the same one or an ancestor of it in the
  tree of the account's permissions: the walk up the parents ends, finds no dangling
  reference, never mistakes the absence of a parent for a permission and never crosses to another account.
\<close>

theorem satisfies_exact:
  assumes "auth_ok db" and "get_permission l db = Inr (i, p)" and "get_permission m db = Inr (j, q)"
  shows "satisfies (i, p) (j, q) db = Inr ((parent_of db)\<^sup>*\<^sup>* i j)
    \<and> ((parent_of db)\<^sup>*\<^sup>* i j \<longrightarrow> actor l = actor m)"
proof -
  note p = get_permission_Inr [OF assms(2,1)] and q = get_permission_Inr [OF assms(3,1)]
  have "actor l = actor m" if "(parent_of db)\<^sup>*\<^sup>* i j"
    using ancestor_owner [OF that assms(1) q(1)] p(1,2) q(2) by auto
  with satisfies_ancestor [OF assms(1) p(1) q(1) p(4) q(4)] show ?thesis by blast
qed

section \<open>The operations keep the tree\<close>

lemma create_permission_Inr:
  assumes "create_permission C a n par auth t db = Inr ((i, p), db')"
  shows "i = next_permission_id db" and "find_by_owner a n db = None"
    and "perm_owner p = a" and "perm_name p = n" and "parent p = par" and "perm_auth p = auth" and "usage_id p = next_usage_id db"
    and "permissions db' = (permissions db)(i \<mapsto> p)" and "next_permission_id db' = Suc i"
    and "\<exists>t. permission_usage db' = (permission_usage db)(next_usage_id db \<mapsto> t)" and "next_usage_id db' = Suc (next_usage_id db)"
    and "permission_links db' = permission_links db"
  using assms by (auto simp: create_permission_def Let_def)

lemma create_permission_ok:
  assumes "create_permission C a n par auth t db = Inr ((i, p), db')" and ok: "auth_ok db"
    and "a \<noteq> 0" and "n \<noteq> 0" and par: "par \<noteq> 0 \<Longrightarrow> \<exists>q. permissions db par = Some q \<and> perm_owner q = a"
  shows "auth_ok db'"
proof -
  note c = create_permission_Inr [OF assms(1)]
  obtain t' where u: "permission_usage db' = (permission_usage db)(next_usage_id db \<mapsto> t')" using c(10) by blast
  have "0 < next_permission_id db" using auth_okD(2) [OF ok auth_okD(1) [OF ok]] by simp
  then have "par < i" using par auth_okD(2) [OF ok, of par] c(1) by (cases "par = 0") auto
  have new: "permissions db i = None" using auth_okD(2) [OF ok] c(1) by (metis less_irrefl not_None_eq)
  have fresh: "usage_id q \<noteq> next_usage_id db" if "permissions db j = Some q" "j \<noteq> 0" for j q
    using row_validD(5) [OF auth_okD(4) [OF ok that(2,1)]] auth_okD(3) [OF ok] by fastforce
  have old: "row_valid db' j q" if "permissions db j = Some q" "j \<noteq> 0" for j q
    using auth_okD(4) [OF ok that(2,1)] new by (auto simp: row_valid_def c(8) u)
  have this_row: "row_valid db' i p"
    using assms(3,4) par \<open>par < i\<close> new by (auto simp: row_valid_def c(3,4,5,7,8) u)
  have rows: "permissions db' j = Some q \<longleftrightarrow> (if j = i then q = p else permissions db j = Some q)" for j q
    by (auto simp: c(8))
  show ?thesis
    unfolding auth_ok_def
  proof (intro conjI allI impI)
    show "permissions db' 0 = Some reserved_permission" using auth_okD(1) [OF ok] \<open>par < i\<close> by (simp add: c(8))
    show "j < next_permission_id db'" if "permissions db' j = Some q" for j q
      using that auth_okD(2) [OF ok, of j q] by (auto simp: rows c(1,9) split: if_splits)
    show "v < next_usage_id db'" if "permission_usage db' v = Some s" for v s
      using that auth_okD(3) [OF ok, of v s] by (auto simp: u c(11) split: if_splits)
    show "row_valid db' j q" if "j \<noteq> 0" "permissions db' j = Some q" for j q
      using that old this_row by (auto simp: rows split: if_splits)
    show "j = k" if "permissions db' j = Some q" "permissions db' k = Some r" "perm_owner q = perm_owner r"
      "perm_name q = perm_name r" for j k q r
      using that find_by_owner_NoneD [OF c(2) _ ok] auth_okD(5) [OF ok, of j q k r]
      by (auto simp: rows c(3,4) split: if_splits)
    show "j = k" if "j \<noteq> 0" "k \<noteq> 0" "permissions db' j = Some q" "permissions db' k = Some r" "usage_id q = usage_id r"
      for j k q r
      using that fresh [of j q] fresh [of k r] auth_okD(6) [OF ok, of j k q r]
      by (auto simp: rows c(7) split: if_splits)
  qed
qed

lemma replace_row_ok:
  assumes ok: "auth_ok db" and p: "permissions db i = Some p" "i \<noteq> 0"
    and p': "usage_id p' = usage_id p" "parent p' = parent p" "perm_owner p' = perm_owner p" "perm_name p' = perm_name p"
  shows "auth_ok (db\<lparr>permissions := (permissions db)(i \<mapsto> p')\<rparr>)" (is "auth_ok ?db'")
proof -
  have rows: "\<exists>r. permissions db j = Some r \<and> usage_id r = usage_id q \<and> parent r = parent q
      \<and> perm_owner r = perm_owner q \<and> perm_name r = perm_name q" if "permissions ?db' j = Some q" for j q
    using that p p' by (cases "j = i") auto
  have up: "\<exists>r. permissions ?db' j = Some r \<and> perm_owner r = perm_owner q" if "permissions db j = Some q" for j q
    using that p p' by (cases "j = i") auto
  show ?thesis
    unfolding auth_ok_def
  proof (intro conjI allI impI)
    show "permissions ?db' 0 = Some reserved_permission" using auth_okD(1) [OF ok] p(2) by simp
    show "j < next_permission_id ?db'" if "permissions ?db' j = Some q" for j q
      using rows [OF that] auth_okD(2) [OF ok] by auto
    show "v < next_usage_id ?db'" if "permission_usage ?db' v = Some s" for v s
      using that auth_okD(3) [OF ok] by simp
    show "row_valid ?db' j q" if j: "j \<noteq> 0" "permissions ?db' j = Some q" for j q
    proof -
      obtain r where r: "permissions db j = Some r" "usage_id r = usage_id q" "parent r = parent q" "perm_owner r = perm_owner q"
        "perm_name r = perm_name q" using rows [OF j(2)] by blast
      note v = auth_okD(4) [OF ok j(1) r(1), unfolded row_valid_def r(2,3,4,5)]
      have "\<exists>s. permissions ?db' (parent q) = Some s \<and> perm_owner s = perm_owner q" if "parent q \<noteq> 0"
      proof -
        from v that obtain s where s: "permissions db (parent q) = Some s" "perm_owner s = perm_owner q" by blast
        with up [OF s(1)] show ?thesis by auto
      qed
      with v show ?thesis by (simp add: row_valid_def del: fun_upd_apply)
    qed
    show "j = k" if "permissions ?db' j = Some q" "permissions ?db' k = Some r" "perm_owner q = perm_owner r"
      "perm_name q = perm_name r" for j k q r
      using rows [OF that(1)] rows [OF that(2)] that(3,4) auth_okD(5) [OF ok] by metis
    show "j = k" if "j \<noteq> 0" "k \<noteq> 0" "permissions ?db' j = Some q" "permissions ?db' k = Some r" "usage_id q = usage_id r"
      for j k q r
      using rows [OF that(3)] rows [OF that(4)] that(1,2,5) auth_okD(6) [OF ok] by metis
  qed
qed

lemma modify_permission_ok:
  assumes "auth_ok db" and "permissions db i = Some p" and "i \<noteq> 0"
  shows "auth_ok (modify_permission C (i, p) auth db)"
  unfolding modify_permission_def prod.case by (rule replace_row_ok [OF assms]) simp_all

lemma no_children:
  assumes "\<not> has_children i db" and "auth_ok db" and "permissions db j = Some q"
  shows "parent q \<noteq> i"
  using assms(1,3) auth_okD(2) [OF assms(2,3)] by (force simp: has_children_def list_ex_iff)

lemma remove_permission_Inr:
  assumes "remove_permission (i, p) db = Inr db'"
  shows "\<not> has_children i db" and "permissions db' = table_erase (permissions db) i"
    and "permission_usage db' = table_erase (permission_usage db) (usage_id p)"
    and "next_permission_id db' = next_permission_id db" and "next_usage_id db' = next_usage_id db"
    and "permission_links db' = permission_links db"
  using assms by (auto simp: remove_permission_def)

lemma remove_permission_ok:
  assumes r: "remove_permission (i, p) db = Inr db'" and ok: "auth_ok db" and p: "permissions db i = Some p" "i \<noteq> 0"
  shows "auth_ok db'"
proof -
  note r = remove_permission_Inr [OF r]
  have rows: "permissions db' j = Some q \<longleftrightarrow> j \<noteq> i \<and> permissions db j = Some q" for j q
    by (simp add: r(2) table_erase_apply)
  have valid: "row_valid db' j q" if j: "j \<noteq> 0" "permissions db' j = Some q" for j q
  proof -
    have q: "permissions db j = Some q" "j \<noteq> i" using j(2) by (simp_all add: rows)
    note v = auth_okD(4) [OF ok j(1) q(1)]
    have "usage_id q \<noteq> usage_id p" using auth_okD(6) [OF ok j(1) p(2) q(1) p(1)] q(2) by blast
    moreover have "parent q \<noteq> i" by (rule no_children [OF r(1) ok q(1)])
    ultimately show ?thesis using v by (simp add: row_valid_def r(2,3) table_erase_apply)
  qed
  show ?thesis
    unfolding auth_ok_def
  proof (intro conjI allI impI)
    show "permissions db' 0 = Some reserved_permission" using auth_okD(1) [OF ok] p(2) by (simp add: rows)
    show "j < next_permission_id db'" if "permissions db' j = Some q" for j q
      using that auth_okD(2) [OF ok, of j q] by (simp add: rows r(4))
    show "v < next_usage_id db'" if "permission_usage db' v = Some s" for v s
      using that auth_okD(3) [OF ok, of v s] by (simp add: r(3,5) table_erase_apply split: if_splits)
    show "j = k" if "permissions db' j = Some q" "permissions db' k = Some r" "perm_owner q = perm_owner r"
      "perm_name q = perm_name r" for j k q r
      using that auth_okD(5) [OF ok, of j q k r] by (simp add: rows)
    show "j = k" if "j \<noteq> 0" "k \<noteq> 0" "permissions db' j = Some q" "permissions db' k = Some r" "usage_id q = usage_id r"
      for j k q r
      using that auth_okD(6) [OF ok, of j k q r] by (simp add: rows)
  qed (rule valid)
qed

section \<open>The check of a transaction is sound\<close>

interpretation manager: authority_source "fst (manager_checker C db ks ps delay)" for C db ks ps delay
  by unfold_locales (simp add: manager_checker_def make_auth_checker_def get_permission_def)

lemma manager_delay: "(fst (manager_checker C db ks ps d))\<lparr>provided_delay := e\<rparr> = fst (manager_checker C db ks ps e)"
  by (simp add: manager_checker_def make_auth_checker_def)

lemma authority_weight_delay:
  assumes "provided_keys K' = provided_keys K" and "provided_delay K \<le> provided_delay K'"
  shows "authority_weight K P a \<le> authority_weight K' P a"
  unfolding authority_weight_def using assms
  by (intro add_mono sum_list_mono order_refl) auto

lemma granted_delay:
  assumes "granted K p" and "permission_to_authority K' = permission_to_authority K"
    and "provided_keys K' = provided_keys K" and "provided_permissions K' = provided_permissions K"
    and "provided_delay K \<le> provided_delay K'"
  shows "granted K' p"
  using assms(1)
proof (induction rule: granted.induct)
  case (authority p a Q)
  have "unat (threshold a) \<le> authority_weight K' Q a"
    using authority.hyps(3) authority_weight_delay [OF assms(3,5), of Q a] by linarith
  then show ?case using authority assms(2) by (intro granted.authority [of K' p a Q]) simp_all
qed (use assms(4) in \<open>auto intro: granted.intros\<close>)

lemma granted_longer: "granted (fst (manager_checker C db ks ps d)) p \<Longrightarrow> d \<le> e \<Longrightarrow> granted (fst (manager_checker C db ks ps e)) p"
  by (erule granted_delay) (simp_all add: manager_checker_def make_auth_checker_def)

lemma emplace_delay_keeps: "(q, d) \<in> set ts \<Longrightarrow> \<exists>e \<le> d. (q, e) \<in> set (emplace_delay p x ts)"
  by (induction p x ts rule: emplace_delay.induct) (auto intro: less_imp_le simp: not_less)

lemma emplace_delay_adds: "\<exists>e \<le> x. (p, e) \<in> set (emplace_delay p x ts)"
  by (induction p x ts rule: emplace_delay.induct) (auto intro: less_imp_le simp: not_less)

text \<open>A level is on the list with a delay no longer than the given one.\<close>

definition listed :: "permission_level \<Rightarrow> int \<Rightarrow> (permission_level \<times> int) list \<Rightarrow> bool" where
  "listed p d ts \<longleftrightarrow> (\<exists>e \<le> d. (p, e) \<in> set ts)"

lemma listed_emplace: "listed p d ts \<Longrightarrow> listed p d (emplace_delay q x ts)"
  unfolding listed_def using emplace_delay_keeps order_trans by blast

lemma check_declared_keeps:
  "check_declared sat db sp x act a ts = Inr ts' \<Longrightarrow> listed p d ts \<Longrightarrow> listed p d ts'"
  by (auto simp: check_declared_def listed_emplace split: if_splits)

lemma check_declared_adds: "check_declared sat db sp d act a ts = Inr ts' \<Longrightarrow> a \<notin> set sat \<Longrightarrow> listed a d ts'"
  using emplace_delay_adds by (auto simp: check_declared_def listed_def)

lemma check_action_keeps:
  assumes "check_action C gtx sat db x act ts = Inr ts'" and "listed p d ts"
  shows "listed p d ts'"
proof -
  from assms(1) obtain sp y where "for_each (check_declared sat db sp y act) (act_authorization act) ts = Inr ts'"
    by (auto simp: check_action_def)
  then show ?thesis using assms(2) check_declared_keeps by (rule for_each_inv)
qed

lemma for_each_establish:
  assumes "for_each f xs s = Inr s'" and "x \<in> set xs"
    and "\<And>t t'. f x t = Inr t' \<Longrightarrow> P t'" and "\<And>y t t'. y \<in> set xs \<Longrightarrow> f y t = Inr t' \<Longrightarrow> P t \<Longrightarrow> P t'"
  shows "P s'"
proof -
  from assms(2) obtain ys zs where xs: "xs = ys @ x # zs" by (auto simp: in_set_conv_decomp)
  with assms(1) obtain t t' where t: "f x t = Inr t'" "for_each f zs t' = Inr s'" by (auto simp: for_each_append)
  show ?thesis using t(2) assms(3) [OF t(1)] by (rule for_each_inv) (use assms(4) xs in auto)
qed

lemma for_each_visits: "for_each f xs s = Inr s' \<Longrightarrow> x \<in> set xs \<Longrightarrow> \<exists>t t'. f x t = Inr t'"
  by (induction xs arbitrary: s) auto

lemma lift_permission_Inr [simp]: "lift_permission r = Inr x \<longleftrightarrow> r = Inr x"
  by (cases r) (simp_all add: lift_permission_def)

lemma require_satisfies_Inr:
  assumes "require_satisfies a (j, q) db = Inr u" and "get_permission m db = Inr (j, q)" and "auth_ok db"
  shows "\<exists>i p. get_permission a db = Inr (i, p) \<and> (parent_of db)\<^sup>*\<^sup>* i j"
proof -
  from assms(1) obtain i p where p: "get_permission a db = Inr (i, p)" "satisfies (i, p) (j, q) db = Inr True"
    by (auto simp: require_satisfies_def)
  note i = get_permission_Inr [OF p(1) assms(3)] and j = get_permission_Inr [OF assms(2,3)]
  have "satisfies (i, p) (j, q) db = Inr ((parent_of db)\<^sup>*\<^sup>* i j)"
    by (rule satisfies_ancestor [OF assms(3) i(1) j(1) i(4) j(4)])
  with p show ?thesis by simp
qed

lemma check_declared_minimum:
  assumes "check_declared sat db False d act a ts = Inr ts'" and "auth_ok db"
  shows "\<exists>nm. lookup_minimum_permission (actor a) (act_account act) (act_name act) db = Inr nm
      \<and> (\<forall>n. nm = Some n \<longrightarrow> (\<exists>i p j q. get_permission a db = Inr (i, p)
         \<and> get_permission (Permission_Level (actor a) n) db = Inr (j, q) \<and> (parent_of db)\<^sup>*\<^sup>* i j))"
proof -
  from assms(1) obtain nm where nm: "lookup_minimum_permission (actor a) (act_account act) (act_name act) db = Inr nm"
    and rest: "\<And>n. nm = Some n \<Longrightarrow> \<exists>j q u. get_permission (Permission_Level (actor a) n) db = Inr (j, q)
      \<and> require_satisfies a (j, q) db = Inr u"
    by (auto simp: check_declared_def split: option.splits)
  have "\<exists>i p j q. get_permission a db = Inr (i, p) \<and> get_permission (Permission_Level (actor a) n) db = Inr (j, q)
      \<and> (parent_of db)\<^sup>*\<^sup>* i j" if "nm = Some n" for n
  proof -
    obtain j q u where j: "get_permission (Permission_Level (actor a) n) db = Inr (j, q)" "require_satisfies a (j, q) db = Inr u"
      using rest [OF \<open>nm = Some n\<close>] by blast
    with require_satisfies_Inr [OF j(2,1) assms(2)] show ?thesis by blast
  qed
  with nm show ?thesis by blast
qed

lemma check_satisfied_Inr:
  "check_satisfied K pd m = Inr m' \<Longrightarrow> \<exists>s. satisfied_permission_delay K (fst pd) (snd pd) m None = Inr (True, s)"
  by (auto simp: check_satisfied_def)


section \<open>An account with a linked permission\<close>

text \<open>
  Account 5 has its owner and active permissions with the keys 1 and 2, and below active the
  permission 77 with the key 3, linked to all actions of the contract 6.
\<close>

definition demo_auth_row :: "nat \<Rightarrow> nat \<Rightarrow> name \<Rightarrow> nat \<Rightarrow> nat permission_object" where
  "demo_auth_row u par nm k =
     \<lparr>usage_id = u, parent = par, perm_owner = 5, perm_name = nm, last_updated = 1, perm_auth = key_authority k 0\<rparr>"

definition demo_auth_db :: "nat auth_db" where
  "demo_auth_db =
     \<lparr>permissions = [0 \<mapsto> reserved_permission, 1 \<mapsto> demo_auth_row 0 0 owner_name 1,
        2 \<mapsto> demo_auth_row 1 1 active_name 2, 3 \<mapsto> demo_auth_row 2 2 77 3],
      next_permission_id = 4, permission_usage = [0 \<mapsto> 1, 1 \<mapsto> 1, 2 \<mapsto> 1], next_usage_id = 3,
      permission_links = [(Link_Key 5 6 0, 77)]\<rparr>"

definition demo_control :: control_state where
  "demo_control =
     \<lparr>pending_block_time = 1, max_transaction_delay = 3888000, max_authority_depth = 6,
      fix_linkauth_restriction = True, only_link_to_existing_permission = True\<rparr>"

definition demo_action :: "nat action" where
  "demo_action = \<lparr>act_account = 6, act_name = 9, act_authorization = [Permission_Level 5 77], act_data = Other_Data []\<rparr>"

lemma demo_created:
  "bind_res (create_permission demo_control 5 owner_name 0 (key_authority 1 0) 0 initialize_permissions) (\<lambda>((i, p), db).
   bind_res (create_permission demo_control 5 active_name i (key_authority 2 0) 0 db) (\<lambda>((j, q), db).
   bind_res (create_permission demo_control 5 77 j (key_authority 3 0) 0 db) (\<lambda>(r, db).
   Inr (db\<lparr>permission_links := [(Link_Key 5 6 0, 77)]\<rparr>)))) = (Inr demo_auth_db :: nat auth_db managed)"
  by (simp add: create_permission_def demo_auth_db_def initialize_permissions_def find_by_owner_def owned_row_def
      reserved_permission_def demo_control_def demo_auth_row_def Let_def system_names upt_rec)
    (simp add: numeral_2_eq_2 numeral_3_eq_3)

lemma auth_ok_links [simp]: "auth_ok (db\<lparr>permission_links := l\<rparr>) \<longleftrightarrow> auth_ok db"
  by (simp add: auth_ok_def row_valid_def)

lemma demo_auth_ok: "auth_ok demo_auth_db"
proof -
  obtain i p db1 j q db2 k r db3 where
    1: "create_permission demo_control 5 owner_name 0 (key_authority 1 0) 0 initialize_permissions = Inr ((i, p), db1)"
    and 2: "create_permission demo_control 5 active_name i (key_authority 2 0) 0 db1 = Inr ((j, q), db2)"
    and 3: "create_permission demo_control 5 77 j (key_authority 3 0) 0 db2 = Inr ((k, r), db3)"
    and 4: "demo_auth_db = db3\<lparr>permission_links := [(Link_Key 5 6 0, 77)]\<rparr>"
    using demo_created by auto
  have "auth_ok db1" by (rule create_permission_ok [OF 1 initialize_permissions_ok]) (simp_all add: system_names)
  then have "auth_ok db2"
    using create_permission_Inr [OF 1] by (intro create_permission_ok [OF 2]) (simp_all add: system_names)
  then have "auth_ok db3" using create_permission_Inr [OF 2] by (intro create_permission_ok [OF 3]) simp_all
  then show ?thesis by (simp add: 4)
qed

theorem satisfies_exact_witness:
  "satisfies (1, demo_auth_row 0 0 owner_name 1) (3, demo_auth_row 2 2 77 3) demo_auth_db = Inr True
    \<and> (parent_of demo_auth_db)\<^sup>*\<^sup>* 1 3"
proof -
  have "get_permission (Permission_Level 5 owner_name) demo_auth_db = Inr (1, demo_auth_row 0 0 owner_name 1)"
      "get_permission (Permission_Level 5 77) demo_auth_db = Inr (3, demo_auth_row 2 2 77 3)"
    by (simp_all add: get_permission_def find_by_owner_iff [OF demo_auth_ok] system_names demo_auth_db_def demo_auth_row_def
        find_by_owner_def owned_row_def reserved_permission_def upt_rec)
  from satisfies_exact [OF demo_auth_ok this]
  have "satisfies (1, demo_auth_row 0 0 owner_name 1) (3, demo_auth_row 2 2 77 3) demo_auth_db
      = Inr ((parent_of demo_auth_db)\<^sup>*\<^sup>* 1 3)" by blast
  moreover have "satisfies (1, demo_auth_row 0 0 owner_name 1) (3, demo_auth_row 2 2 77 3) demo_auth_db = Inr True"
    by (simp add: satisfies_def demo_auth_db_def demo_auth_row_def eval_nat_numeral)
  ultimately show ?thesis by simp
qed


end
