(* ===== verification/Native_Contract.thy ===== *)
theory Native_Contract
  imports Authorization_Manager Resource_Limits
begin

text \<open>
  The native actions of the system account (\<open>libraries/chain/eosio_contract.cpp\<close>) with what they
  use of \<open>apply_context.cpp\<close> and \<open>transaction_context.cpp\<close>, the accounts and code they change
  (\<open>account_object.hpp\<close>, \<open>code_object.hpp\<close>) and the accounts of a new chain (\<open>controller.cpp\<close>). The hash of
  code, its validation and the size of a serialized key are parameters. An action that throws leaves no
  state: the controller drops the session.
\<close>

section \<open>State\<close>

record account_object =
  creation_date :: int
  abi :: "u8 list"

record 'h account_metadata =
  recv_sequence :: u64
  auth_sequence :: u64
  code_sequence :: u64
  abi_sequence :: u64
  code_hash :: 'h
  last_code_update :: int
  account_flags :: u32
  vm_type :: u8
  vm_version :: u8

datatype 'h code_key = Code_Key (ck_hash: 'h) (ck_vm_type: u8) (ck_vm_version: u8)

record code_object =
  code :: "u8 list"
  code_ref_count :: u64
  first_block_used :: u32

record ('k, 'h) chain_state =
  auth :: "'k auth_db"
  resources :: resource_db
  account_objects :: "name \<rightharpoonup> account_object"
  metadata :: "name \<rightharpoonup> 'h account_metadata"
  code_objects :: "'h code_key \<rightharpoonup> code_object"
  deferred :: "(trx_id \<times> 'k generated_transaction) list"
  validate_ram_usage :: "name set"

record ('k, 'h) apply_env =
  control :: control_state
  head_block_num :: u32
  enforce_whiteblacklist :: bool
  producing_block :: bool
  key_blacklist :: "'k list"
  key_pack_size :: "'k \<Rightarrow> u64"
  sha256 :: "u8 list \<Rightarrow> 'h"
  no_code :: 'h
  wasm_valid :: "u8 list \<Rightarrow> bool"

datatype native_error =
    missing_auth_exception
  | account_name_exists_exception
  | account_query_exception
  | key_blacklist_exception
  | invalid_contract_vm_type
  | invalid_contract_vm_version
  | wasm_exception
  | set_exact_code
  | row_missing
  | Manager_Error manager_error
  | Resource_Error resource_error

type_synonym 'a applied = "(native_error, 'a) result"

definition lift_error :: "('e \<Rightarrow> native_error) \<Rightarrow> ('e, 'a) result \<Rightarrow> 'a applied" where
  "lift_error f r = (case r of Inl e \<Rightarrow> Inl (f e) | Inr x \<Rightarrow> Inr x)"

abbreviation invalid_action :: native_error where
  "invalid_action \<equiv> Manager_Error action_validate_exception"

definition is_privileged :: "'h account_metadata \<Rightarrow> bool" where
  "is_privileged m \<longleftrightarrow> account_flags m AND 1 \<noteq> 0"

definition new_metadata :: "'h \<Rightarrow> bool \<Rightarrow> 'h account_metadata" where
  "new_metadata h privileged =
     \<lparr>recv_sequence = 0, auth_sequence = 0, code_sequence = 0, abi_sequence = 0, code_hash = h, last_code_update = 0,
      account_flags = (if privileged then 1 else 0), vm_type = 0, vm_version = 0\<rparr>"

section \<open>Billing\<close>

definition permission_billable :: u64 where
  "permission_billable = billable_size_v ((billable_size_v (3 * 16 + 4) + 64) + 5 * 32)"

definition link_billable :: u64 where
  "link_billable = billable_size_v (40 + 32 * 3)"

definition deferred_billable :: u64 where
  "deferred_billable = billable_size_v (96 + 4 + 32 * 5)"

definition require_authorization :: "permission_level list \<Rightarrow> name \<Rightarrow> unit applied" where
  "require_authorization auths account = check (list_ex (\<lambda>p. actor p = account) auths) missing_auth_exception (Inr ())"

definition add_ram_usage :: "name \<Rightarrow> int \<Rightarrow> ('k, 'h) chain_state \<Rightarrow> ('k, 'h) chain_state applied" where
  "add_ram_usage account ram_delta s =
     bind_res (lift_error Resource_Error (add_pending_ram_usage account ram_delta (resources s))) (\<lambda>r.
     Inr (s\<lparr>resources := r,
            validate_ram_usage := (if ram_delta > 0 then insert account (validate_ram_usage s) else validate_ram_usage s)\<rparr>))"

text \<open>The sizes as the code computes them: an unsigned 64-bit sum cast to a signed one.\<close>

definition auth_size :: "('k, 'h) apply_env \<Rightarrow> 'k authority \<Rightarrow> int" where
  "auth_size E a = sint (get_billable_size (key_pack_size E) a)"

definition permission_size :: "('k, 'h) apply_env \<Rightarrow> 'k authority \<Rightarrow> int" where
  "permission_size E a = sint (permission_billable + get_billable_size (key_pack_size E) a)"

section \<open>Accounts\<close>

definition check_key_list :: "('k, 'h) apply_env \<Rightarrow> 'k \<Rightarrow> unit applied" where
  "check_key_list E k =
     (if length (key_blacklist E) > 0 then check (k \<notin> set (key_blacklist E)) key_blacklist_exception (Inr ()) else Inr ())"

definition check_authority_account :: "('k, 'h) chain_state \<Rightarrow> permission_level_weight \<Rightarrow> unit \<Rightarrow> unit applied" where
  "check_authority_account s a u =
     (let p = plw_permission a in
      check (account_objects s (actor p) \<noteq> None) invalid_action
     (if permission p = owner_name \<or> permission p = active_name then Inr ()
      else if permission p = eosio_code_name then Inr ()
      else case get_permission (Permission_Level (actor p) (permission p)) (auth s) of
             Inl e \<Rightarrow> (if e = permission_query_exception then Inl invalid_action else Inl (Manager_Error (Permission_Error e)))
           | Inr perm \<Rightarrow> Inr ()))"

definition validate_authority_precondition ::
  "('k, 'h) apply_env \<Rightarrow> ('k, 'h) chain_state \<Rightarrow> 'k authority \<Rightarrow> unit applied" where
  "validate_authority_precondition E s a =
     bind_res (for_each (check_authority_account s) (accounts a) ()) (\<lambda>_.
     if enforce_whiteblacklist E \<and> producing_block E
     then for_each (\<lambda>k _. check_key_list E (kw_key k)) (keys a) ()
     else Inr ())"

definition starts_with_eosio :: "name \<Rightarrow> bool" where
  "starts_with_eosio n \<longleftrightarrow> take 6 (name_text n) = ''eosio.''"

text \<open>The two permissions of a new account.\<close>

definition create_account_permissions ::
  "('k, 'h) apply_env \<Rightarrow> name \<Rightarrow> 'k authority \<Rightarrow> 'k authority \<Rightarrow> int \<Rightarrow> ('k, 'h) chain_state \<Rightarrow> ('k, 'h) chain_state applied" where
  "create_account_permissions E nm own act time s =
     bind_res (lift_error Manager_Error (create_permission (control E) nm owner_name 0 own time (auth s))) (\<lambda>(owner, db).
     bind_res (lift_error Manager_Error (create_permission (control E) nm active_name (fst owner) act time db)) (\<lambda>(active, db).
     bind_res (lift_error Resource_Error (initialize_account nm (resources s))) (\<lambda>r.
     Inr (s\<lparr>auth := db, resources := r\<rparr>))))"

definition new_account_ram :: "('k, 'h) apply_env \<Rightarrow> 'k authority \<Rightarrow> 'k authority \<Rightarrow> int" where
  "new_account_ram E own act = 2 * 1024 + 2 * uint permission_billable + auth_size E own + auth_size E act"

definition apply_eosio_newaccount ::
  "('k :: linorder, 'h) apply_env \<Rightarrow> permission_level list \<Rightarrow> 'k newaccount \<Rightarrow> ('k, 'h) chain_state \<Rightarrow> ('k, 'h) chain_state applied" where
  "apply_eosio_newaccount E auths create s =
     bind_res (require_authorization auths (na_creator create)) (\<lambda>_.
     check (validate (na_owner create)) invalid_action
    (check (validate (na_active create)) invalid_action
    (check (na_name create \<noteq> 0) invalid_action
    (check (length (name_text (na_name create)) \<le> 12) invalid_action
    (bind_res (table_get (metadata s) (na_creator create) row_missing) (\<lambda>creator.
     check (is_privileged creator \<or> \<not> starts_with_eosio (na_name create)) invalid_action
    (check (account_objects s (na_name create) = None) account_name_exists_exception
    (bind_res (table_emplace (metadata s) (na_name create) (new_metadata (no_code E) False)
        (Manager_Error unique_key_violation)) (\<lambda>m.
     let s = s\<lparr>account_objects := (account_objects s)(na_name create \<mapsto>
                 \<lparr>creation_date = pending_block_time (control E), abi = []\<rparr>), metadata := m\<rparr> in
     bind_res (validate_authority_precondition E s (na_owner create)) (\<lambda>_.
     bind_res (validate_authority_precondition E s (na_active create)) (\<lambda>_.
     bind_res (create_account_permissions E (na_name create) (na_owner create) (na_active create) 0 s) (\<lambda>s.
     add_ram_usage (na_name create) (new_account_ram E (na_owner create) (na_active create)) s))))))))))))"

section \<open>Code and ABI\<close>

definition code_key_of :: "'h account_metadata \<Rightarrow> 'h code_key" where
  "code_key_of m = Code_Key (code_hash m) (vm_type m) (vm_version m)"

text \<open>The reference an account drops, with the size it was billed for, and the one it takes.\<close>

definition release_code ::
  "('k, 'h) apply_env \<Rightarrow> 'h \<Rightarrow> 'h account_metadata \<Rightarrow> ('h code_key \<rightharpoonup> code_object) \<Rightarrow> (int \<times> ('h code_key \<rightharpoonup> code_object)) applied" where
  "release_code E new_hash account codes =
     (if code_hash account = no_code E then Inr (0, codes)
      else bind_res (table_get codes (code_key_of account) row_missing) (\<lambda>old.
           check (code_hash account \<noteq> new_hash) set_exact_code
          (Inr (int (length (code old)) * 10,
                if code_ref_count old = 1 then table_erase codes (code_key_of account)
                else codes(code_key_of account \<mapsto> old\<lparr>code_ref_count := code_ref_count old - 1\<rparr>)))))"

definition acquire_code ::
  "('k, 'h) apply_env \<Rightarrow> 'h code_key \<Rightarrow> u8 list \<Rightarrow> ('h code_key \<rightharpoonup> code_object) \<Rightarrow> ('h code_key \<rightharpoonup> code_object)" where
  "acquire_code E key bytes codes =
     (case codes key of
        Some entry \<Rightarrow> codes(key \<mapsto> entry\<lparr>code_ref_count := code_ref_count entry + 1\<rparr>)
      | None \<Rightarrow> codes(key \<mapsto> \<lparr>code = bytes, code_ref_count = 1, first_block_used = head_block_num E + 1\<rparr>))"

definition store_code ::
  "('k, 'h) apply_env \<Rightarrow> setcode \<Rightarrow> 'h \<Rightarrow> 'h account_metadata \<Rightarrow> int \<Rightarrow> ('h code_key \<rightharpoonup> code_object) \<Rightarrow>
   ('k, 'h) chain_state \<Rightarrow> ('k, 'h) chain_state applied" where
  "store_code E act hash account old_size codes s =
     (let code_size = int (length (sc_code act));
          new_size = code_size * 10;
          key = Code_Key hash (sc_vmtype act) (sc_vmversion act);
          codes = (if code_size > 0 then acquire_code E key (sc_code act) codes else codes);
          account = account\<lparr>code_sequence := code_sequence account + 1, code_hash := hash, vm_type := sc_vmtype act,
                            vm_version := sc_vmversion act, last_code_update := pending_block_time (control E)\<rparr>;
          s = s\<lparr>code_objects := codes, metadata := (metadata s)(sc_account act \<mapsto> account)\<rparr>
      in if new_size \<noteq> old_size then add_ram_usage (sc_account act) (new_size - old_size) s else Inr s)"

definition apply_eosio_setcode ::
  "('k, 'h) apply_env \<Rightarrow> permission_level list \<Rightarrow> setcode \<Rightarrow> ('k, 'h) chain_state \<Rightarrow> ('k, 'h) chain_state applied" where
  "apply_eosio_setcode E auths act s =
     bind_res (require_authorization auths (sc_account act)) (\<lambda>_.
     check (sc_vmtype act = 0) invalid_contract_vm_type
    (check (sc_vmversion act = 0) invalid_contract_vm_version
    (let code_size = int (length (sc_code act));
         hash = (if code_size > 0 then sha256 E (sc_code act) else no_code E) in
     check (code_size > 0 \<longrightarrow> wasm_valid E (sc_code act)) wasm_exception
    (bind_res (table_get (metadata s) (sc_account act) row_missing) (\<lambda>account.
     check (code_size > 0 \<or> code_hash account \<noteq> no_code E) set_exact_code
    (bind_res (release_code E hash account (code_objects s)) (\<lambda>(old_size, codes).
     store_code E act hash account old_size codes s)))))))"

definition apply_eosio_setabi ::
  "permission_level list \<Rightarrow> setabi \<Rightarrow> ('k, 'h) chain_state \<Rightarrow> ('k, 'h) chain_state applied" where
  "apply_eosio_setabi auths act s =
     bind_res (require_authorization auths (sa_account act)) (\<lambda>_.
     bind_res (table_get (account_objects s) (sa_account act) row_missing) (\<lambda>account.
     let old_size = int (length (abi account)); new_size = int (length (sa_abi act)) in
     bind_res (table_get (metadata s) (sa_account act) row_missing) (\<lambda>m.
     let s = s\<lparr>account_objects := (account_objects s)(sa_account act \<mapsto> account\<lparr>abi := sa_abi act\<rparr>),
               metadata := (metadata s)(sa_account act \<mapsto> m\<lparr>abi_sequence := abi_sequence m + 1\<rparr>)\<rparr>
     in if new_size \<noteq> old_size then add_ram_usage (sa_account act) (new_size - old_size) s else Inr s)))"

section \<open>Permissions and links\<close>

definition apply_eosio_updateauth ::
  "('k :: linorder, 'h) apply_env \<Rightarrow> permission_level list \<Rightarrow> 'k updateauth \<Rightarrow> ('k, 'h) chain_state \<Rightarrow> ('k, 'h) chain_state applied" where
  "apply_eosio_updateauth E auths update s =
     bind_res (require_authorization auths (ua_account update)) (\<lambda>_.
     check (ua_permission update \<noteq> 0) invalid_action
    (check (\<not> starts_with_eosio (ua_permission update)) invalid_action
    (check (ua_permission update \<noteq> ua_parent update) invalid_action
    (bind_res (table_get (account_objects s) (ua_account update) row_missing) (\<lambda>_.
     check (validate (ua_auth update)) invalid_action
    (check (ua_permission update = active_name \<longrightarrow> ua_parent update = owner_name) invalid_action
    (check (if ua_permission update = owner_name then ua_parent update = 0 else ua_parent update \<noteq> 0) invalid_action
    (check (waits (ua_auth update) \<noteq> [] \<longrightarrow>
              ww_wait_sec (last (waits (ua_auth update))) \<le> max_transaction_delay (control E)) invalid_action
    (bind_res (validate_authority_precondition E s (ua_auth update)) (\<lambda>_.
     bind_res (lift_error (Manager_Error \<circ> Permission_Error)
        (find_permission (Permission_Level (ua_account update) (ua_permission update)) (auth s))) (\<lambda>found.
     bind_res (if ua_permission update \<noteq> owner_name
               then bind_res (lift_error (Manager_Error \<circ> Permission_Error)
                      (get_permission (Permission_Level (ua_account update) (ua_parent update)) (auth s))) (\<lambda>par. Inr (fst par))
               else Inr 0) (\<lambda>parent_id.
     case found of
       Some perm \<Rightarrow>
         check (parent_id = parent (snd perm)) invalid_action
        (let old_size = permission_size E (perm_auth (snd perm));
             s = s\<lparr>auth := modify_permission (control E) perm (ua_auth update) (auth s)\<rparr>;
             new_size = permission_size E (ua_auth update)
         in add_ram_usage (perm_owner (snd perm)) (new_size - old_size) s)
     | None \<Rightarrow>
         bind_res (lift_error Manager_Error
            (create_permission (control E) (ua_account update) (ua_permission update) parent_id (ua_auth update) 0 (auth s))) (\<lambda>(p, db).
         add_ram_usage (ua_account update) (permission_size E (perm_auth (snd p))) (s\<lparr>auth := db\<rparr>))))))))))))))"

definition apply_eosio_deleteauth ::
  "('k, 'h) apply_env \<Rightarrow> permission_level list \<Rightarrow> deleteauth \<Rightarrow> ('k, 'h) chain_state \<Rightarrow> ('k, 'h) chain_state applied" where
  "apply_eosio_deleteauth E auths remove s =
     bind_res (require_authorization auths (da_account remove)) (\<lambda>_.
     check (da_permission remove \<noteq> active_name) invalid_action
    (check (da_permission remove \<noteq> owner_name) invalid_action
    (check (\<not> list_ex (\<lambda>(k, r). link_account k = da_account remove \<and> r = da_permission remove)
              (permission_links (auth s))) invalid_action
    (bind_res (lift_error (Manager_Error \<circ> Permission_Error)
        (get_permission (Permission_Level (da_account remove) (da_permission remove)) (auth s))) (\<lambda>perm.
     let old_size = permission_size E (perm_auth (snd perm)) in
     bind_res (lift_error Manager_Error (remove_permission perm (auth s))) (\<lambda>db.
     add_ram_usage (da_account remove) (- old_size) (s\<lparr>auth := db\<rparr>)))))))"

definition link_target_exists :: "('k, 'h) apply_env \<Rightarrow> linkauth \<Rightarrow> 'k auth_db \<Rightarrow> bool" where
  "link_target_exists E requirement db \<longleftrightarrow>
     (if only_link_to_existing_permission (control E)
      then find_by_owner (la_account requirement) (la_requirement requirement) db \<noteq> None
      else exists_by_name (la_requirement requirement) db)"

definition apply_eosio_linkauth ::
  "('k, 'h) apply_env \<Rightarrow> permission_level list \<Rightarrow> linkauth \<Rightarrow> ('k, 'h) chain_state \<Rightarrow> ('k, 'h) chain_state applied" where
  "apply_eosio_linkauth E auths requirement s =
     check (la_requirement requirement \<noteq> 0) invalid_action
    (bind_res (require_authorization auths (la_account requirement)) (\<lambda>_.
     check (account_objects s (la_account requirement) \<noteq> None) account_query_exception
    (check (account_objects s (la_code requirement) \<noteq> None) account_query_exception
    (check (la_requirement requirement \<noteq> eosio_any_name \<longrightarrow> link_target_exists E requirement (auth s))
       (Manager_Error (Permission_Error permission_query_exception))
    (let key = Link_Key (la_account requirement) (la_code requirement) (la_type requirement);
         links = permission_links (auth s) in
     case map_of links key of
       Some required \<Rightarrow>
         check (required \<noteq> la_requirement requirement) invalid_action
        (Inr (s\<lparr>auth := (auth s)\<lparr>permission_links :=
                 map (\<lambda>(k, r). (k, if k = key then la_requirement requirement else r)) links\<rparr>\<rparr>))
     | None \<Rightarrow>
         add_ram_usage (la_account requirement) (uint link_billable)
           (s\<lparr>auth := (auth s)\<lparr>permission_links := links @ [(key, la_requirement requirement)]\<rparr>\<rparr>))))))"

definition apply_eosio_unlinkauth ::
  "permission_level list \<Rightarrow> unlinkauth \<Rightarrow> ('k, 'h) chain_state \<Rightarrow> ('k, 'h) chain_state applied" where
  "apply_eosio_unlinkauth auths unlink s =
     bind_res (require_authorization auths (ul_account unlink)) (\<lambda>_.
     let key = Link_Key (ul_account unlink) (ul_code unlink) (ul_type unlink) in
     check (map_of (permission_links (auth s)) key \<noteq> None) invalid_action
    (bind_res (add_ram_usage (link_account key) (- uint link_billable) s) (\<lambda>s.
     Inr (s\<lparr>auth := (auth s)\<lparr>permission_links := filter (\<lambda>(k, r). k \<noteq> key) (permission_links (auth s))\<rparr>\<rparr>))))"

section \<open>Deferred transactions\<close>

fun transaction_id_to_sender_id :: "trx_id \<Rightarrow> 128 word" where
  "transaction_id_to_sender_id (Trx_Id h0 h1 h2 h3) = push_bit 64 (ucast h3) OR ucast h2"

definition deferred_size :: "'k generated_transaction \<Rightarrow> int" where
  "deferred_size g = sint (deferred_billable + of_nat (gt_packed_size g))"

definition cancel_deferred_transaction ::
  "128 word \<Rightarrow> name \<Rightarrow> ('k, 'h) chain_state \<Rightarrow> (bool \<times> ('k, 'h) chain_state) applied" where
  "cancel_deferred_transaction sender_id sender s =
     (case find (\<lambda>(t, g). gt_sender g = sender \<and> gt_sender_id g = sender_id) (deferred s) of
        None \<Rightarrow> Inr (False, s)
      | Some (t, g) \<Rightarrow>
          bind_res (add_ram_usage (gt_payer g) (- deferred_size g) s) (\<lambda>s.
          Inr (True, s\<lparr>deferred := filter (\<lambda>(u, h). u \<noteq> t) (deferred s)\<rparr>)))"

definition apply_eosio_canceldelay ::
  "permission_level list \<Rightarrow> canceldelay \<Rightarrow> ('k, 'h) chain_state \<Rightarrow> ('k, 'h) chain_state applied" where
  "apply_eosio_canceldelay auths cancel s =
     bind_res (require_authorization auths (actor (cd_canceling_auth cancel))) (\<lambda>_.
     bind_res (cancel_deferred_transaction (transaction_id_to_sender_id (cd_trx_id cancel)) 0 s) (\<lambda>(found, s).
     Inr s))"

definition first_authorizer :: "'k action list \<Rightarrow> name" where
  "first_authorizer acts = (case concat (map act_authorization acts) of [] \<Rightarrow> 0 | p # ps \<Rightarrow> actor p)"

text \<open>A transaction with a delay is stored for later; its serialized size is a parameter.\<close>

definition schedule_transaction ::
  "('k, 'h) apply_env \<Rightarrow> trx_id \<Rightarrow> int \<Rightarrow> 'k action list \<Rightarrow> nat \<Rightarrow> ('k, 'h) chain_state \<Rightarrow> ('k, 'h) chain_state applied" where
  "schedule_transaction E tid delay acts trx_size s =
     (let now = pending_block_time (control E);
          gto = \<lparr>gt_sender = 0, gt_sender_id = transaction_id_to_sender_id tid, gt_payer = first_authorizer acts,
                 gt_delay_until = now + delay, gt_published = now, gt_packed_size = trx_size, gt_actions = acts\<rparr>
      in check (\<not> list_ex (\<lambda>(t, g). t = tid \<or> gt_sender g = 0 \<and> gt_sender_id g = gt_sender_id gto) (deferred s))
           (Manager_Error unique_key_violation)
        (add_ram_usage (gt_payer gto) (deferred_size gto) (s\<lparr>deferred := deferred s @ [(tid, gto)]\<rparr>)))"

section \<open>The handlers of the system account\<close>

definition newaccount_name :: name where
  "newaccount_name = string_to_name ''newaccount''"

definition setcode_name :: name where
  "setcode_name = string_to_name ''setcode''"

definition setabi_name :: name where
  "setabi_name = string_to_name ''setabi''"

fun unpack_newaccount :: "'k action_data \<Rightarrow> 'k newaccount option" where
  "unpack_newaccount (Newaccount_Data d) = Some d"
| "unpack_newaccount _ = None"

fun unpack_setcode :: "'k action_data \<Rightarrow> setcode option" where
  "unpack_setcode (Setcode_Data d) = Some d"
| "unpack_setcode _ = None"

fun unpack_setabi :: "'k action_data \<Rightarrow> setabi option" where
  "unpack_setabi (Setabi_Data d) = Some d"
| "unpack_setabi _ = None"

text \<open>
  The native handler of an action of the system account, found by its name. An action without
  one changes nothing here.
\<close>

definition apply_native :: "('k :: linorder, 'h) apply_env \<Rightarrow> 'k action \<Rightarrow> ('k, 'h) chain_state \<Rightarrow> ('k, 'h) chain_state applied" where
  "apply_native E act s =
     (let auths = act_authorization act in
      if act_account act \<noteq> system_account_name then Inr s
      else if act_name act = newaccount_name then
        bind_res (lift_error Manager_Error (data_as newaccount_name unpack_newaccount act)) (\<lambda>d. apply_eosio_newaccount E auths d s)
      else if act_name act = setcode_name then
        bind_res (lift_error Manager_Error (data_as setcode_name unpack_setcode act)) (\<lambda>d. apply_eosio_setcode E auths d s)
      else if act_name act = setabi_name then
        bind_res (lift_error Manager_Error (data_as setabi_name unpack_setabi act)) (\<lambda>d. apply_eosio_setabi auths d s)
      else if act_name act = updateauth_name then
        bind_res (lift_error Manager_Error (data_as updateauth_name unpack_updateauth act)) (\<lambda>d. apply_eosio_updateauth E auths d s)
      else if act_name act = deleteauth_name then
        bind_res (lift_error Manager_Error (data_as deleteauth_name unpack_deleteauth act)) (\<lambda>d. apply_eosio_deleteauth E auths d s)
      else if act_name act = linkauth_name then
        bind_res (lift_error Manager_Error (data_as linkauth_name unpack_linkauth act)) (\<lambda>d. apply_eosio_linkauth E auths d s)
      else if act_name act = unlinkauth_name then
        bind_res (lift_error Manager_Error (data_as unlinkauth_name unpack_unlinkauth act)) (\<lambda>d. apply_eosio_unlinkauth auths d s)
      else if act_name act = canceldelay_name then
        bind_res (lift_error Manager_Error (data_as canceldelay_name unpack_canceldelay act)) (\<lambda>d. apply_eosio_canceldelay auths d s)
      else Inr s)"

text \<open>The accounts of a new chain.\<close>

definition create_native_account ::
  "('k, 'h) apply_env \<Rightarrow> int \<Rightarrow> u8 list \<Rightarrow> name \<Rightarrow> 'k authority \<Rightarrow> 'k authority \<Rightarrow> bool \<Rightarrow>
   ('k, 'h) chain_state \<Rightarrow> ('k, 'h) chain_state applied" where
  "create_native_account E initial_timestamp eosio_abi nm own act privileged s =
     bind_res (table_emplace (account_objects s) nm
        \<lparr>creation_date = initial_timestamp, abi = (if nm = system_account_name then eosio_abi else [])\<rparr>
        (Manager_Error unique_key_violation)) (\<lambda>a.
     bind_res (table_emplace (metadata s) nm (new_metadata (no_code E) privileged) (Manager_Error unique_key_violation)) (\<lambda>m.
     bind_res (create_account_permissions E nm own act initial_timestamp (s\<lparr>account_objects := a, metadata := m\<rparr>)) (\<lambda>s.
     bind_res (lift_error Resource_Error (add_pending_ram_usage nm (new_account_ram E own act) (resources s))) (\<lambda>r.
     bind_res (lift_error Resource_Error (verify_account_ram_usage nm r)) (\<lambda>_.
     Inr (s\<lparr>resources := r\<rparr>))))))"

definition null_account_name :: name where
  "null_account_name = string_to_name ''eosio.null''"

definition producers_account_name :: name where
  "producers_account_name = string_to_name ''eosio.prods''"

definition majority_producers_permission_name :: name where
  "majority_producers_permission_name = string_to_name ''prod.major''"

definition minority_producers_permission_name :: name where
  "minority_producers_permission_name = string_to_name ''prod.minor''"

definition empty_state :: "('k, 'h) chain_state" where
  "empty_state =
     \<lparr>auth = initialize_permissions, resources = initialize_database, account_objects = Map.empty, metadata = Map.empty,
      code_objects = Map.empty, deferred = [], validate_ram_usage = {}\<rparr>"

definition initialize_accounts :: "('k, 'h) apply_env \<Rightarrow> int \<Rightarrow> u8 list \<Rightarrow> 'k \<Rightarrow> ('k, 'h) chain_state applied" where
  "initialize_accounts E initial_timestamp eosio_abi initial_key =
     (let create = create_native_account E initial_timestamp eosio_abi;
          system_auth = key_authority initial_key 0;
          empty_authority = \<lparr>threshold = 1, keys = [], accounts = [], waits = []\<rparr>;
          active_producers_authority = empty_authority\<lparr>accounts :=
            [\<lparr>plw_permission = Permission_Level system_account_name active_name, plw_weight = 1\<rparr>]\<rparr>
      in bind_res (create system_account_name system_auth system_auth True empty_state) (\<lambda>s.
         bind_res (create null_account_name empty_authority empty_authority False s) (\<lambda>s.
         bind_res (create producers_account_name empty_authority active_producers_authority False s) (\<lambda>s.
         bind_res (lift_error (Manager_Error \<circ> Permission_Error)
            (get_permission (Permission_Level producers_account_name active_name) (auth s))) (\<lambda>active.
         bind_res (lift_error Manager_Error (create_permission (control E) producers_account_name
            majority_producers_permission_name (fst active) active_producers_authority initial_timestamp (auth s))) (\<lambda>(major, db).
         bind_res (lift_error Manager_Error (create_permission (control E) producers_account_name
            minority_producers_permission_name (fst major) active_producers_authority initial_timestamp db)) (\<lambda>(minor, db).
         Inr (s\<lparr>auth := db\<rparr>))))))))"

section \<open>Sizes\<close>

lemma billables: "permission_billable = 288" "link_billable = 144" "deferred_billable = 272"
  by (simp_all add: permission_billable_def link_billable_def deferred_billable_def billable_size_v_def)

definition small_keys :: "('k, 'h) apply_env \<Rightarrow> bool" where
  "small_keys E \<longleftrightarrow> (\<forall>k. unat (key_pack_size E k) < 2 ^ 32)"

definition small_auth :: "('k, 'h) apply_env \<Rightarrow> 'k authority \<Rightarrow> bool" where
  "small_auth E a \<longleftrightarrow> unat (get_billable_size (key_pack_size E) a) < 2 ^ 60"

lemma unat_plus_le_u64: "unat (x + y :: u64) \<le> unat x + unat y"
  by (simp add: unat_word_ariths)

lemma unat_times_le_u64: "unat (x * y :: u64) \<le> unat x * unat y"
  by (simp add: unat_word_ariths)

lemma unat_of_nat_le_u64: "unat (of_nat n :: u64) \<le> n"
  by (simp add: unsigned_of_nat take_bit_nat_less_eq_self)

lemma keys_size_bound:
  assumes "\<forall>k. unat (f k) < 2 ^ 32"
  shows "unat (fold (\<lambda>k n. n + billable_size_v 8 + f (kw_key k)) ks n :: u64) \<le> unat n + length ks * 2 ^ 33"
proof (induction ks arbitrary: n)
  case (Cons k ks)
  have "unat (n + billable_size_v 8 + f (kw_key k)) \<le> unat n + 16 + unat (f (kw_key k))"
    using unat_plus_le_u64 [of "n + 16" "f (kw_key k)"] unat_plus_le_u64 [of n 16]
    by (simp add: billable_size_v_def)
  moreover have "unat (f (kw_key k)) < 2 ^ 32" using assms by blast
  ultimately have "unat (n + billable_size_v 8 + f (kw_key k)) \<le> unat n + 2 ^ 33" by simp
  with Cons.IH [of "n + billable_size_v 8 + f (kw_key k)"] show ?case by simp
qed simp

lemma count_bound: "unat (of_nat n * m :: u64) \<le> n * unat m"
  using unat_times_le_u64 [of "of_nat n" m] mult_le_mono1 [OF unat_of_nat_le_u64 [of n], of "unat m"] by linarith

lemma validate_small:
  assumes "length (keys a) + length (accounts a) + length (waits a) \<le> 2 ^ 16" and "small_keys E"
  shows "small_auth E a"
proof -
  let ?as = "of_nat (length (accounts a)) * 32 :: u64" and ?ws = "of_nat (length (waits a)) * 16 :: u64"
  let ?ks = "fold (\<lambda>k n. n + billable_size_v 8 + key_pack_size E (kw_key k)) (keys a) 0"
  have "unat ?as \<le> length (accounts a) * 32" "unat ?ws \<le> length (waits a) * 16"
    using count_bound [of "length (accounts a)" 32] count_bound [of "length (waits a)" 16] by simp_all
  moreover have "unat ?ks \<le> length (keys a) * 2 ^ 33"
    using keys_size_bound [of "key_pack_size E" "keys a" 0] assms(2) by (simp add: small_keys_def)
  moreover have "unat (?as + ?ws + ?ks) \<le> unat ?as + unat ?ws + unat ?ks"
    using unat_plus_le_u64 [of "?as + ?ws" ?ks] unat_plus_le_u64 [of ?as ?ws] by linarith
  moreover have "get_billable_size (key_pack_size E) a = ?as + ?ws + ?ks"
    by (simp add: get_billable_size_def Let_def billable_size_v_def)
  ultimately show ?thesis using assms(1) by (simp add: small_auth_def)
qed

lemma uint_below: "unat (x :: u64) < 2 ^ n \<Longrightarrow> uint x < 2 ^ n"
proof -
  assume "unat x < 2 ^ n"
  then have "int (unat x) < int (2 ^ n)" by (simp only: of_nat_less_iff)
  then show ?thesis by simp
qed

lemma sint_small: "unat (x :: u64) < 2 ^ 63 \<Longrightarrow> sint x = int (unat x)"
proof -
  assume "unat x < 2 ^ 63"
  then have "uint x < 2 ^ 63" by (rule uint_below)
  then have "signed_take_bit 63 (uint x) = uint x" by (intro signed_take_bit_int_eq_self) (simp_all add: order_trans [OF _ uint_ge_0])
  then show ?thesis by (simp add: sint_uint)
qed

lemma permission_size_small:
  assumes "small_auth E a"
  shows "permission_size E a = 288 + auth_size E a" and "0 \<le> auth_size E a" and "auth_size E a < 2 ^ 60"
proof -
  let ?n = "get_billable_size (key_pack_size E) a"
  have n: "unat ?n < 2 ^ 60" using assms by (simp add: small_auth_def)
  then have "uint ?n < 2 ^ 60" by (rule uint_below)
  moreover from n have "sint ?n = int (unat ?n)" by (intro sint_small) simp
  moreover have "unat (288 + ?n) = 288 + unat ?n" using n by (subst unat_add_exact) simp_all
  moreover from this n have "sint (288 + ?n) = int (288 + unat ?n)" by (subst sint_small) simp_all
  ultimately show "permission_size E a = 288 + auth_size E a" "0 \<le> auth_size E a" "auth_size E a < 2 ^ 60"
    using n by (simp_all add: permission_size_def auth_size_def billables)
qed

lemma deferred_size_small: "gt_packed_size g < 2 ^ 32 \<Longrightarrow> deferred_size g = 272 + int (gt_packed_size g)"
  by (simp add: deferred_size_def billables sint_small unat_add_exact unsigned_of_nat take_bit_nat_eq_self)

section \<open>What an account is billed for\<close>

definition ram_of :: "('k, 'h) chain_state \<Rightarrow> name \<Rightarrow> int" where
  "ram_of s a = (case usage_table (resources s) a of None \<Rightarrow> 0 | Some u \<Rightarrow> uint (ram_usage u))"

definition code_footprint :: "('k, 'h) apply_env \<Rightarrow> ('h code_key \<rightharpoonup> code_object) \<Rightarrow> 'h account_metadata option \<Rightarrow> int" where
  "code_footprint E codes m =
     (case m of None \<Rightarrow> 0
      | Some m \<Rightarrow> if code_hash m = no_code E then 0
          else case codes (code_key_of m) of None \<Rightarrow> 0 | Some c \<Rightarrow> 10 * int (length (code c)))"

definition account_footprint :: "account_object option \<Rightarrow> int" where
  "account_footprint ao = (case ao of None \<Rightarrow> 0 | Some ao \<Rightarrow> 2048 + int (length (abi ao)))"

definition permission_footprint :: "('k, 'h) apply_env \<Rightarrow> 'k auth_db \<Rightarrow> name \<Rightarrow> int" where
  "permission_footprint E db a =
     table_sum (permissions db) (\<lambda>i p. if perm_owner p = a then permission_size E (perm_auth p) else 0)"

definition link_footprint :: "(link_key \<times> name) list \<Rightarrow> name \<Rightarrow> int" where
  "link_footprint links a = (\<Sum>(k, r) \<leftarrow> links. if link_account k = a then 144 else 0)"

definition deferred_footprint :: "(trx_id \<times> 'k generated_transaction) list \<Rightarrow> name \<Rightarrow> int" where
  "deferred_footprint ds a = (\<Sum>(t, g) \<leftarrow> ds. if gt_payer g = a then deferred_size g else 0)"

definition footprint :: "('k, 'h) apply_env \<Rightarrow> ('k, 'h) chain_state \<Rightarrow> name \<Rightarrow> int" where
  "footprint E s a =
     account_footprint (account_objects s a) + code_footprint E (code_objects s) (metadata s a)
     + permission_footprint E (auth s) a + link_footprint (permission_links (auth s)) a
     + deferred_footprint (deferred s) a"

lemma lift_error_Inr [simp]: "lift_error f r = Inr x \<longleftrightarrow> r = Inr x"
  by (cases r) (simp_all add: lift_error_def)

lemma add_ram_usage_Inr:
  assumes "add_ram_usage acc d s = Inr s'" and "- (2 ^ 63) < d" and "d < 2 ^ 63"
  shows "\<exists>r v. s' = s\<lparr>resources := r, validate_ram_usage := v\<rparr>"
    and "ram_of s' a = ram_of s a + (if a = acc then d else 0)"
proof -
  from assms(1) obtain r where r: "add_pending_ram_usage acc d (resources s) = Inr r"
    and s': "s' = s\<lparr>resources := r, validate_ram_usage :=
      (if d > 0 then insert acc (validate_ram_usage s) else validate_ram_usage s)\<rparr>"
    by (auto simp: add_ram_usage_def)
  show "\<exists>r v. s' = s\<lparr>resources := r, validate_ram_usage := v\<rparr>" using s' by blast
  show "ram_of s' a = ram_of s a + (if a = acc then d else 0)"
  proof (cases "d = 0")
    case True
    with r s' show ?thesis by (simp add: add_pending_ram_usage_def ram_of_def)
  next
    case False
    with r obtain u where u: "usage_table (resources s) acc = Some u" by (auto simp: add_pending_ram_usage_def)
    obtain w where "r = (resources s)\<lparr>usage_table := (usage_table (resources s))(acc \<mapsto> u\<lparr>ram_usage := w\<rparr>)\<rparr>"
        "uint w = uint (ram_usage u) + d"
      using add_pending_ram_usage_exact [OF u, of d] assms(2,3) r by (auto simp: in_int64_def)
    with u s' show ?thesis by (simp add: ram_of_def)
  qed
qed

lemma footprint_ram_irrelevant [simp]:
  "footprint E (s\<lparr>resources := r, validate_ram_usage := v\<rparr>) = footprint E s"
  by (simp add: footprint_def fun_eq_iff)

text \<open>
  The pattern of the handlers: the rows change so that the footprint of one account grows by \<open>d\<close>, and the
  account is charged \<open>d\<close>.
\<close>

definition conserved :: "('k, 'h) apply_env \<Rightarrow> ('k, 'h) chain_state \<Rightarrow> ('k, 'h) chain_state \<Rightarrow> bool" where
  "conserved E s s' \<longleftrightarrow> (\<forall>a. ram_of s' a - ram_of s a = footprint E s' a - footprint E s a)"

lemma charge_conserved:
  assumes "add_ram_usage acc d t = Inr s'" and "- (2 ^ 63) < d" and "d < 2 ^ 63"
    and "\<And>a. ram_of t a = ram_of s a"
    and "\<And>a. footprint E t a = footprint E s a + (if a = acc then d else 0)"
  shows "conserved E s s'"
proof -
  obtain r v where s': "s' = t\<lparr>resources := r, validate_ram_usage := v\<rparr>"
    using add_ram_usage_Inr(1) [OF assms(1,2,3)] by blast
  then have "footprint E s' = footprint E t" by simp
  then show ?thesis
    using add_ram_usage_Inr(2) [OF assms(1,2,3)] assms(4,5) by (simp add: conserved_def)
qed

section \<open>Code and its references\<close>

text \<open>What is relied on of the hash: no two codes collide and no code has the hash of no code.\<close>

definition hash_ok :: "('k, 'h) apply_env \<Rightarrow> bool" where
  "hash_ok E \<longleftrightarrow> (\<forall>b c. sha256 E b = sha256 E c \<longrightarrow> b = c) \<and> (\<forall>b. sha256 E b \<noteq> no_code E)"

definition uses_code :: "('k, 'h) apply_env \<Rightarrow> 'h account_metadata option \<Rightarrow> 'h code_key \<Rightarrow> bool" where
  "uses_code E m k \<longleftrightarrow> (\<exists>x. m = Some x \<and> code_hash x \<noteq> no_code E \<and> code_key_of x = k)"

definition code_users :: "('k, 'h) apply_env \<Rightarrow> (name \<rightharpoonup> 'h account_metadata) \<Rightarrow> 'h code_key \<Rightarrow> name set" where
  "code_users E m k = {a. uses_code E (m a) k}"

definition code_ok :: "('k, 'h) apply_env \<Rightarrow> (name \<rightharpoonup> 'h account_metadata) \<Rightarrow> ('h code_key \<rightharpoonup> code_object) \<Rightarrow> bool" where
  "code_ok E m codes \<longleftrightarrow>
     (\<forall>a k. uses_code E (m a) k \<longrightarrow> codes k \<noteq> None)
     \<and> (\<forall>k c. codes k = Some c \<longrightarrow> unat (code_ref_count c) = card (code_users E m k)
          \<and> sha256 E (code c) = ck_hash k \<and> length (code c) < 2 ^ 32)"

lemma code_okD:
  assumes "code_ok E m codes"
  shows "uses_code E (m a) k \<Longrightarrow> \<exists>c. codes k = Some c"
    and "codes k = Some c \<Longrightarrow> unat (code_ref_count c) = card (code_users E m k)"
    and "codes k = Some c \<Longrightarrow> sha256 E (code c) = ck_hash k"
    and "codes k = Some c \<Longrightarrow> length (code c) < 2 ^ 32"
  using assms by (auto simp: code_ok_def)

lemma code_okI:
  assumes "\<And>a k. uses_code E (m a) k \<Longrightarrow> \<exists>c. codes k = Some c"
    and "\<And>k c. codes k = Some c \<Longrightarrow> unat (code_ref_count c) = card (code_users E m k)"
    and "\<And>k c. codes k = Some c \<Longrightarrow> sha256 E (code c) = ck_hash k"
    and "\<And>k c. codes k = Some c \<Longrightarrow> length (code c) < 2 ^ 32"
  shows "code_ok E m codes"
  using assms unfolding code_ok_def by (metis option.distinct(1))

lemma code_ok_cong: "(\<And>a k. uses_code E (m' a) k \<longleftrightarrow> uses_code E (m a) k) \<Longrightarrow> code_ok E m' codes \<longleftrightarrow> code_ok E m codes"
  by (simp add: code_ok_def code_users_def)

lemma code_footprint_uses:
  "uses_code E m k \<Longrightarrow> code_footprint E codes m = (case codes k of None \<Rightarrow> 0 | Some c \<Rightarrow> 10 * int (length (code c)))"
  "(\<And>k. \<not> uses_code E m k) \<Longrightarrow> code_footprint E codes m = 0"
  by (auto simp: code_footprint_def uses_code_def split: option.splits)

lemma code_users_upd: "code_users E (m(a := x)) k = (if uses_code E x k then insert a (code_users E m k) else code_users E m k - {a})"
  by (auto simp: code_users_def)

lemma finite_names [simp]: "finite (A :: name set)"
  by (rule finite_subset [OF subset_UNIV]) simp

lemma same_bytes:
  assumes "\<And>k c. codes k = Some c \<Longrightarrow> uses_code E (m b) k \<Longrightarrow> \<exists>c'. codes' k = Some c' \<and> code c' = code c"
    and "code_ok E m codes"
  shows "code_footprint E codes' (m b) = code_footprint E codes (m b)"
proof (cases "\<exists>k. uses_code E (m b) k")
  case True
  then obtain k where k: "uses_code E (m b) k" by blast
  obtain c where c: "codes k = Some c" using code_okD(1) [OF assms(2) k] by blast
  with assms(1) [OF c k] k show ?thesis by (auto simp: code_footprint_uses)
qed (auto simp: code_footprint_uses(2))

lemma detach_unused:
  assumes ok: "code_ok E m codes" and no: "\<And>k. \<not> uses_code E (m acc) k" "\<And>k. \<not> uses_code E y k"
  shows "code_ok E (m(acc := y)) codes"
proof -
  have "code_users E (m(acc := y)) k = code_users E m k" for k using no by (auto simp: code_users_def)
  moreover have "uses_code E ((m(acc := y)) a) k \<Longrightarrow> uses_code E (m a) k" for a k using no by (auto split: if_splits)
  ultimately show ?thesis using code_okD [OF ok] by (intro code_okI) (blast | simp)+
qed

text \<open>Dropping one reference: the entry goes with its last user.\<close>

definition drop_reference :: "'h code_key \<Rightarrow> code_object \<Rightarrow> ('h code_key \<rightharpoonup> code_object) \<Rightarrow> ('h code_key \<rightharpoonup> code_object)" where
  "drop_reference k c codes =
     (if code_ref_count c = 1 then table_erase codes k else codes(k \<mapsto> c\<lparr>code_ref_count := code_ref_count c - 1\<rparr>))"

lemma drop_reference_other [simp]: "j \<noteq> k \<Longrightarrow> drop_reference k c codes j = codes j"
  by (simp add: drop_reference_def)

lemma drop_reference_kept:
  assumes ok: "code_ok E m codes" and c: "codes k = Some c" and acc: "uses_code E (m acc) k"
    and d: "codes j = Some d" "uses_code E (m b) j" "b \<noteq> acc"
  shows "\<exists>c'. drop_reference k c codes j = Some c' \<and> code c' = code d"
proof (cases "j = k")
  case True
  have "code_ref_count c \<noteq> 1"
  proof
    assume "code_ref_count c = 1"
    then have "card (code_users E m k) = 1" using code_okD(2) [OF ok c] by simp
    moreover have "acc \<in> code_users E m k" "b \<in> code_users E m k" using acc d(2) True by (simp_all add: code_users_def)
    ultimately show False using d(3) by (auto simp: card_1_singleton_iff)
  qed
  with True c d(1) show ?thesis by (simp add: drop_reference_def)
qed (use d in simp)

lemma drop_reference_row:
  assumes ok: "code_ok E m codes" and c: "codes k = Some c" and acc: "\<And>j. uses_code E (m acc) j \<longleftrightarrow> j = k"
    and y: "\<And>j. \<not> uses_code E y j" and row: "drop_reference k c codes j = Some c'"
  shows "\<exists>d. codes j = Some d \<and> code d = code c' \<and> unat (code_ref_count c') = card (code_users E (m(acc := y)) j)"
proof (cases "j = k")
  case True
  have mem: "acc \<in> code_users E m k" using acc by (simp add: code_users_def)
  then have "0 < card (code_users E m k)" by (auto simp: card_gt_0_iff)
  then have "1 \<le> code_ref_count c" using code_okD(2) [OF ok c] by (simp add: word_le_nat_alt)
  moreover have c': "c' = c\<lparr>code_ref_count := code_ref_count c - 1\<rparr>"
    using row True by (auto simp: drop_reference_def split: if_splits)
  ultimately have "unat (code_ref_count c') = card (code_users E m k) - 1"
    using code_okD(2) [OF ok c] by (simp add: unat_sub)
  also have "\<dots> = card (code_users E (m(acc := y)) k)" using mem y by (simp add: code_users_upd)
  finally show ?thesis using True c by (simp add: c')
next
  case False
  then have "code_users E (m(acc := y)) j = code_users E m j" using acc y by (auto simp: code_users_def)
  with False row show ?thesis using code_okD(2) [OF ok] by simp
qed

lemma drop_reference_ok:
  assumes ok: "code_ok E m codes" and c: "codes k = Some c" and acc: "\<And>j. uses_code E (m acc) j \<longleftrightarrow> j = k"
    and y: "\<And>j. \<not> uses_code E y j"
  shows "code_ok E (m(acc := y)) (drop_reference k c codes)"
proof (rule code_okI)
  show "\<exists>c'. drop_reference k c codes j = Some c'" if "uses_code E ((m(acc := y)) a) j" for a j
  proof -
    have a: "a \<noteq> acc" "uses_code E (m a) j" using that y by (auto split: if_splits)
    then obtain d where d: "codes j = Some d" using code_okD(1) [OF ok] by blast
    with drop_reference_kept [OF ok c _ d a(2,1)] acc show ?thesis by blast
  qed
qed (use drop_reference_row [OF ok c acc y] code_okD(3,4) [OF ok] in \<open>metis\<close>)+

lemma release_code_ok:
  assumes ok: "code_ok E m codes" and x: "m acc = Some x" and run: "release_code E h x codes = Inr (old, codes')"
    and y: "\<And>k. \<not> uses_code E y k"
  shows "code_ok E (m(acc := y)) codes' \<and> old = code_footprint E codes (m acc) \<and> 0 \<le> old \<and> old < 2 ^ 36
    \<and> (\<forall>b. b \<noteq> acc \<longrightarrow> code_footprint E codes' (m b) = code_footprint E codes (m b))"
proof (cases "code_hash x = no_code E")
  case True
  then have no: "\<not> uses_code E (m acc) k" for k by (simp add: uses_code_def x)
  moreover have "codes' = codes" "old = 0" using True run by (auto simp: release_code_def)
  ultimately show ?thesis using detach_unused [OF ok no y] by (simp add: code_footprint_uses(2))
next
  case False
  let ?k = "code_key_of x"
  from False run obtain c where c: "codes ?k = Some c" and old: "old = int (length (code c)) * 10"
    and codes': "codes' = drop_reference ?k c codes"
    by (auto simp: release_code_def drop_reference_def)
  have use: "uses_code E (m acc) k \<longleftrightarrow> k = ?k" for k using False by (auto simp: uses_code_def x)
  have "code_ok E (m(acc := y)) codes'" unfolding codes' by (rule drop_reference_ok [OF ok c use y])
  moreover have "old = code_footprint E codes (m acc)" using use c by (simp add: code_footprint_uses(1) [of E _ ?k] old)
  moreover have "code_footprint E codes' (m b) = code_footprint E codes (m b)" if "b \<noteq> acc" for b
    unfolding codes' using drop_reference_kept [OF ok c] use that by (intro same_bytes [OF _ ok]) blast
  ultimately show ?thesis using code_okD(4) [OF ok c] by (simp add: old)
qed

lemma acquire_count:
  assumes "0 \<notin> dom m" and "acc \<noteq> 0" and "\<not> uses_code E (m acc) k"
  shows "card (code_users E m k) + 1 < 2 ^ 64"
proof -
  have "code_users E m k \<subseteq> UNIV - {0, acc}" using assms by (auto simp: code_users_def uses_code_def dom_def)
  then have "card (code_users E m k) \<le> card (UNIV - {0, acc})" by (intro card_mono) simp_all
  also have "\<dots> = 2 ^ 64 - 2" using assms(2) by (simp add: card_Diff_subset card_word)
  finally show ?thesis by simp
qed

lemma acquire_code_ok:
  assumes ok: "code_ok E m codes" and no: "\<And>k. \<not> uses_code E (m acc) k" and z: "\<And>j. uses_code E z j \<longleftrightarrow> j = k"
    and hash: "hash_ok E" "ck_hash k = sha256 E bytes" and "length bytes < 2 ^ 32" and names: "0 \<notin> dom m" "acc \<noteq> 0"
  shows "code_ok E (m(acc := z)) (acquire_code E k bytes codes)
    \<and> code_footprint E (acquire_code E k bytes codes) z = 10 * int (length bytes)
    \<and> (\<forall>b. b \<noteq> acc \<longrightarrow> code_footprint E (acquire_code E k bytes codes) (m b) = code_footprint E codes (m b))"
proof -
  let ?codes' = "acquire_code E k bytes codes"
  have users: "code_users E (m(acc := z)) j = (if j = k then insert acc (code_users E m j) else code_users E m j)" for j
    using no z by (auto simp: code_users_def)
  have fresh: "acc \<notin> code_users E m k" using no by (simp add: code_users_def)
  have other: "?codes' j = codes j" if "j \<noteq> k" for j using that by (auto simp: acquire_code_def split: option.splits)
  obtain c' where c': "?codes' k = Some c'" "code c' = bytes" "unat (code_ref_count c') = card (code_users E m k) + 1"
  proof (cases "codes k")
    case None
    then have "code_users E m k = {}" using code_okD(1) [OF ok] by (fastforce simp: code_users_def)
    then show ?thesis using None that by (auto simp: acquire_code_def)
  next
    case (Some c)
    have "code c = bytes" using code_okD(3) [OF ok Some] hash by (auto simp: hash_ok_def)
    moreover have "unat (code_ref_count c + 1) = card (code_users E m k) + 1"
      using acquire_count [OF names no, of k] code_okD(2) [OF ok Some] by (subst unat_add_exact) simp_all
    ultimately show ?thesis using Some that by (auto simp: acquire_code_def)
  qed
  have "code_ok E (m(acc := z)) ?codes'"
  proof (rule code_okI)
    show "\<exists>c. ?codes' j = Some c" if "uses_code E ((m(acc := z)) a) j" for a j
      using that c'(1) z other code_okD(1) [OF ok] by (cases "j = k") (auto split: if_splits)
    show "unat (code_ref_count c) = card (code_users E (m(acc := z)) j)" if "?codes' j = Some c" for j c
      using that c' fresh other code_okD(2) [OF ok] by (cases "j = k") (auto simp: users)
    show "sha256 E (code c) = ck_hash j" "length (code c) < 2 ^ 32" if "?codes' j = Some c" for j c
      using that c' hash(2) assms(6) other code_okD(3,4) [OF ok] by (cases "j = k"; auto)+
  qed
  moreover have "code_footprint E ?codes' z = 10 * int (length bytes)"
    using z c' by (simp add: code_footprint_uses(1) [of E _ k])
  moreover have "code_footprint E ?codes' (m b) = code_footprint E codes (m b)" for b
  proof (rule same_bytes [OF _ ok])
    show "\<exists>c''. ?codes' j = Some c'' \<and> code c'' = code c" if "codes j = Some c" "uses_code E (m b) j" for j c
      using that other by (cases "j = k") (auto simp: acquire_code_def)
  qed
  ultimately show ?thesis by blast
qed

section \<open>The invariant of the system state\<close>

text \<open>Every account has its owner permission at the root and its active permission below it.\<close>

definition has_basic :: "'k auth_db \<Rightarrow> name \<Rightarrow> bool" where
  "has_basic db a \<longleftrightarrow> (\<exists>i p j q. permissions db i = Some p \<and> perm_owner p = a \<and> perm_name p = owner_name \<and> parent p = 0
     \<and> permissions db j = Some q \<and> perm_owner q = a \<and> perm_name q = active_name \<and> parent q = i)"

definition perms_ok :: "('k, 'h) apply_env \<Rightarrow> name set \<Rightarrow> 'k auth_db \<Rightarrow> bool" where
  "perms_ok E as db \<longleftrightarrow> auth_ok db \<and> (\<forall>i p. permissions db i = Some p \<longrightarrow> small_auth E (perm_auth p))
     \<and> (\<forall>a \<in> as. has_basic db a) \<and> distinct (map fst (permission_links db))"

definition accounts_ok :: "('k, 'h) chain_state \<Rightarrow> bool" where
  "accounts_ok s \<longleftrightarrow> dom (metadata s) = dom (account_objects s) \<and> 0 \<notin> dom (account_objects s)
     \<and> (\<forall>a ao. account_objects s a = Some ao \<longrightarrow> length (abi ao) < 2 ^ 32)"

definition deferred_ok :: "(trx_id \<times> 'k generated_transaction) list \<Rightarrow> bool" where
  "deferred_ok ds \<longleftrightarrow> distinct (map fst ds) \<and> (\<forall>(t, g) \<in> set ds. gt_packed_size g < 2 ^ 32)"

definition native_ok :: "('k, 'h) apply_env \<Rightarrow> ('k, 'h) chain_state \<Rightarrow> bool" where
  "native_ok E s \<longleftrightarrow> perms_ok E (dom (account_objects s)) (auth s) \<and> accounts_ok s
     \<and> code_ok E (metadata s) (code_objects s) \<and> deferred_ok (deferred s)"

lemma perms_okD:
  assumes "perms_ok E as db"
  shows "auth_ok db" and "permissions db i = Some p \<Longrightarrow> small_auth E (perm_auth p)"
    and "a \<in> as \<Longrightarrow> has_basic db a" and "distinct (map fst (permission_links db))"
  using assms by (auto simp: perms_ok_def)

lemma has_basic_keep:
  assumes "has_basic db a"
    and "\<And>i p. permissions db i = Some p \<Longrightarrow> perm_name p = owner_name \<or> perm_name p = active_name \<Longrightarrow>
      \<exists>p'. permissions db' i = Some p' \<and> perm_owner p' = perm_owner p \<and> perm_name p' = perm_name p \<and> parent p' = parent p"
  shows "has_basic db' a"
proof -
  from assms(1) obtain i p j q where p: "permissions db i = Some p" "perm_owner p = a" "perm_name p = owner_name" "parent p = 0"
    and q: "permissions db j = Some q" "perm_owner q = a" "perm_name q = active_name" "parent q = i"
    by (auto simp: has_basic_def)
  from assms(2) [OF p(1)] assms(2) [OF q(1)] p q show ?thesis unfolding has_basic_def by metis
qed

lemma finite_permissions: "auth_ok db \<Longrightarrow> finite (dom (permissions db))"
  by (rule finite_subset [of _ "{..<next_permission_id db}"]) (auto dest: auth_okD(2))

lemma fresh_permission: "auth_ok db \<Longrightarrow> permissions db (next_permission_id db) = None"
  by (metis auth_okD(2) less_irrefl not_None_eq)

lemma create_permission_facts:
  assumes run: "create_permission C a n par au t db = Inr ((i, p), db')" and ok: "perms_ok E as db"
    and "a \<noteq> 0" and "n \<noteq> 0" and par: "par \<noteq> 0 \<Longrightarrow> \<exists>q. permissions db par = Some q \<and> perm_owner q = a" and "small_auth E au"
  shows "perms_ok E as db'"
    and "permission_footprint E db' b = permission_footprint E db b + (if b = a then permission_size E au else 0)"
    and "permission_links db' = permission_links db"
proof -
  note c = create_permission_Inr [OF run]
  have new: "permissions db i = None" using fresh_permission [OF perms_okD(1) [OF ok]] by (simp add: c(1))
  have "auth_ok db'" by (rule create_permission_ok [OF run perms_okD(1) [OF ok] assms(3,4) par])
  moreover have "small_auth E (perm_auth q)" if "permissions db' j = Some q" for j q
    using that perms_okD(2) [OF ok] assms(6) c(6) by (auto simp: c(8) split: if_splits)
  moreover have "has_basic db' x" if "x \<in> as" for x
    by (rule has_basic_keep [OF perms_okD(3) [OF ok that]]) (use new in \<open>auto simp: c(8)\<close>)
  ultimately show "perms_ok E as db'" using perms_okD(4) [OF ok] by (simp add: perms_ok_def c(12))
  show "permission_footprint E db' b = permission_footprint E db b + (if b = a then permission_size E au else 0)"
    using new by (simp add: permission_footprint_def c(3,6,8) table_sum_upd finite_permissions perms_okD(1) [OF ok])
  show "permission_links db' = permission_links db" by (rule c(12))
qed

lemma modify_permission_facts:
  assumes p: "permissions db i = Some p" "i \<noteq> 0" and ok: "perms_ok E as db" and "small_auth E a"
  shows "perms_ok E as (modify_permission C (i, p) a db)"
    and "permission_footprint E (modify_permission C (i, p) a db) b =
      permission_footprint E db b + (if b = perm_owner p then permission_size E a - permission_size E (perm_auth p) else 0)"
    and "permission_links (modify_permission C (i, p) a db) = permission_links db"
proof -
  have "has_basic (modify_permission C (i, p) a db) x" if "x \<in> as" for x
    by (rule has_basic_keep [OF perms_okD(3) [OF ok that]]) (use p in \<open>auto simp: modify_permission_def\<close>)
  moreover have "small_auth E (perm_auth q)" if "permissions (modify_permission C (i, p) a db) j = Some q" for j q
    using that perms_okD(2) [OF ok] assms(4) by (auto simp: modify_permission_def split: if_splits)
  ultimately show "perms_ok E as (modify_permission C (i, p) a db)"
    using perms_okD(4) [OF ok] modify_permission_ok [OF perms_okD(1) [OF ok] p, of C a]
    by (simp add: perms_ok_def modify_permission_def)
  show "permission_footprint E (modify_permission C (i, p) a db) b =
      permission_footprint E db b + (if b = perm_owner p then permission_size E a - permission_size E (perm_auth p) else 0)"
    using p(1) by (simp add: permission_footprint_def modify_permission_def table_sum_upd finite_permissions perms_okD(1) [OF ok])
qed (simp add: modify_permission_def)

lemma remove_permission_facts:
  assumes run: "remove_permission (i, p) db = Inr db'" and p: "permissions db i = Some p" "i \<noteq> 0" and ok: "perms_ok E as db"
    and "perm_name p \<noteq> owner_name" and "perm_name p \<noteq> active_name"
  shows "perms_ok E as db'"
    and "permission_footprint E db' b = permission_footprint E db b + (if b = perm_owner p then - permission_size E (perm_auth p) else 0)"
    and "permission_links db' = permission_links db"
proof -
  note r = remove_permission_Inr [OF run]
  have "has_basic db' x" if "x \<in> as" for x
    by (rule has_basic_keep [OF perms_okD(3) [OF ok that]]) (use p assms(5,6) in \<open>auto simp: r(2)\<close>)
  moreover have "small_auth E (perm_auth q)" if "permissions db' j = Some q" for j q
    using that perms_okD(2) [OF ok] by (auto simp: r(2) split: if_splits)
  ultimately show "perms_ok E as db'"
    using perms_okD(4) [OF ok] remove_permission_ok [OF run perms_okD(1) [OF ok] p] by (simp add: perms_ok_def r(6))
  show "permission_footprint E db' b = permission_footprint E db b + (if b = perm_owner p then - permission_size E (perm_auth p) else 0)"
    using p(1) by (simp add: permission_footprint_def r(2) table_sum_erase finite_permissions perms_okD(1) [OF ok])
qed (rule remove_permission_Inr(6) [OF run])

section \<open>The handlers keep the invariant and conserve RAM\<close>

definition sound_step :: "('k, 'h) apply_env \<Rightarrow> ('k, 'h) chain_state \<Rightarrow> ('k, 'h) chain_state \<Rightarrow> bool" where
  "sound_step E s s' \<longleftrightarrow> native_ok E s' \<and> conserved E s s'"

lemma native_ok_ram [simp]: "native_ok E (s\<lparr>resources := r, validate_ram_usage := v\<rparr>) = native_ok E s"
  by (simp add: native_ok_def accounts_ok_def)

lemma charge_sound:
  assumes "add_ram_usage acc d t = Inr s'" and "- (2 ^ 63) < d" and "d < 2 ^ 63" and "native_ok E t"
    and "\<And>a. ram_of t a = ram_of s a"
    and "\<And>a. footprint E t a = footprint E s a + (if a = acc then d else 0)"
  shows "sound_step E s s'"
proof -
  obtain r v where "s' = t\<lparr>resources := r, validate_ram_usage := v\<rparr>"
    using add_ram_usage_Inr(1) [OF assms(1,2,3)] by blast
  with assms(4) charge_conserved [OF assms(1,2,3,5,6)] show ?thesis by (simp add: sound_step_def)
qed

lemma charge_if_sound:
  assumes "(if d \<noteq> e then add_ram_usage acc (d - e) t else Inr t) = Inr s'" and "- (2 ^ 63) < d - e" and "d - e < 2 ^ 63"
    and "native_ok E t" and "\<And>a. ram_of t a = ram_of s a"
    and "\<And>a. footprint E t a = footprint E s a + (if a = acc then d - e else 0)"
  shows "sound_step E s s'"
proof (cases "d = e")
  case True
  with assms show ?thesis by (simp add: sound_step_def conserved_def)
next
  case False
  with assms(1) have "add_ram_usage acc (d - e) t = Inr s'" by simp
  then show ?thesis using assms(2-6) by (rule charge_sound)
qed

lemma setabi_sound:
  assumes "apply_eosio_setabi auths d s = Inr s'" and ok: "native_ok E s" and "length (sa_abi d) < 2 ^ 32"
  shows "sound_step E s s'"
proof -
  let ?a = "sa_account d"
  from assms(1) obtain ao m where ao: "account_objects s ?a = Some ao" and m: "metadata s ?a = Some m"
    and run: "(if int (length (sa_abi d)) \<noteq> int (length (abi ao))
      then add_ram_usage ?a (int (length (sa_abi d)) - int (length (abi ao)))
        (s\<lparr>account_objects := (account_objects s)(?a \<mapsto> ao\<lparr>abi := sa_abi d\<rparr>),
           metadata := (metadata s)(?a \<mapsto> m\<lparr>abi_sequence := abi_sequence m + 1\<rparr>)\<rparr>)
      else Inr (s\<lparr>account_objects := (account_objects s)(?a \<mapsto> ao\<lparr>abi := sa_abi d\<rparr>),
           metadata := (metadata s)(?a \<mapsto> m\<lparr>abi_sequence := abi_sequence m + 1\<rparr>)\<rparr>)) = Inr s'"
    by (auto simp: apply_eosio_setabi_def Let_def)
  let ?m = "(metadata s)(?a \<mapsto> m\<lparr>abi_sequence := abi_sequence m + 1\<rparr>)"
  have small: "length (abi ao) < 2 ^ 32" using ok ao by (auto simp: native_ok_def accounts_ok_def)
  have use: "uses_code E (?m b) k \<longleftrightarrow> uses_code E (metadata s b) k" for b k
    using m by (simp add: uses_code_def code_key_of_def)
  have cf: "code_footprint E c (?m b) = code_footprint E c (metadata s b)" for c b
    using m by (simp add: code_footprint_def code_key_of_def)
  have "code_ok E ?m (code_objects s)"
    using ok code_ok_cong [of E ?m "metadata s" "code_objects s"] use by (simp add: native_ok_def del: fun_upd_apply)
  moreover have "dom ?m = dom (account_objects s)" using ok ao by (auto simp: native_ok_def accounts_ok_def)
  moreover have "insert ?a (dom (account_objects s)) = dom (account_objects s)" using ao by auto
  ultimately have ok': "native_ok E (s\<lparr>account_objects := (account_objects s)(?a \<mapsto> ao\<lparr>abi := sa_abi d\<rparr>), metadata := ?m\<rparr>)"
    using ok assms(3) by (auto simp: native_ok_def accounts_ok_def split: if_splits)
  show ?thesis
    by (rule charge_if_sound [OF run _ _ ok']) (use small assms(3) ao cf in \<open>auto simp: ram_of_def footprint_def account_footprint_def\<close>)
qed

lemma setcode_sound:
  assumes "apply_eosio_setcode E auths d s = Inr s'" and ok: "native_ok E s" and "length (sc_code d) < 2 ^ 32" and "hash_ok E"
  shows "sound_step E s s'"
proof -
  let ?a = "sc_account d" and ?n = "int (length (sc_code d))"
  let ?h = "if ?n > 0 then sha256 E (sc_code d) else no_code E"
  let ?k = "Code_Key ?h (sc_vmtype d) (sc_vmversion d)"
  from assms(1) obtain m old codes where m: "metadata s ?a = Some m"
    and rel: "release_code E ?h m (code_objects s) = Inr (old, codes)"
    and run: "store_code E d ?h m old codes s = Inr s'"
    by (auto simp: apply_eosio_setcode_def Let_def) blast
  define x where "x = m\<lparr>code_sequence := code_sequence m + 1, code_hash := ?h, vm_type := sc_vmtype d,
      vm_version := sc_vmversion d, last_code_update := pending_block_time (control E)\<rparr>"
  define codes' where "codes' = (if ?n > 0 then acquire_code E ?k (sc_code d) codes else codes)"
  let ?t = "s\<lparr>code_objects := codes', metadata := (metadata s)(?a \<mapsto> x)\<rparr>"
  have c: "code_ok E (metadata s) (code_objects s)" and names: "0 \<notin> dom (metadata s)"
    using ok by (auto simp: native_ok_def accounts_ok_def)
  note r = release_code_ok [OF c m rel, of None, simplified uses_code_def option.distinct simp_thms]
  have a: "?a \<noteq> 0" using m names by auto
  have all: "code_ok E ((metadata s)(?a \<mapsto> x)) codes' \<and> code_footprint E codes' (Some x) = ?n * 10
      \<and> (\<forall>b. b \<noteq> ?a \<longrightarrow> code_footprint E codes' (metadata s b) = code_footprint E (code_objects s) (metadata s b))"
  proof (cases "?n > 0")
    case True
    then have use: "uses_code E (Some x) j \<longleftrightarrow> j = ?k" for j
      using assms(4) by (auto simp: uses_code_def x_def code_key_of_def hash_ok_def)
    have "uses_code E (((metadata s)(?a := None)) ?a) k = False" for k by (simp add: uses_code_def)
    then show ?thesis
      using acquire_code_ok [of E "(metadata s)(?a := None)" codes ?a "Some x" ?k "sc_code d"] r use assms(3,4) True names a
      by (simp add: codes'_def)
  next
    case False
    then have no: "\<not> uses_code E (Some x) k" for k by (simp add: uses_code_def x_def)
    with release_code_ok [OF c m rel, of "Some x"] False show ?thesis
      by (simp add: codes'_def code_footprint_uses(2))
  qed
  moreover have "insert ?a (dom (metadata s)) = dom (metadata s)" using m by auto
  ultimately have "native_ok E ?t" using ok by (simp add: native_ok_def accounts_ok_def)
  moreover have "footprint E ?t b = footprint E s b + (if b = ?a then ?n * 10 - old else 0)" for b
    using all r by (cases "b = ?a") (simp_all add: footprint_def)
  moreover have "- (2 ^ 63) < ?n * 10 - old" "?n * 10 - old < 2 ^ 63" using r assms(3) by simp_all
  moreover have "(if ?n * 10 \<noteq> old then add_ram_usage ?a (?n * 10 - old) ?t else Inr ?t) = Inr s'"
    using run unfolding store_code_def Let_def codes'_def x_def .
  ultimately show ?thesis by (intro charge_if_sound [where t = ?t and acc = ?a]) (simp_all add: ram_of_def)
qed

lemma native_ok_auth:
  assumes "native_ok E s" and "perms_ok E (dom (account_objects s)) db"
  shows "native_ok E (s\<lparr>auth := db\<rparr>)"
  using assms by (simp add: native_ok_def accounts_ok_def)

lemma footprint_auth:
  assumes "permission_footprint E db a = permission_footprint E (auth s) a + d"
    and "permission_links db = permission_links (auth s)"
  shows "footprint E (s\<lparr>auth := db\<rparr>) a = footprint E s a + d"
  using assms by (simp add: footprint_def)

lemma native_okD:
  assumes "native_ok E s"
  shows "perms_ok E (dom (account_objects s)) (auth s)" and "0 \<notin> dom (account_objects s)"
    and "dom (metadata s) = dom (account_objects s)"
  using assms by (simp_all add: native_ok_def accounts_ok_def)

lemma updateauth_sound:
  assumes "apply_eosio_updateauth E auths d s = Inr s'" and ok: "native_ok E s" and "small_keys E"
  shows "sound_step E s s'"
proof -
  let ?a = "ua_account d" and ?n = "ua_permission d" and ?as = "dom (account_objects s)"
  from assms(1) obtain found parent_id where a: "?a \<in> ?as" and n: "?n \<noteq> 0" and v: "validate (ua_auth d)"
    and found: "find_permission (Permission_Level ?a ?n) (auth s) = Inr found"
    and par: "(if ?n \<noteq> owner_name then bind_res (lift_error (Manager_Error \<circ> Permission_Error)
         (get_permission (Permission_Level ?a (ua_parent d)) (auth s))) (\<lambda>par. Inr (fst par)) else Inr 0) = Inr parent_id"
    and run: "(case found of
       Some perm \<Rightarrow>
         check (parent_id = parent (snd perm)) invalid_action
        (add_ram_usage (perm_owner (snd perm)) (permission_size E (ua_auth d) - permission_size E (perm_auth (snd perm)))
           (s\<lparr>auth := modify_permission (control E) perm (ua_auth d) (auth s)\<rparr>))
     | None \<Rightarrow>
         bind_res (lift_error Manager_Error
            (create_permission (control E) ?a ?n parent_id (ua_auth d) 0 (auth s))) (\<lambda>(p, db).
         add_ram_usage ?a (permission_size E (perm_auth (snd p))) (s\<lparr>auth := db\<rparr>))) = Inr s'"
    unfolding apply_eosio_updateauth_def Let_def by (elim bind_res_InrE check_InrE) auto
  note p = native_okD(1) [OF ok]
  have small: "small_auth E (ua_auth d)"
    using v assms(3) by (intro validate_small) (simp_all add: validate_def split: if_splits)
  note sz = permission_size_small [OF small]
  show ?thesis
  proof (cases found)
    case None
    from run None obtain i q db where c: "create_permission (control E) ?a ?n parent_id (ua_auth d) 0 (auth s) = Inr ((i, q), db)"
      and charge: "add_ram_usage ?a (permission_size E (perm_auth q)) (s\<lparr>auth := db\<rparr>) = Inr s'"
      by auto
    note q = create_permission_Inr(6) [OF c]
    have "\<exists>q. permissions (auth s) parent_id = Some q \<and> perm_owner q = ?a" if "parent_id \<noteq> 0"
      using par that get_permission_Inr [OF _ perms_okD(1) [OF p]] by (auto split: if_splits)
    moreover have "?a \<noteq> 0" using a native_okD(2) [OF ok] by auto
    ultimately have f: "perms_ok E ?as db" "permission_footprint E db b = permission_footprint E (auth s) b +
        (if b = ?a then permission_size E (ua_auth d) else 0)" "permission_links db = permission_links (auth s)" for b
      using create_permission_facts [OF c p _ n _ small] by blast+
    show ?thesis
      by (rule charge_sound [OF charge _ _ native_ok_auth [OF ok f(1)]])
        (use sz q footprint_auth [OF f(2,3)] in \<open>simp_all add: ram_of_def\<close>)
  next
    case (Some perm)
    obtain i q where perm: "perm = (i, q)" by (cases perm)
    from run have charge: "add_ram_usage (perm_owner q) (permission_size E (ua_auth d) - permission_size E (perm_auth q))
        (s\<lparr>auth := modify_permission (control E) (i, q) (ua_auth d) (auth s)\<rparr>) = Inr s'"
      by (auto simp: Some perm)
    from found have "get_permission (Permission_Level ?a ?n) (auth s) = Inr (i, q)"
      by (auto simp: find_permission_def get_permission_def Some perm)
    note g = get_permission_Inr [OF this perms_okD(1) [OF p]]
    note f = modify_permission_facts [OF g(1,4) p small, of "control E"]
    note sz' = permission_size_small [OF perms_okD(2) [OF p g(1)]]
    show ?thesis
      by (rule charge_sound [OF charge _ _ native_ok_auth [OF ok f(1)]])
        (use sz sz' footprint_auth [OF f(2,3)] in \<open>simp_all add: ram_of_def\<close>)
  qed
qed

lemma deleteauth_sound:
  assumes "apply_eosio_deleteauth E auths d s = Inr s'" and ok: "native_ok E s"
  shows "sound_step E s s'"
proof -
  let ?a = "da_account d"
  from assms(1) obtain i q db where g: "get_permission (Permission_Level ?a (da_permission d)) (auth s) = Inr (i, q)"
    and n: "da_permission d \<noteq> active_name" "da_permission d \<noteq> owner_name"
    and r: "remove_permission (i, q) (auth s) = Inr db"
    and charge: "add_ram_usage ?a (- permission_size E (perm_auth q)) (s\<lparr>auth := db\<rparr>) = Inr s'"
    by (auto simp: apply_eosio_deleteauth_def Let_def)
  note p = native_okD(1) [OF ok]
  note g = get_permission_Inr [OF g perms_okD(1) [OF p]]
  have f: "perms_ok E (dom (account_objects s)) db" "permission_footprint E db b = permission_footprint E (auth s) b +
      (if b = ?a then - permission_size E (perm_auth q) else 0)" "permission_links db = permission_links (auth s)" for b
    using remove_permission_facts [OF r g(1,4) p] g(2,3) n by simp_all
  show ?thesis
    by (rule charge_sound [OF charge _ _ native_ok_auth [OF ok f(1)]])
      (use permission_size_small [OF perms_okD(2) [OF p g(1)]] footprint_auth [OF f(2,3)] in \<open>simp_all add: ram_of_def\<close>)
qed

lemma perms_ok_links:
  "perms_ok E as db \<Longrightarrow> distinct (map fst l) \<Longrightarrow> perms_ok E as (db\<lparr>permission_links := l\<rparr>)"
  by (simp add: perms_ok_def has_basic_def)

lemma footprint_links:
  assumes "link_footprint l a = link_footprint (permission_links (auth s)) a + d"
  shows "footprint E (s\<lparr>auth := (auth s)\<lparr>permission_links := l\<rparr>\<rparr>) a = footprint E s a + d"
  using assms by (simp add: footprint_def permission_footprint_def)

lemma relabel:
  "map (fst \<circ> (\<lambda>(k, r). (k, f k r))) l = map fst l"
  "link_footprint (map (\<lambda>(k, r). (k, f k r)) l) a = link_footprint l a"
  by (induction l) (auto simp: link_footprint_def)

lemma linkauth_sound:
  assumes "apply_eosio_linkauth E auths d s = Inr s'" and ok: "native_ok E s"
  shows "sound_step E s s'"
proof -
  let ?k = "Link_Key (la_account d) (la_code d) (la_type d)" and ?l = "permission_links (auth s)"
  note p = native_okD(1) [OF ok]
  from assms(1) have run: "(case map_of ?l ?k of
       Some required \<Rightarrow> check (required \<noteq> la_requirement d) invalid_action
        (Inr (s\<lparr>auth := (auth s)\<lparr>permission_links := map (\<lambda>(k, r). (k, if k = ?k then la_requirement d else r)) ?l\<rparr>\<rparr>))
     | None \<Rightarrow> add_ram_usage (la_account d) (uint link_billable)
           (s\<lparr>auth := (auth s)\<lparr>permission_links := ?l @ [(?k, la_requirement d)]\<rparr>\<rparr>)) = Inr s'"
    by (auto simp: apply_eosio_linkauth_def Let_def)
  show ?thesis
  proof (cases "map_of ?l ?k")
    case None
    with run have charge: "add_ram_usage (la_account d) 144
        (s\<lparr>auth := (auth s)\<lparr>permission_links := ?l @ [(?k, la_requirement d)]\<rparr>\<rparr>) = Inr s'" by (simp add: billables)
    have "distinct (map fst (?l @ [(?k, la_requirement d)]))"
      using perms_okD(4) [OF p] None by (simp add: map_of_eq_None_iff)
    note ok' = native_ok_auth [OF ok perms_ok_links [OF p this]]
    show ?thesis
      by (rule charge_sound [OF charge _ _ ok']) (simp_all add: ram_of_def footprint_links link_footprint_def)
  next
    case (Some r)
    let ?l' = "map (\<lambda>(k, r). (k, if k = ?k then la_requirement d else r)) ?l"
    have s': "s' = s\<lparr>auth := (auth s)\<lparr>permission_links := ?l'\<rparr>\<rparr>" using run Some by auto
    show ?thesis
      using native_ok_auth [OF ok perms_ok_links [OF p, of ?l']] perms_okD(4) [OF p] footprint_links [of ?l' _ s 0 E]
      by (simp add: sound_step_def conserved_def s' relabel ram_of_def)
  qed
qed

lemma sum_filter_one:
  fixes f :: "'b \<Rightarrow> int"
  assumes "distinct (map fst xs)" and "(k, v) \<in> set xs"
  shows "(\<Sum>x \<leftarrow> filter (\<lambda>(j, w). j \<noteq> k) xs. case x of (j, w) \<Rightarrow> g j w) = (\<Sum>(j, w) \<leftarrow> xs. g j w) - (g k v :: int)"
  using assms
proof (induction xs)
  case (Cons x xs)
  obtain j w where x: "x = (j, w)" by (cases x)
  show ?case
  proof (cases "j = k")
    case True
    have "filter (\<lambda>(j, w). j \<noteq> k) xs = xs"
      using Cons.prems(1) True by (auto simp: x filter_id_conv image_def)
    moreover have "w = v" using Cons.prems True by (auto simp: x image_def)
    ultimately show ?thesis using True by (simp add: x)
  next
    case False
    with Cons show ?thesis by (simp add: x)
  qed
qed simp

lemma find_mem: "find P xs = Some x \<Longrightarrow> x \<in> set xs"
  by (induction xs) (auto split: if_splits)

lemma distinct_filter_keys: "distinct (map fst xs) \<Longrightarrow> distinct (map fst (filter P xs))"
  by (induction xs) auto

lemma unlinkauth_sound:
  assumes "apply_eosio_unlinkauth auths d s = Inr s'" and ok: "native_ok E s"
  shows "sound_step E s s'"
proof -
  let ?k = "Link_Key (ul_account d) (ul_code d) (ul_type d)" and ?l = "permission_links (auth s)"
  let ?l' = "filter (\<lambda>(k, r). k \<noteq> ?k) ?l"
  note p = native_okD(1) [OF ok]
  from assms(1) obtain r t where r: "map_of ?l ?k = Some r" and charge: "add_ram_usage (ul_account d) (- 144) s = Inr t"
    and s': "s' = t\<lparr>auth := (auth t)\<lparr>permission_links := filter (\<lambda>(k, r). k \<noteq> ?k) (permission_links (auth t))\<rparr>\<rparr>"
    by (auto simp: apply_eosio_unlinkauth_def Let_def billables)
  obtain res v where t: "t = s\<lparr>resources := res, validate_ram_usage := v\<rparr>"
    and ram: "\<And>a. ram_of t a = ram_of s a + (if a = ul_account d then - 144 else 0)"
    using add_ram_usage_Inr [OF charge] by auto
  have "link_footprint ?l' a = link_footprint ?l a + (if a = ul_account d then - 144 else 0)" for a
    using sum_filter_one [OF perms_okD(4) [OF p] map_of_SomeD [OF r], of "\<lambda>k r. if link_account k = a then 144 else 0"]
    by (simp add: link_footprint_def)
  then have "footprint E s' a = footprint E s a + (if a = ul_account d then - 144 else 0)" for a
    by (simp add: s' t footprint_def permission_footprint_def)
  moreover have "native_ok E s'"
    using native_ok_auth [OF ok perms_ok_links [OF p distinct_filter_keys [OF perms_okD(4) [OF p]]]]
    by (simp add: s' t native_ok_def accounts_ok_def)
  moreover have "ram_of s' a = ram_of t a" for a by (simp add: s' ram_of_def)
  ultimately show ?thesis using ram by (simp add: sound_step_def conserved_def)
qed

lemma canceldelay_sound:
  assumes "apply_eosio_canceldelay auths d s = Inr s'" and ok: "native_ok E s"
  shows "sound_step E s s'"
proof -
  let ?id = "transaction_id_to_sender_id (cd_trx_id d)"
  let ?P = "\<lambda>(t, g). gt_sender g = 0 \<and> gt_sender_id g = ?id"
  have def_ok: "distinct (map fst (deferred s))" "\<forall>(t, g) \<in> set (deferred s). gt_packed_size g < 2 ^ 32"
    using ok by (simp_all add: native_ok_def deferred_ok_def)
  show ?thesis
  proof (cases "find ?P (deferred s)")
    case None
    with assms(1) have "s' = s" by (auto simp: apply_eosio_canceldelay_def cancel_deferred_transaction_def)
    with ok show ?thesis by (simp add: sound_step_def conserved_def)
  next
    case (Some tg)
    obtain t g where tg: "tg = (t, g)" by (cases tg)
    have mem: "(t, g) \<in> set (deferred s)" using find_mem [OF Some] tg by simp
    from assms(1) obtain u where charge: "add_ram_usage (gt_payer g) (- deferred_size g) s = Inr u"
      and s': "s' = u\<lparr>deferred := filter (\<lambda>(j, h). j \<noteq> t) (deferred u)\<rparr>"
      by (auto simp: apply_eosio_canceldelay_def cancel_deferred_transaction_def Some tg)
    have sz: "deferred_size g = 272 + int (gt_packed_size g)" "gt_packed_size g < 2 ^ 32"
      using mem def_ok(2) deferred_size_small by auto
    obtain res v where u: "u = s\<lparr>resources := res, validate_ram_usage := v\<rparr>"
      and ram: "\<And>a. ram_of u a = ram_of s a + (if a = gt_payer g then - deferred_size g else 0)"
      using add_ram_usage_Inr [OF charge] sz by auto
    have "deferred_footprint (deferred s') a = deferred_footprint (deferred s) a + (if a = gt_payer g then - deferred_size g else 0)" for a
      using sum_filter_one [OF def_ok(1) mem, of "\<lambda>t g. if gt_payer g = a then deferred_size g else 0"]
      by (simp add: deferred_footprint_def s' u)
    then have "footprint E s' a = footprint E s a + (if a = gt_payer g then - deferred_size g else 0)" for a
      by (simp add: footprint_def) (simp add: s' u)
    moreover have "native_ok E s'"
      using ok distinct_filter_keys [OF def_ok(1)] by (auto simp: s' u native_ok_def accounts_ok_def deferred_ok_def)
    moreover have "ram_of s' a = ram_of u a" for a by (simp add: s' ram_of_def)
    ultimately show ?thesis using ram by (simp add: sound_step_def conserved_def)
  qed
qed

lemma schedule_sound:
  assumes "schedule_transaction E tid delay acts n s = Inr s'" and ok: "native_ok E s" and "n < 2 ^ 32"
  shows "sound_step E s s'"
proof -
  define g where "g = \<lparr>gt_sender = 0, gt_sender_id = transaction_id_to_sender_id tid, gt_payer = first_authorizer acts,
      gt_delay_until = pending_block_time (control E) + delay, gt_published = pending_block_time (control E),
      gt_packed_size = n, gt_actions = acts\<rparr>"
  have g: "gt_packed_size g = n" by (simp add: g_def)
  from assms(1) have new: "\<not> list_ex (\<lambda>(t, h). t = tid \<or> gt_sender h = 0 \<and> gt_sender_id h = gt_sender_id g) (deferred s)"
    and charge: "add_ram_usage (gt_payer g) (deferred_size g) (s\<lparr>deferred := deferred s @ [(tid, g)]\<rparr>) = Inr s'"
    unfolding schedule_transaction_def Let_def g_def by auto
  have "tid \<notin> fst ` set (deferred s)" using new by (auto simp: list_ex_iff)
  then have ok': "native_ok E (s\<lparr>deferred := deferred s @ [(tid, g)]\<rparr>)"
    using ok g assms(3) by (auto simp: native_ok_def accounts_ok_def deferred_ok_def)
  have "deferred_size g = 272 + int n" using deferred_size_small [of g] g assms(3) by simp
  with assms(3) show ?thesis
    by (intro charge_sound [OF charge _ _ ok']) (simp_all add: ram_of_def footprint_def deferred_footprint_def)
qed

lemma create_account_permissions_facts:
  assumes "create_account_permissions E nm own act time s = Inr u" and p: "perms_ok E as (auth s)" and "nm \<noteq> 0"
    and "small_auth E own" and "small_auth E act"
  shows "\<exists>db r. u = s\<lparr>auth := db, resources := r\<rparr> \<and> perms_ok E (insert nm as) db
    \<and> permission_links db = permission_links (auth s)
    \<and> (\<forall>b. permission_footprint E db b = permission_footprint E (auth s) b +
         (if b = nm then permission_size E own + permission_size E act else 0))
    \<and> (\<forall>b. ram_of u b = ram_of s b)"
proof -
  from assms(1) obtain i p1 db1 j p2 db2 r where
    1: "create_permission (control E) nm owner_name 0 own time (auth s) = Inr ((i, p1), db1)"
    and 2: "create_permission (control E) nm active_name i act time db1 = Inr ((j, p2), db2)"
    and 3: "initialize_account nm (resources s) = Inr r" and u: "u = s\<lparr>auth := db2, resources := r\<rparr>"
    by (auto simp: create_account_permissions_def)
  note c1 = create_permission_Inr [OF 1] and c2 = create_permission_Inr [OF 2]
  have names: "owner_name \<noteq> 0" "active_name \<noteq> 0" by (simp_all add: system_names)
  note f1 = create_permission_facts [OF 1 p assms(3) names(1) _ assms(4), simplified]
  have "\<exists>q. permissions db1 i = Some q \<and> perm_owner q = nm" using c1(3,8) by simp
  note f2 = create_permission_facts [OF 2 f1(1) assms(3) names(2) this assms(5)]
  have "i \<noteq> j" using c1(1,9) c2(1) by simp
  then have "has_basic db2 nm"
    unfolding has_basic_def using c1(3,4,5,8) c2(3,4,5,8)
    by (intro exI [of _ i] exI [of _ p1] exI [of _ j] exI [of _ p2]) simp
  with f2(1) have "perms_ok E (insert nm as) db2" by (simp add: perms_ok_def)
  moreover have "ram_of u b = ram_of s b" for b
    using 3 by (auto simp: u ram_of_def initialize_account_def)
  ultimately show ?thesis using u f1(2,3) f2(2,3) by (intro exI [of _ db2] exI [of _ r]) simp
qed

text \<open>The rows of a new account, before it is charged.\<close>

lemma new_account_rows:
  assumes "create_account_permissions E nm own act time
      (s\<lparr>account_objects := (account_objects s)(nm \<mapsto> ao), metadata := (metadata s)(nm \<mapsto> new_metadata (no_code E) b)\<rparr>) = Inr u"
    and ok: "native_ok E s" and "nm \<noteq> 0" and "account_objects s nm = None" and "length (abi ao) < 2 ^ 32"
    and small: "small_auth E own" "small_auth E act"
  shows "native_ok E u" and "ram_of u a = ram_of s a"
    and "footprint E u a = footprint E s a + (if a = nm then new_account_ram E own act + int (length (abi ao)) else 0)"
proof -
  let ?m = "(metadata s)(nm \<mapsto> new_metadata (no_code E) b)"
  let ?t = "s\<lparr>account_objects := (account_objects s)(nm \<mapsto> ao), metadata := ?m\<rparr>"
  have "perms_ok E (dom (account_objects s)) (auth ?t)" using native_okD(1) [OF ok] by simp
  from create_account_permissions_facts [OF assms(1) this assms(3) small] obtain db r where
    u: "u = ?t\<lparr>auth := db, resources := r\<rparr>" and db: "perms_ok E (insert nm (dom (account_objects s))) db"
      "permission_links db = permission_links (auth s)"
      "\<And>b. permission_footprint E db b = permission_footprint E (auth s) b +
         (if b = nm then permission_size E own + permission_size E act else 0)"
      "\<And>b. ram_of u b = ram_of ?t b"
    by auto
  have none: "metadata s nm = None" using assms(4) native_okD(3) [OF ok] by blast
  have unused: "\<not> uses_code E (Some (new_metadata (no_code E) b)) k" "\<not> uses_code E (metadata s nm) k" for k
    by (simp_all add: uses_code_def new_metadata_def none)
  have "code_ok E ?m (code_objects s)"
    using detach_unused [where m = "metadata s" and acc = nm, OF _ unused(2,1)] ok by (simp add: native_ok_def)
  with ok db(1) assms(3,5) show "native_ok E u" by (auto simp: u native_ok_def accounts_ok_def split: if_splits)
  show "ram_of u a = ram_of s a" using db(4) by (simp add: ram_of_def)
  have "code_footprint E (code_objects s) (Some (new_metadata (no_code E) b)) = code_footprint E (code_objects s) (metadata s nm)"
    using unused by (simp add: code_footprint_uses(2))
  then show "footprint E u a = footprint E s a + (if a = nm then new_account_ram E own act + int (length (abi ao)) else 0)"
    using permission_size_small(1) [OF small(1)] permission_size_small(1) [OF small(2)] assms(4)
    by (simp add: u footprint_def db account_footprint_def new_account_ram_def billables)
qed

lemma newaccount_sound:
  assumes "apply_eosio_newaccount E auths d s = Inr s'" and ok: "native_ok E s" and "small_keys E"
  shows "sound_step E s s'"
proof -
  let ?n = "na_name d" and ?ao = "\<lparr>creation_date = pending_block_time (control E), abi = []\<rparr>"
  let ?t = "s\<lparr>account_objects := (account_objects s)(?n \<mapsto> ?ao), metadata := (metadata s)(?n \<mapsto> new_metadata (no_code E) False)\<rparr>"
  from assms(1) obtain u where v: "validate (na_owner d)" "validate (na_active d)" and n: "?n \<noteq> 0" "account_objects s ?n = None"
    and c: "create_account_permissions E ?n (na_owner d) (na_active d) 0 ?t = Inr u"
    and charge: "add_ram_usage ?n (new_account_ram E (na_owner d) (na_active d)) u = Inr s'"
    by (auto simp: apply_eosio_newaccount_def Let_def)
  have small: "small_auth E (na_owner d)" "small_auth E (na_active d)"
    using v assms(3) by (auto intro!: validate_small simp: validate_def split: if_splits)
  note rows = new_account_rows [OF c ok n, simplified, OF small]
  show ?thesis
    by (rule charge_sound [OF charge _ _ rows(1)])
      (use rows(2,3) permission_size_small [OF small(1)] permission_size_small [OF small(2)] in
        \<open>simp_all add: new_account_ram_def billables\<close>)
qed

text \<open>
  The sizes a transaction can bring are limited; the model takes any bound below 32 bits.
\<close>

definition well_sized :: "'k action \<Rightarrow> bool" where
  "well_sized act \<longleftrightarrow>
     (case act_data act of
        Setcode_Data d \<Rightarrow> length (sc_code d) < 2 ^ 32
      | Setabi_Data d \<Rightarrow> length (sa_abi d) < 2 ^ 32
      | _ \<Rightarrow> True)"

lemma data_as_Inr: "data_as nm unpack act = Inr d \<Longrightarrow> unpack (act_data act) = Some d"
  by (auto simp: data_as_def split: option.splits)

lemma unpack_Some:
  "unpack_setcode x = Some d \<Longrightarrow> x = Setcode_Data d"
  "unpack_setabi x = Some e \<Longrightarrow> x = Setabi_Data e"
  by (cases x; simp)+

lemma apply_native_sound:
  assumes "apply_native E act s = Inr s'" and ok: "native_ok E s" and "well_sized act" and "small_keys E" and "hash_ok E"
  shows "sound_step E s s'"
proof -
  have same: "sound_step E s s" using ok by (simp add: sound_step_def conserved_def)
  have code: "length (sc_code d) < 2 ^ 32" if "data_as setcode_name unpack_setcode act = Inr d" for d
    using unpack_Some(1) [OF data_as_Inr [OF that]] assms(3) by (simp add: well_sized_def)
  have abi: "length (sa_abi d) < 2 ^ 32" if "data_as setabi_name unpack_setabi act = Inr d" for d
    using unpack_Some(2) [OF data_as_Inr [OF that]] assms(3) by (simp add: well_sized_def)
  show ?thesis
    using assms(1) same unfolding apply_native_def Let_def
    by (auto split: if_splits intro: newaccount_sound [OF _ ok assms(4)] setcode_sound [OF _ ok code assms(5)]
        setabi_sound [OF _ ok abi] updateauth_sound [OF _ ok assms(4)] deleteauth_sound [OF _ ok]
        linkauth_sound [OF _ ok] unlinkauth_sound [OF _ ok] canceldelay_sound [OF _ ok])
qed

lemma native_names [code]:
  "null_account_name = 6138663588472832000"
  "producers_account_name = 6138663589497696256"
  "majority_producers_permission_name = 12531424605554196480"
  "minority_producers_permission_name = 12531424609916272640"
  "newaccount_name = 11148770977341390848"
  "setcode_name = 14029427681804681216"
  "setabi_name = 14029385431137648640"
  by (simp_all add: null_account_name_def producers_account_name_def majority_producers_permission_name_def minority_producers_permission_name_def newaccount_name_def setcode_name_def setabi_name_def
      string_to_name_def char_to_symbol_def of_char_def push_bit_eq_mult)

section \<open>Every state of the chain\<close>

definition producers_authority :: "'k authority" where
  "producers_authority =
     \<lparr>threshold = 1, keys = [], accounts = [\<lparr>plw_permission = Permission_Level system_account_name active_name, plw_weight = 1\<rparr>],
      waits = []\<rparr>"

text \<open>What the accounts of a new chain hold without being billed for it.\<close>

definition unbilled :: "('k, 'h) apply_env \<Rightarrow> u8 list \<Rightarrow> name \<Rightarrow> int" where
  "unbilled E eosio_abi a =
     (if a = system_account_name then int (length eosio_abi)
      else if a = producers_account_name then 2 * permission_size E producers_authority
      else 0)"

lemma initial_sizes:
  assumes "small_keys E"
  shows "small_auth E (key_authority k 0)" "small_auth E producers_authority"
    "small_auth E \<lparr>threshold = 1, keys = [], accounts = [], waits = []\<rparr>"
  using assms by (auto intro!: validate_small simp: key_authority_def delay_waits_def producers_authority_def)

lemma empty_state_ok: "native_ok E empty_state"
proof -
  have "small_auth E \<lparr>threshold = 0, keys = [], accounts = [], waits = []\<rparr>"
    by (simp add: small_auth_def get_billable_size_def)
  then show ?thesis
    using initialize_permissions_ok
    by (auto simp: native_ok_def empty_state_def perms_ok_def accounts_ok_def code_ok_def uses_code_def deferred_ok_def
        initialize_permissions_def reserved_permission_def split: if_splits)
qed

lemma empty_state_footprint: "a \<noteq> 0 \<Longrightarrow> footprint E empty_state a = 0" "ram_of empty_state a = 0"
  by (auto simp: footprint_def empty_state_def account_footprint_def code_footprint_def permission_footprint_def
      link_footprint_def deferred_footprint_def initialize_permissions_def reserved_permission_def table_sum_def
      ram_of_def initialize_database_def)

lemma create_native_account_facts:
  assumes "create_native_account E time eosio_abi nm own act privileged s = Inr s'" and ok: "native_ok E s" and "nm \<noteq> 0"
    and "length eosio_abi < 2 ^ 32" and small: "small_auth E own" "small_auth E act"
  shows "native_ok E s'" and "footprint E s' a - ram_of s' a = footprint E s a - ram_of s a
    + (if a = nm \<and> nm = system_account_name then int (length eosio_abi) else 0)"
proof -
  let ?ao = "\<lparr>creation_date = time, abi = (if nm = system_account_name then eosio_abi else [])\<rparr>"
  from assms(1) obtain u r where new: "account_objects s nm = None"
    and c: "create_account_permissions E nm own act time (s\<lparr>account_objects := (account_objects s)(nm \<mapsto> ?ao),
        metadata := (metadata s)(nm \<mapsto> new_metadata (no_code E) privileged)\<rparr>) = Inr u"
    and r: "add_pending_ram_usage nm (new_account_ram E own act) (resources u) = Inr r" and s': "s' = u\<lparr>resources := r\<rparr>"
    by (auto simp: create_native_account_def)
  have "length (abi ?ao) < 2 ^ 32" using assms(4) by simp
  note rows = new_account_rows [OF c ok assms(3) new this small]
  show "native_ok E s'" using rows(1) by (simp add: s' native_ok_def accounts_ok_def)
  obtain v where v: "add_ram_usage nm (new_account_ram E own act) u = Inr (u\<lparr>resources := r, validate_ram_usage := v\<rparr>)"
    using r by (simp add: add_ram_usage_def lift_error_def)
  have "ram_of (u\<lparr>resources := r, validate_ram_usage := v\<rparr>) a = ram_of u a + (if a = nm then new_account_ram E own act else 0)"
    by (rule add_ram_usage_Inr(2) [OF v])
      (use permission_size_small [OF small(1)] permission_size_small [OF small(2)] in \<open>simp_all add: new_account_ram_def billables\<close>)
  moreover have "footprint E s' a = footprint E u a" by (simp add: s' footprint_def)
  ultimately show "footprint E s' a - ram_of s' a = footprint E s a - ram_of s a
      + (if a = nm \<and> nm = system_account_name then int (length eosio_abi) else 0)"
    using rows(2,3) [of a] by (simp add: s' ram_of_def)
qed

lemma initialize_accounts_facts:
  assumes "initialize_accounts E time eosio_abi k = Inr s" and keys: "small_keys E" and "length eosio_abi < 2 ^ 32" and "a \<noteq> 0"
  shows "native_ok E s" and "footprint E s a - ram_of s a = unbilled E eosio_abi a"
proof -
  let ?none = "\<lparr>threshold = 1, keys = [], accounts = [], waits = []\<rparr>" and ?P = producers_account_name
  note small = initial_sizes [OF keys]
  from assms(1) obtain s1 s2 s3 i p j q db1 l r db2 where
    1: "create_native_account E time eosio_abi system_account_name (key_authority k 0) (key_authority k 0) True empty_state = Inr s1"
    and 2: "create_native_account E time eosio_abi null_account_name ?none ?none False s1 = Inr s2"
    and 3: "create_native_account E time eosio_abi ?P ?none producers_authority False s2 = Inr s3"
    and 4: "get_permission (Permission_Level ?P active_name) (auth s3) = Inr (i, p)"
    and 5: "create_permission (control E) ?P majority_producers_permission_name i producers_authority time (auth s3) = Inr ((j, q), db1)"
    and 6: "create_permission (control E) ?P minority_producers_permission_name j producers_authority time db1 = Inr ((l, r), db2)"
    and s: "s = s3\<lparr>auth := db2\<rparr>"
    by (auto simp: initialize_accounts_def Let_def producers_authority_def)
  have names: "system_account_name \<noteq> 0" "null_account_name \<noteq> 0" "?P \<noteq> 0" "majority_producers_permission_name \<noteq> 0"
      "minority_producers_permission_name \<noteq> 0" by (simp_all add: native_names system_names)
  note f1 = create_native_account_facts [OF 1 empty_state_ok names(1) assms(3) small(1,1)]
  note f2 = create_native_account_facts [OF 2 f1(1) names(2) assms(3) small(3,3)]
  note f3 = create_native_account_facts [OF 3 f2(1) names(3) assms(3) small(3,2)]
  note p3 = native_okD(1) [OF f3(1)]
  have "\<exists>q. permissions (auth s3) i = Some q \<and> perm_owner q = ?P"
    using get_permission_Inr [OF 4 perms_okD(1) [OF p3]] by auto
  note f5 = create_permission_facts [OF 5 p3 names(3,4) this small(2)]
  have "\<exists>q. permissions db1 j = Some q \<and> perm_owner q = ?P" using create_permission_Inr(3,8) [OF 5] by simp
  note f6 = create_permission_facts [OF 6 f5(1) names(3,5) this small(2)]
  show "native_ok E s" unfolding s by (rule native_ok_auth [OF f3(1) f6(1)])
  have "footprint E s a = footprint E s3 a + (if a = ?P then 2 * permission_size E producers_authority else 0)"
    unfolding s by (rule footprint_auth) (simp_all add: f5(2,3) f6(2,3))
  moreover have "ram_of s a = ram_of s3 a" by (simp add: s ram_of_def)
  ultimately show "footprint E s a - ram_of s a = unbilled E eosio_abi a"
    using f1(2) [of a] f2(2) [of a] f3(2) [of a] empty_state_footprint(1) [OF assms(4), of E]
    by (simp add: unbilled_def native_names system_names empty_state_footprint(2) split: if_splits)
qed

text \<open>What stays the same from block to block is how keys and code are measured and hashed.\<close>

definition same_codec :: "('k, 'h) apply_env \<Rightarrow> ('k, 'h) apply_env \<Rightarrow> bool" where
  "same_codec E E' \<longleftrightarrow> key_pack_size E' = key_pack_size E \<and> sha256 E' = sha256 E \<and> no_code E' = no_code E"

lemma same_codec_eq:
  assumes "same_codec E E'"
  shows "sound_step E' s s' \<longleftrightarrow> sound_step E s s'" and "native_ok E' s \<longleftrightarrow> native_ok E s"
    and "small_keys E' \<longleftrightarrow> small_keys E" and "hash_ok E' \<longleftrightarrow> hash_ok E"
proof -
  have c: "key_pack_size E' = key_pack_size E" "sha256 E' = sha256 E" "no_code E' = no_code E"
    using assms by (simp_all add: same_codec_def)
  show n: "native_ok E' s \<longleftrightarrow> native_ok E s" for s
    by (simp add: native_ok_def perms_ok_def small_auth_def code_ok_def code_users_def uses_code_def c)
  have "code_footprint E' cs m = code_footprint E cs m" for cs m by (cases m) (simp_all add: code_footprint_def c)
  moreover have "permission_size E' = permission_size E" by (simp add: fun_eq_iff permission_size_def c)
  ultimately have "footprint E' s a = footprint E s a" for s a
    by (simp add: footprint_def permission_footprint_def cong: if_cong)
  then show "sound_step E' s s' \<longleftrightarrow> sound_step E s s'" by (simp add: sound_step_def conserved_def n)
  show "small_keys E' \<longleftrightarrow> small_keys E" "hash_ok E' \<longleftrightarrow> hash_ok E" by (simp_all add: small_keys_def hash_ok_def c)
qed

inductive native_reachable :: "('k :: linorder, 'h) apply_env \<Rightarrow> u8 list \<Rightarrow> ('k, 'h) chain_state \<Rightarrow> bool" for E eosio_abi where
  genesis: "initialize_accounts E time eosio_abi initial_key = Inr s \<Longrightarrow> native_reachable E eosio_abi s"
| native: "native_reachable E eosio_abi s \<Longrightarrow> same_codec E E' \<Longrightarrow> well_sized act \<Longrightarrow> apply_native E' act s = Inr s' \<Longrightarrow>
    native_reachable E eosio_abi s'"
| schedule: "native_reachable E eosio_abi s \<Longrightarrow> same_codec E E' \<Longrightarrow> n < 2 ^ 32 \<Longrightarrow>
    schedule_transaction E' tid delay acts n s = Inr s' \<Longrightarrow> native_reachable E eosio_abi s'"

lemma conserved_diff: "conserved E s s' \<Longrightarrow> footprint E s' a - ram_of s' a = footprint E s a - ram_of s a"
proof -
  assume "conserved E s s'"
  then have "ram_of s' a - ram_of s a = footprint E s' a - footprint E s a" by (simp add: conserved_def)
  then show ?thesis by linarith
qed

lemma native_reachable_facts:
  assumes "native_reachable E eosio_abi s" and "small_keys E" and "hash_ok E" and "length eosio_abi < 2 ^ 32"
  shows "native_ok E s \<and> (\<forall>a. a \<noteq> 0 \<longrightarrow> footprint E s a - ram_of s a = unbilled E eosio_abi a)"
  using assms(1)
proof (induction rule: native_reachable.induct)
  case (genesis time initial_key s)
  have "native_ok E s" by (rule initialize_accounts_facts(1) [OF genesis assms(2,4), of 1]) simp
  with initialize_accounts_facts(2) [OF genesis assms(2,4)] show ?case by blast
next
  case (native s E' act s')
  have "sound_step E s s'"
    using apply_native_sound [OF native.hyps(4) _ native.hyps(3)] native.IH assms(2,3) same_codec_eq [OF native.hyps(2)] by blast
  then have "native_ok E s'" "\<And>a. footprint E s' a - ram_of s' a = footprint E s a - ram_of s a"
    using conserved_diff by (auto simp: sound_step_def)
  with native.IH show ?case by simp
next
  case (schedule s E' n tid delay acts s')
  have "sound_step E s s'"
    using schedule_sound [OF schedule.hyps(4) _ schedule.hyps(3)] schedule.IH same_codec_eq [OF schedule.hyps(2)] by blast
  then have "native_ok E s'" "\<And>a. footprint E s' a - ram_of s' a = footprint E s a - ram_of s a"
    using conserved_diff by (auto simp: sound_step_def)
  with schedule.IH show ?case by simp
qed




section \<open>A chain with one account\<close>

text \<open>
  A new chain on which the system account makes an account, which sets its code. Keys are
  numbers of 34 bytes, and the hash of a code is the code itself.
\<close>

definition demo_env :: "(nat, u8 list option) apply_env" where
  "demo_env =
     \<lparr>control = demo_control, head_block_num = 1, enforce_whiteblacklist = False, producing_block = True, key_blacklist = [],
      key_pack_size = (\<lambda>k. 34), sha256 = Some, no_code = None, wasm_valid = (\<lambda>c. True)\<rparr>"

definition demo_account :: name where
  "demo_account = 3773036822876127232"

definition demo_newaccount :: "nat action" where
  "demo_newaccount =
     \<lparr>act_account = system_account_name, act_name = newaccount_name,
      act_authorization = [Permission_Level system_account_name active_name],
      act_data = Newaccount_Data \<lparr>na_creator = system_account_name, na_name = demo_account,
        na_owner = key_authority 1 0, na_active = key_authority 2 0\<rparr>\<rparr>"

definition demo_setcode :: "nat action" where
  "demo_setcode =
     \<lparr>act_account = system_account_name, act_name = setcode_name,
      act_authorization = [Permission_Level demo_account active_name],
      act_data = Setcode_Data \<lparr>sc_account = demo_account, sc_vmtype = 0, sc_vmversion = 0, sc_code = [0, 97, 115, 109]\<rparr>\<rparr>"

definition demo_chain :: "(nat, u8 list option) chain_state applied" where
  "demo_chain =
     bind_res (initialize_accounts demo_env 1 [1, 2, 3] 9) (\<lambda>s.
     bind_res (apply_native demo_env demo_newaccount s) (apply_native demo_env demo_setcode))"

lemma demo_env_sel:
  "control demo_env = demo_control" "head_block_num demo_env = 1" "enforce_whiteblacklist demo_env = False"
  "sha256 demo_env = Some" "no_code demo_env = None" "wasm_valid demo_env = (\<lambda>c. True)"
  by (simp_all add: demo_env_def)

lemma demo_sizes:
  "auth_size demo_env (key_authority k 0) = 50"
  "auth_size demo_env \<lparr>threshold = 1, keys = [], accounts = [], waits = []\<rparr> = 0"
  "auth_size demo_env \<lparr>threshold = 1, keys = [], accounts = [\<lparr>plw_permission = p, plw_weight = 1\<rparr>], waits = []\<rparr> = 32"
  by (simp_all add: auth_size_def demo_env_def key_authority_def delay_waits_def get_billable_size_def billable_size_v_def)

lemma demo_authority: "validate (key_authority k 0)" "accounts (key_authority k 0) = []"
  by (simp_all add: validate_def key_authority_def delay_waits_def)

lemma demo_account_text: "name_text 3773036822876127232 = ''alice''"
  by (simp add: name_text_def name_char_def charmap_def trim_right_dots_def upt_rec)
    (simp add: eval_nat_numeral)

lemmas database_run = create_permission_def empty_state_def find_by_owner_def owned_row_def initialize_permissions_def
  reserved_permission_def get_permission_def initialize_account_def initialize_database_def add_pending_ram_usage_def
  verify_account_ram_usage_def get_account_limits_def table_get_def table_emplace_def lift_error_def check_def Let_def
  word_le_nat_alt unat_max64 upt_rec

lemmas account_run = initialize_accounts_def create_native_account_def create_account_permissions_def new_account_ram_def
  new_metadata_def add_ram_usage_def ram_of_def billables demo_sizes demo_authority demo_env_sel system_names native_names

lemmas action_run = apply_native_def data_as_def require_authorization_def apply_eosio_newaccount_def apply_eosio_setcode_def
  store_code_def release_code_def acquire_code_def starts_with_eosio_def is_privileged_def
  validate_authority_precondition_def demo_account_text

lemma demo_chain_runs:
  "\<exists>s. demo_chain = Inr s \<and> ram_of s demo_account = 2764 \<and> account_objects s demo_account \<noteq> None
    \<and> map_option code_ref_count (code_objects s (Code_Key (Some [0, 97, 115, 109]) 0 0)) = Some 1"
  by (simp add: demo_chain_def demo_newaccount_def demo_setcode_def demo_account_def action_run account_run database_run)

lemma demo_env_ok: "small_keys demo_env" "hash_ok demo_env" "same_codec demo_env demo_env"
  by (simp_all add: small_keys_def hash_ok_def same_codec_def demo_env_def)

lemma demo_chain_reachable:
  assumes "demo_chain = Inr s"
  shows "native_reachable demo_env [1, 2, 3] s"
proof -
  from assms obtain s0 s1 where "initialize_accounts demo_env 1 [1, 2, 3] 9 = Inr s0"
    "apply_native demo_env demo_newaccount s0 = Inr s1" "apply_native demo_env demo_setcode s1 = Inr s"
    by (auto simp: demo_chain_def)
  moreover have "well_sized demo_newaccount" "well_sized demo_setcode"
    by (simp_all add: well_sized_def demo_newaccount_def demo_setcode_def)
  ultimately show ?thesis
    using native_reachable.genesis native_reachable.native demo_env_ok(3) by metis
qed




end
