(* ===== verification/Chainbase.thy ===== *)
theory Chainbase
  imports Prelude
begin

text \<open>
  The database index with undo sessions
  (\<open>libraries/chainbase/include/chainbase/chainbase.hpp\<close>, classes \<open>undo_state\<close> and \<open>generic_index\<close>). The
  rows are a map from their ids. The unique keys of the \<open>boost\<close> container, apart from the id, are the
  parameter \<open>ks\<close>, a list of functions that read one key each from a row. The undo states are a list with the
  latest first. A \<open>std::abort\<close> is an error of its own.
\<close>

section \<open>State\<close>

record 'v undo_state =
  old_values :: "nat \<rightharpoonup> 'v"
  removed_values :: "nat \<rightharpoonup> 'v"
  new_ids :: "nat set"
  old_next_id :: nat
  state_revision :: int

record 'v generic_index =
  indices :: "nat \<rightharpoonup> 'v"
  next_id :: nat
  undo_stack :: "'v undo_state list"
  index_revision :: int

datatype index_error =
    uniqueness_violation
  | aborted
  | out_of_range
  | undo_stack_exists
  | revision_too_high
  | stale_iterator

type_synonym 'a indexed = "(index_error, 'a) result"

definition empty_index :: "'v generic_index" where
  "empty_index = \<lparr>indices = Map.empty, next_id = 0, undo_stack = [], index_revision = 0\<rparr>"

text \<open>
  Two rows clash if they agree on a unique key; the row with the given id and value clashes with
  another one of the table, whose ids are below \<open>n\<close>.
\<close>

definition clash :: "('v \<Rightarrow> 'c) list \<Rightarrow> 'v \<Rightarrow> 'v \<Rightarrow> bool" where
  "clash ks v w \<longleftrightarrow> list_ex (\<lambda>k. k v = k w) ks"

definition clashes :: "('v \<Rightarrow> 'c) list \<Rightarrow> nat \<Rightarrow> (nat \<rightharpoonup> 'v) \<Rightarrow> nat \<Rightarrow> 'v \<Rightarrow> bool" where
  "clashes ks n t i v =
     list_ex (\<lambda>j. j \<noteq> i \<and> (case t j of None \<Rightarrow> False | Some w \<Rightarrow> clash ks v w)) [0..<n]"

section \<open>Changes of rows\<close>

text \<open>The change of the latest undo state, if there is one.\<close>

definition on_head :: "('v undo_state \<Rightarrow> 'v undo_state) \<Rightarrow> 'v undo_state list \<Rightarrow> 'v undo_state list" where
  "on_head f us = (case us of [] \<Rightarrow> [] | head # rest \<Rightarrow> f head # rest)"

definition on_create :: "nat \<Rightarrow> 'v undo_state \<Rightarrow> 'v undo_state" where
  "on_create i head = head\<lparr>new_ids := insert i (new_ids head)\<rparr>"

definition on_modify :: "nat \<Rightarrow> 'v \<Rightarrow> 'v undo_state \<Rightarrow> 'v undo_state" where
  "on_modify i v head =
     (if i \<in> new_ids head then head
      else if old_values head i \<noteq> None then head
      else head\<lparr>old_values := (old_values head)(i \<mapsto> v)\<rparr>)"

definition on_remove :: "nat \<Rightarrow> 'v \<Rightarrow> 'v undo_state \<Rightarrow> 'v undo_state" where
  "on_remove i v head =
     (if i \<in> new_ids head then head\<lparr>new_ids := new_ids head - {i}\<rparr>
      else case old_values head i of
        Some w \<Rightarrow> head\<lparr>removed_values := (removed_values head)(i := (case removed_values head i of None \<Rightarrow> Some w | Some x \<Rightarrow> Some x)),
                       old_values := (old_values head)(i := None)\<rparr>
      | None \<Rightarrow>
          if removed_values head i \<noteq> None then head
          else head\<lparr>removed_values := (removed_values head)(i \<mapsto> v)\<rparr>)"

definition emplace :: "('v \<Rightarrow> 'c) list \<Rightarrow> 'v \<Rightarrow> 'v generic_index \<Rightarrow> (nat \<times> 'v generic_index) indexed" where
  "emplace ks v s =
     (let new_id = next_id s in
      check (\<not> clashes ks (next_id s) (indices s) new_id v) uniqueness_violation
     (Inr (new_id, s\<lparr>indices := (indices s)(new_id \<mapsto> v), next_id := Suc new_id,
                     undo_stack := on_head (on_create new_id) (undo_stack s)\<rparr>)))"

definition modify :: "('v \<Rightarrow> 'c) list \<Rightarrow> nat \<Rightarrow> ('v \<Rightarrow> 'v) \<Rightarrow> 'v generic_index \<Rightarrow> 'v generic_index indexed" where
  "modify ks i m s =
     bind_res (table_get (indices s) i stale_iterator) (\<lambda>v.
     check (\<not> clashes ks (next_id s) (indices s) i (m v)) aborted
    (Inr (s\<lparr>indices := (indices s)(i \<mapsto> m v), undo_stack := on_head (on_modify i v) (undo_stack s)\<rparr>)))"

definition remove :: "nat \<Rightarrow> 'v generic_index \<Rightarrow> 'v generic_index indexed" where
  "remove i s =
     bind_res (table_get (indices s) i stale_iterator) (\<lambda>v.
     Inr (s\<lparr>indices := table_erase (indices s) i, undo_stack := on_head (on_remove i v) (undo_stack s)\<rparr>))"

definition remove_object :: "nat \<Rightarrow> 'v generic_index \<Rightarrow> 'v generic_index indexed" where
  "remove_object i s = (if indices s i = None then Inl out_of_range else remove i s)"

section \<open>Sessions\<close>

definition start_undo_session :: "bool \<Rightarrow> 'v generic_index \<Rightarrow> int \<times> 'v generic_index" where
  "start_undo_session enabled s =
     (if enabled
      then let r = index_revision s + 1 in
           (r, s\<lparr>index_revision := r,
                 undo_stack := \<lparr>old_values = Map.empty, removed_values = Map.empty, new_ids = {},
                                old_next_id = next_id s, state_revision = r\<rparr> # undo_stack s\<rparr>)
      else (- 1, s))"

text \<open>
  One step of each of the two loops of \<open>undo\<close>, over the items in the order of their ids; \<open>n\<close> is
  the next id the session began with.
\<close>

definition restore_old :: "('v \<Rightarrow> 'c) list \<Rightarrow> nat \<Rightarrow> (nat \<rightharpoonup> 'v) \<Rightarrow> nat \<Rightarrow> (nat \<rightharpoonup> 'v) \<Rightarrow> (nat \<rightharpoonup> 'v) indexed" where
  "restore_old ks n olds i t =
     (case olds i of
        None \<Rightarrow> Inr t
      | Some v \<Rightarrow>
          check (t i \<noteq> None) stale_iterator
         (check (\<not> clashes ks n t i v) aborted (Inr (t(i \<mapsto> v)))))"

definition restore_removed :: "('v \<Rightarrow> 'c) list \<Rightarrow> nat \<Rightarrow> (nat \<rightharpoonup> 'v) \<Rightarrow> nat \<Rightarrow> (nat \<rightharpoonup> 'v) \<Rightarrow> (nat \<rightharpoonup> 'v) indexed" where
  "restore_removed ks n removed i t =
     (case removed i of
        None \<Rightarrow> Inr t
      | Some v \<Rightarrow>
          check (t i = None) aborted
         (check (\<not> clashes ks n t i v) aborted (Inr (t(i \<mapsto> v)))))"

definition undo :: "('v \<Rightarrow> 'c) list \<Rightarrow> 'v generic_index \<Rightarrow> 'v generic_index indexed" where
  "undo ks s =
     (case undo_stack s of
        [] \<Rightarrow> Inr s
      | head # rest \<Rightarrow>
          let t = (\<lambda>i. if i \<in> new_ids head then None else indices s i);
              n = old_next_id head in
          bind_res (for_each (restore_old ks n (old_values head)) [0..<n] t) (\<lambda>t.
          bind_res (for_each (restore_removed ks n (removed_values head)) [0..<n] t) (\<lambda>t.
          Inr (s\<lparr>indices := t, next_id := n, undo_stack := rest, index_revision := index_revision s - 1\<rparr>))))"

text \<open>
  The merge of the two latest undo states. The loops of the code treat each id by itself, so
  that the merged containers are given id by id: first the old values, then the new ids, then what the later state
  removed.
\<close>

definition merge_old :: "'v undo_state \<Rightarrow> 'v undo_state \<Rightarrow> nat \<rightharpoonup> 'v" where
  "merge_old prev state i =
     (case old_values state i of
        None \<Rightarrow> old_values prev i
      | Some v \<Rightarrow>
          if i \<in> new_ids prev then old_values prev i
          else case old_values prev i of Some x \<Rightarrow> Some x | None \<Rightarrow> Some v)"

definition merge_states :: "'v undo_state \<Rightarrow> 'v undo_state \<Rightarrow> 'v undo_state" where
  "merge_states prev state =
     (let olds = merge_old prev state;
          news = new_ids prev \<union> new_ids state
      in prev\<lparr>
        old_values := (\<lambda>i. if removed_values state i \<noteq> None \<and> i \<notin> news then None else olds i),
        removed_values := (\<lambda>i. case removed_values prev i of
            Some x \<Rightarrow> Some x
          | None \<Rightarrow>
              if removed_values state i \<noteq> None \<and> i \<notin> news
              then (case olds i of Some x \<Rightarrow> Some x | None \<Rightarrow> removed_values state i)
              else None),
        new_ids := news - {i. removed_values state i \<noteq> None}\<rparr>)"

definition squash :: "'v generic_index \<Rightarrow> 'v generic_index" where
  "squash s =
     (case undo_stack s of
        [] \<Rightarrow> s
      | [state] \<Rightarrow> s\<lparr>undo_stack := [], index_revision := index_revision s - 1\<rparr>
      | state # prev # rest \<Rightarrow> s\<lparr>undo_stack := merge_states prev state # rest, index_revision := index_revision s - 1\<rparr>)"

definition commit :: "int \<Rightarrow> 'v generic_index \<Rightarrow> 'v generic_index" where
  "commit r s = s\<lparr>undo_stack := rev (dropWhile (\<lambda>u. state_revision u \<le> r) (rev (undo_stack s)))\<rparr>"

text \<open>The loop \<open>while( enabled() ) undo();\<close>, which takes one state from the stack each time.\<close>

fun undo_loop :: "('v \<Rightarrow> 'c) list \<Rightarrow> nat \<Rightarrow> 'v generic_index \<Rightarrow> 'v generic_index indexed" where
  "undo_loop ks 0 s = Inr s"
| "undo_loop ks (Suc n) s = (if undo_stack s = [] then Inr s else bind_res (undo ks s) (undo_loop ks n))"

definition undo_all :: "('v \<Rightarrow> 'c) list \<Rightarrow> 'v generic_index \<Rightarrow> 'v generic_index indexed" where
  "undo_all ks s = undo_loop ks (length (undo_stack s)) s"

definition set_revision :: "u64 \<Rightarrow> 'v generic_index \<Rightarrow> 'v generic_index indexed" where
  "set_revision r s =
     check (undo_stack s = []) undo_stack_exists
    (check (uint r \<le> 2 ^ 63 - 1) revision_too_high
    (Inr (s\<lparr>index_revision := uint r\<rparr>)))"

definition undo_stack_revision_range :: "'v generic_index \<Rightarrow> int \<times> int" where
  "undo_stack_revision_range s =
     (if undo_stack s = [] then (index_revision s, index_revision s)
      else (state_revision (last (undo_stack s)) - 1, state_revision (hd (undo_stack s))))"

text \<open>A session object: whether it still has to be undone at the end of its scope.\<close>

record session =
  session_apply :: bool
  session_revision :: int

definition make_session :: "int \<Rightarrow> session" where
  "make_session r = \<lparr>session_apply = (r \<noteq> - 1), session_revision = r\<rparr>"

definition session_push :: "session \<Rightarrow> session" where
  "session_push w = w\<lparr>session_apply := False\<rparr>"

definition session_squash :: "session \<Rightarrow> 'v generic_index \<Rightarrow> session \<times> 'v generic_index" where
  "session_squash w s = (w\<lparr>session_apply := False\<rparr>, if session_apply w then squash s else s)"

definition session_undo :: "('v \<Rightarrow> 'c) list \<Rightarrow> session \<Rightarrow> 'v generic_index \<Rightarrow> (session \<times> 'v generic_index) indexed" where
  "session_undo ks w s =
     bind_res (if session_apply w then undo ks s else Inr s) (\<lambda>s. Inr (w\<lparr>session_apply := False\<rparr>, s))"

section \<open>What an undo state stands for\<close>

text \<open>The table an undo state takes a table back to.\<close>

definition restored :: "'v undo_state \<Rightarrow> (nat \<rightharpoonup> 'v) \<Rightarrow> nat \<rightharpoonup> 'v" where
  "restored u t i =
     (case removed_values u i of
        Some v \<Rightarrow> Some v
      | None \<Rightarrow> if i \<in> new_ids u then None else case old_values u i of Some v \<Rightarrow> Some v | None \<Rightarrow> t i)"

definition bounded :: "(nat \<rightharpoonup> 'v) \<Rightarrow> nat \<Rightarrow> bool" where
  "bounded t n \<longleftrightarrow> (\<forall>i. t i \<noteq> None \<longrightarrow> i < n)"

text \<open>No two rows agree on a unique key; two values agree on all of them.\<close>

definition unique :: "('v \<Rightarrow> 'c) list \<Rightarrow> (nat \<rightharpoonup> 'v) \<Rightarrow> bool" where
  "unique ks t \<longleftrightarrow> (\<forall>i j v w. i \<noteq> j \<longrightarrow> t i = Some v \<longrightarrow> t j = Some w \<longrightarrow> \<not> clash ks v w)"

definition alike :: "('v \<Rightarrow> 'c) list \<Rightarrow> 'v \<Rightarrow> 'v \<Rightarrow> bool" where
  "alike ks v w \<longleftrightarrow> (\<forall>k \<in> set ks. k v = k w)"

definition alike_row :: "('v \<Rightarrow> 'c) list \<Rightarrow> 'v \<Rightarrow> 'v option \<Rightarrow> bool" where
  "alike_row ks v x = (case x of None \<Rightarrow> False | Some w \<Rightarrow> alike ks v w)"

text \<open>
  An undo state fits the table: what is new came after the session began and is there, what is old
  is there with the same keys, what was removed is not, and every row from the time of the session is new.
\<close>

definition fits :: "('v \<Rightarrow> 'c) list \<Rightarrow> 'v undo_state \<Rightarrow> (nat \<rightharpoonup> 'v) \<Rightarrow> nat \<Rightarrow> bool" where
  "fits ks u t n \<longleftrightarrow> old_next_id u \<le> n
     \<and> (\<forall>i \<in> new_ids u. old_next_id u \<le> i \<and> t i \<noteq> None)
     \<and> (\<forall>i v. old_values u i = Some v \<longrightarrow> i < old_next_id u \<and> alike_row ks v (t i))
     \<and> (\<forall>i. removed_values u i \<noteq> None \<longrightarrow> i < old_next_id u \<and> t i = None)
     \<and> (\<forall>i. old_next_id u \<le> i \<longrightarrow> t i \<noteq> None \<longrightarrow> i \<in> new_ids u)"

fun good_stack :: "('v \<Rightarrow> 'c) list \<Rightarrow> 'v undo_state list \<Rightarrow> (nat \<rightharpoonup> 'v) \<Rightarrow> nat \<Rightarrow> bool" where
  "good_stack ks [] t n \<longleftrightarrow> bounded t n \<and> unique ks t"
| "good_stack ks (u # us) t n \<longleftrightarrow> bounded t n \<and> unique ks t \<and> fits ks u t n \<and> good_stack ks us (restored u t) (old_next_id u)"

lemma goodD: "good_stack ks us t n \<Longrightarrow> bounded t n" "good_stack ks us t n \<Longrightarrow> unique ks t"
  by (cases us; simp)+

lemma fitsD:
  assumes "fits ks u t n"
  shows "old_next_id u \<le> n" and "i \<in> new_ids u \<Longrightarrow> old_next_id u \<le> i" and "i \<in> new_ids u \<Longrightarrow> t i \<noteq> None"
    and "old_values u i = Some v \<Longrightarrow> i < old_next_id u" and "old_values u i = Some v \<Longrightarrow> alike_row ks v (t i)"
    and "removed_values u i = Some v \<Longrightarrow> i < old_next_id u" and "removed_values u i = Some v \<Longrightarrow> t i = None"
    and "old_next_id u \<le> i \<Longrightarrow> t i = Some v \<Longrightarrow> i \<in> new_ids u"
  using assms unfolding fits_def by blast+

lemma fitsI:
  assumes "old_next_id u \<le> n" and "\<And>i. i \<in> new_ids u \<Longrightarrow> old_next_id u \<le> i" and "\<And>i. i \<in> new_ids u \<Longrightarrow> t i \<noteq> None"
    and "\<And>i v. old_values u i = Some v \<Longrightarrow> i < old_next_id u" and "\<And>i v. old_values u i = Some v \<Longrightarrow> alike_row ks v (t i)"
    and "\<And>i. removed_values u i \<noteq> None \<Longrightarrow> i < old_next_id u" and "\<And>i. removed_values u i \<noteq> None \<Longrightarrow> t i = None"
    and "\<And>i. old_next_id u \<le> i \<Longrightarrow> t i \<noteq> None \<Longrightarrow> i \<in> new_ids u"
  shows "fits ks u t n"
  unfolding fits_def by (intro conjI ballI allI impI; (erule (1) assms | erule assms | rule assms))

lemma alike_row_Some [simp]: "alike_row ks v (Some w) = alike ks v w" "\<not> alike_row ks v None"
  by (simp_all add: alike_row_def)

lemma alike_refl [simp]: "alike ks v v"
  by (simp add: alike_def)

lemma alike_trans: "alike ks u v \<Longrightarrow> alike ks v w \<Longrightarrow> alike ks u w"
  by (auto simp: alike_def)

lemma clash_alike: "alike ks v v' \<Longrightarrow> alike ks w w' \<Longrightarrow> clash ks v w \<longleftrightarrow> clash ks v' w'"
  unfolding alike_def clash_def list_ex_iff by metis

lemma clash_sym: "clash ks v w \<longleftrightarrow> clash ks w v"
  by (auto simp: clash_def list_ex_iff eq_commute)

lemma no_clash:
  assumes "\<not> clashes ks n t i v" and "bounded t n" and "t j = Some w" and "j \<noteq> i"
  shows "\<not> clash ks v w"
  using assms by (fastforce simp: clashes_def bounded_def list_ex_iff)

lemma uniqueD: "unique ks t \<Longrightarrow> i \<noteq> j \<Longrightarrow> t i = Some v \<Longrightarrow> t j = Some w \<Longrightarrow> \<not> clash ks v w"
  by (auto simp: unique_def)

lemma unique_upd:
  assumes "unique ks t" and "\<not> clashes ks n t i v" and "bounded t n"
  shows "unique ks (t(i \<mapsto> v))"
  unfolding unique_def
proof (intro allI impI)
  fix j k x y
  assume jk: "j \<noteq> k" "(t(i \<mapsto> v)) j = Some x" "(t(i \<mapsto> v)) k = Some y"
  consider "j = i" "k \<noteq> i" | "j \<noteq> i" "k = i" | "j \<noteq> i" "k \<noteq> i" using jk(1) by blast
  then show "\<not> clash ks x y"
  proof cases
    case 1
    then show ?thesis using jk no_clash [OF assms(2,3), of k y] by simp
  next
    case 2
    then show ?thesis using jk no_clash [OF assms(2,3), of j x] clash_sym [of ks x y] by simp
  next
    case 3
    then show ?thesis using jk assms(1) by (auto simp: unique_def)
  qed
qed

lemma unique_erase: "unique ks t \<Longrightarrow> unique ks (table_erase t i)"
  by (auto simp: unique_def split: if_splits)

section \<open>Row changes keep what the stack stands for\<close>

fun snapshots :: "'v undo_state list \<Rightarrow> (nat \<rightharpoonup> 'v) \<Rightarrow> ((nat \<rightharpoonup> 'v) \<times> nat \<times> int) list" where
  "snapshots [] t = []"
| "snapshots (u # us) t = (restored u t, old_next_id u, state_revision u) # snapshots us (restored u t)"

lemma change_head:
  assumes "good_stack ks us t n" and "bounded t' n'" and "unique ks t'"
    and "\<And>u rest. us = u # rest \<Longrightarrow> fits ks (f u) t' n' \<and> restored (f u) t' = restored u t
      \<and> old_next_id (f u) = old_next_id u \<and> state_revision (f u) = state_revision u"
  shows "good_stack ks (on_head f us) t' n' \<and> snapshots (on_head f us) t' = snapshots us t"
proof (cases us)
  case (Cons u rest)
  with assms(1) assms(4) [OF Cons] assms(2,3) show ?thesis by (simp add: on_head_def)
qed (use assms(2,3) in \<open>simp add: on_head_def\<close>)

lemma create_fits:
  assumes "fits ks u t n" and "bounded t n"
  shows "fits ks (on_create n u) (t(n \<mapsto> v)) (Suc n)" and "restored (on_create n u) (t(n \<mapsto> v)) = restored u t"
proof -
  have new: "t n = None" using assms(2) by (auto simp: bounded_def)
  have "removed_values u n = None"
    using fitsD(1) [OF assms(1)] fitsD(6) [OF assms(1), of n] by (cases "removed_values u n") auto
  moreover have "old_values u n = None"
    using fitsD(1) [OF assms(1)] fitsD(4) [OF assms(1), of n] by (cases "old_values u n") auto
  ultimately show "restored (on_create n u) (t(n \<mapsto> v)) = restored u t"
    using new by (auto simp: restored_def on_create_def fun_eq_iff split: option.splits)
  show "fits ks (on_create n u) (t(n \<mapsto> v)) (Suc n)"
  proof (rule fitsI)
    show "alike_row ks w ((t(n \<mapsto> v)) i)" if "old_values (on_create n u) i = Some w" for i w
      using that fitsD(5) [OF assms(1), of i w] new by (cases "i = n") (auto simp: on_create_def)
  qed (use fitsD(1-4,6-8) [OF assms(1)] \<open>removed_values u n = None\<close> in
      \<open>auto simp: on_create_def le_Suc_eq intro: ccontr split: if_splits\<close>)
qed

lemma present_row:
  assumes "fits ks u t n" and "t i = Some v"
  shows "removed_values u i = None" and "i \<notin> new_ids u \<Longrightarrow> i < old_next_id u" and "i \<in> new_ids u \<Longrightarrow> old_values u i = None"
proof -
  show "removed_values u i = None" using fitsD(7) [OF assms(1), of i] assms(2) by (cases "removed_values u i") auto
  show "i \<notin> new_ids u \<Longrightarrow> i < old_next_id u" using fitsD(8) [OF assms(1) _ assms(2)] by (meson leI)
  show "i \<in> new_ids u \<Longrightarrow> old_values u i = None"
    using fitsD(2) [OF assms(1), of i] fitsD(4) [OF assms(1), of i] by (cases "old_values u i") auto
qed

lemma modify_fits:
  assumes "fits ks u t n" and i: "t i = Some v" and keys: "alike ks v v' \<or> i \<in> new_ids u"
  shows "fits ks (on_modify i v u) (t(i \<mapsto> v')) n" and "restored (on_modify i v u) (t(i \<mapsto> v')) = restored u t"
proof -
  note p = present_row [OF assms(1) i] and f = fitsD [OF assms(1)]
  show "restored (on_modify i v u) (t(i \<mapsto> v')) = restored u t"
    using p i by (auto simp: restored_def on_modify_def fun_eq_iff split: option.splits)
  have same: "old_next_id (on_modify i v u) = old_next_id u" "new_ids (on_modify i v u) = new_ids u"
      "removed_values (on_modify i v u) = removed_values u" by (simp_all add: on_modify_def)
  have old: "j < old_next_id u \<and> alike_row ks x ((t(i \<mapsto> v')) j)" if x: "old_values (on_modify i v u) j = Some x" for j x
  proof (cases "j = i")
    case True
    with x p(3) have i: "i \<notin> new_ids u" "old_values u i = Some x \<or> x = v" by (auto simp: on_modify_def split: if_splits)
    then have "alike ks x v \<and> i < old_next_id u" using f(5) [of i x] assms(2) p(2) by auto
    with True i(1) keys show ?thesis using alike_trans [of ks x v v'] by auto
  next
    case False
    with x have "old_values u j = Some x" by (auto simp: on_modify_def split: if_splits)
    with False f(4,5) show ?thesis by fastforce
  qed
  show "fits ks (on_modify i v u) (t(i \<mapsto> v')) n"
  proof (rule fitsI; (unfold same)?)
    show "j \<in> new_ids u" if "old_next_id u \<le> j" "(t(i \<mapsto> v')) j \<noteq> None" for j
      using that f(8) [of j] i by (auto split: if_splits)
    show "(t(i \<mapsto> v')) j = None" if "removed_values u j \<noteq> None" for j
      using that f(7) [of j] p(1) by (auto split: if_splits)
  qed (use f(1-3,6) old in auto)
qed

lemma remove_fits:
  assumes "fits ks u t n" and i: "t i = Some v"
  shows "fits ks (on_remove i v u) (table_erase t i) n" and "restored (on_remove i v u) (table_erase t i) = restored u t"
proof -
  note p = present_row [OF assms(1) i] and f = fitsD [OF assms(1)]
  show "restored (on_remove i v u) (table_erase t i) = restored u t"
    using p i by (auto simp: restored_def on_remove_def fun_eq_iff split: option.splits)
  let ?u = "on_remove i v u"
  have same: "old_next_id ?u = old_next_id u" "j \<in> new_ids ?u \<longleftrightarrow> j \<in> new_ids u \<and> j \<noteq> i"
      "old_values ?u j = (if j = i then None else old_values u j)"
      "removed_values ?u j = Some w \<Longrightarrow> j \<noteq> i \<Longrightarrow> removed_values u j = Some w"
      "removed_values ?u i = Some w \<Longrightarrow> i < old_next_id u" for j w
    using p by (auto simp: on_remove_def split: option.splits if_splits)
  show "fits ks ?u (table_erase t i) n"
  proof (rule fitsI; (unfold same(1))?)
    show "j < old_next_id u" if "removed_values ?u j \<noteq> None" for j
      using that same(4,5) f(6) by (cases "j = i") blast+
    show "table_erase t i j = None" if "removed_values ?u j \<noteq> None" for j
      using that same(4) f(7) by (cases "j = i") auto
    show "alike_row ks w (table_erase t i j)" if "old_values ?u j = Some w" for j w
      using that same(3) f(5) by (cases "j = i") auto
  qed (use f(1-4,8) same(2,3) in \<open>auto split: if_splits\<close>)
qed

text \<open>The four relations an id can have to the later state, as in the table of the source.\<close>

lemma merge_cases:
  assumes B: "fits ks b t n" and A: "fits ks a (restored b t) (old_next_id b)" and "bounded (restored b t) (old_next_id b)"
  obtains (new) "i \<in> new_ids b" "removed_values b i = None" "old_values b i = None" "restored b t i = None"
      "i \<notin> new_ids a" "old_values a i = None" "removed_values a i = None"
    | (upd) y w where "i \<notin> new_ids b" "removed_values b i = None" "old_values b i = Some y" "t i = Some w" "restored b t i = Some y"
      "alike ks y w" "removed_values a i = None"
    | (del) y where "i \<notin> new_ids b" "removed_values b i = Some y" "old_values b i = None" "t i = None" "restored b t i = Some y"
      "removed_values a i = None"
    | (nop) "i \<notin> new_ids b" "removed_values b i = None" "old_values b i = None" "restored b t i = t i"
proof -
  consider "i \<in> new_ids b" | y where "i \<notin> new_ids b" "removed_values b i = Some y"
    | y where "i \<notin> new_ids b" "removed_values b i = None" "old_values b i = Some y"
    | "i \<notin> new_ids b" "removed_values b i = None" "old_values b i = None" by (cases "removed_values b i"; cases "old_values b i") auto
  then show thesis
  proof cases
    case 1
    have le: "old_next_id b \<le> i" and "t i \<noteq> None" using fitsD(2,3) [OF B 1] by auto
    then have none: "removed_values b i = None" "old_values b i = None"
      using fitsD(7) [OF B, of i] fitsD(4) [OF B, of i] by (metis option.exhaust, metis leD option.exhaust)
    then have r: "restored b t i = None" using 1 by (simp add: restored_def)
    moreover have "old_next_id a \<le> i" using fitsD(1) [OF A] le by simp
    ultimately show ?thesis
      using new [OF 1 none r] fitsD(3,4,6) [OF A, of i] by (metis leD option.exhaust)
  next
    case (2 y)
    have "t i = None" "old_values b i = None" using fitsD(7) [OF B 2(2)] fitsD(5) [OF B, of i] by (auto, metis alike_row_Some(2) option.exhaust)
    moreover have r: "restored b t i = Some y" using 2 by (simp add: restored_def)
    moreover have "removed_values a i = None" using fitsD(7) [OF A, of i] r by (metis option.distinct(1) option.exhaust)
    ultimately show ?thesis using del 2 by blast
  next
    case (3 y)
    obtain w where "t i = Some w" "alike ks y w" using fitsD(5) [OF B 3(3)] by (cases "t i") auto
    moreover have r: "restored b t i = Some y" using 3 by (simp add: restored_def)
    moreover have "removed_values a i = None" using fitsD(7) [OF A, of i] r by (metis option.distinct(1) option.exhaust)
    ultimately show ?thesis using upd 3 by blast
  next
    case 4
    then show ?thesis using nop by (simp add: restored_def)
  qed
qed

lemma merge_sel:
  "old_values (merge_states a b) i =
     (if removed_values b i \<noteq> None \<and> i \<notin> new_ids a \<and> i \<notin> new_ids b then None else merge_old a b i)"
  "removed_values (merge_states a b) i =
     (case removed_values a i of Some x \<Rightarrow> Some x
      | None \<Rightarrow> if removed_values b i \<noteq> None \<and> i \<notin> new_ids a \<and> i \<notin> new_ids b
          then (case merge_old a b i of Some x \<Rightarrow> Some x | None \<Rightarrow> removed_values b i) else None)"
  "i \<in> new_ids (merge_states a b) \<longleftrightarrow> (i \<in> new_ids a \<or> i \<in> new_ids b) \<and> removed_values b i = None"
  "old_next_id (merge_states a b) = old_next_id a" "state_revision (merge_states a b) = state_revision a"
  by (auto simp: merge_states_def Let_def split: option.splits)

lemma new_not_old:
  assumes "fits ks u t n" and "i \<in> new_ids u"
  shows "old_values u i = None"
  using fitsD(2) [OF assms] fitsD(4) [OF assms(1), of i] by (cases "old_values u i") auto

lemma merge_restores:
  assumes "fits ks b t n" and "fits ks a (restored b t) (old_next_id b)" and "bounded (restored b t) (old_next_id b)"
  shows "restored (merge_states a b) t = restored a (restored b t)"
proof
  fix i
  note d = restored_def [of "merge_states a b" t i] restored_def [of a "restored b t" i] merge_old_def
  show "restored (merge_states a b) t i = restored a (restored b t) i"
  proof (cases rule: merge_cases [OF assms, of i, case_names new upd del nop])
    case new
    then show ?thesis by (simp add: d merge_sel)
  next
    case (upd y w)
    then show ?thesis using new_not_old [OF assms(2), of i] by (cases "old_values a i") (simp_all add: d merge_sel)
  next
    case (del y)
    then show ?thesis using new_not_old [OF assms(2), of i] by (cases "old_values a i") (auto simp: d merge_sel)
  next
    case nop
    then show ?thesis by (simp add: d merge_sel split: option.splits)
  qed
qed

lemma merge_row:
  assumes "fits ks b t n" and A: "fits ks a (restored b t) (old_next_id b)" and "bounded (restored b t) (old_next_id b)"
  shows "i \<in> new_ids (merge_states a b) \<Longrightarrow> old_next_id a \<le> i \<and> t i \<noteq> None"
    and "old_values (merge_states a b) i = Some v \<Longrightarrow> i < old_next_id a \<and> alike_row ks v (t i)"
    and "removed_values (merge_states a b) i \<noteq> None \<Longrightarrow> i < old_next_id a \<and> t i = None"
    and "old_next_id a \<le> i \<Longrightarrow> t i \<noteq> None \<Longrightarrow> i \<in> new_ids (merge_states a b)"
proof -
  let ?m = "merge_states a b"
  note a = fitsD(2-8) [OF A, of i] and b = fitsD(2-8) [OF assms(1), of i] and le = fitsD(1) [OF A] fitsD(1) [OF assms(1)]
  have all: "(i \<in> new_ids ?m \<longrightarrow> old_next_id a \<le> i \<and> t i \<noteq> None)
      \<and> (\<forall>v. old_values ?m i = Some v \<longrightarrow> i < old_next_id a \<and> alike_row ks v (t i))
      \<and> (removed_values ?m i \<noteq> None \<longrightarrow> i < old_next_id a \<and> t i = None)
      \<and> (old_next_id a \<le> i \<longrightarrow> t i \<noteq> None \<longrightarrow> i \<in> new_ids ?m)"
  proof (cases rule: merge_cases [OF assms, of i, case_names new upd del nop])
    case new
    then show ?thesis using le b(1,2) by (simp add: merge_sel merge_old_def)
  next
    case (upd y w)
    have "i \<in> new_ids a \<or> i < old_next_id a" using a(7) upd by (meson leI)
    moreover have "alike ks v w" if "old_values a i = Some v" for v using a(4) [OF that] upd alike_trans by force
    ultimately show ?thesis
      using upd new_not_old [OF A, of i] a(1,3) by (cases "old_values a i") (auto simp: merge_sel merge_old_def)
  next
    case (del y)
    have "i \<in> new_ids a \<or> i < old_next_id a" using a(7) del by (meson leI)
    then show ?thesis
      using del new_not_old [OF A, of i] by (cases "old_values a i") (auto simp: merge_sel merge_old_def)
  next
    case nop
    then show ?thesis using a by (auto simp: merge_sel merge_old_def split: option.splits)
  qed
  then show "i \<in> new_ids ?m \<Longrightarrow> old_next_id a \<le> i \<and> t i \<noteq> None"
    "old_values ?m i = Some v \<Longrightarrow> i < old_next_id a \<and> alike_row ks v (t i)"
    "removed_values ?m i \<noteq> None \<Longrightarrow> i < old_next_id a \<and> t i = None"
    "old_next_id a \<le> i \<Longrightarrow> t i \<noteq> None \<Longrightarrow> i \<in> new_ids ?m" by blast+
qed

lemma merge_fits:
  assumes "fits ks b t n" and "fits ks a (restored b t) (old_next_id b)" and "bounded (restored b t) (old_next_id b)"
  shows "fits ks (merge_states a b) t n"
proof (rule fitsI)
  show "old_next_id (merge_states a b) \<le> n"
    using fitsD(1) [OF assms(1)] fitsD(1) [OF assms(2)] by (simp add: merge_sel(4))
qed (use merge_row [OF assms] in \<open>simp_all add: merge_sel(4)\<close>)

section \<open>Undo\<close>

lemma for_each_upto:
  assumes "\<And>k. k < n \<Longrightarrow> f k (T k) = Inr (T (Suc k))"
  shows "for_each f [0..<n] (T 0) = Inr (T n)"
  using assms by (induction n) (simp_all add: for_each_append)

text \<open>The table after the ids below \<open>k\<close> have been put back from a map of values.\<close>

definition put_back :: "(nat \<rightharpoonup> 'v) \<Rightarrow> (nat \<rightharpoonup> 'v) \<Rightarrow> nat \<Rightarrow> nat \<rightharpoonup> 'v" where
  "put_back m t k i = (if i < k \<and> m i \<noteq> None then m i else t i)"

lemma put_back_0 [simp]: "put_back m t 0 = t"
  by (auto simp: put_back_def)

lemma put_back_Suc: "put_back m t (Suc k) = (case m k of None \<Rightarrow> put_back m t k | Some v \<Rightarrow> (put_back m t k)(k \<mapsto> v))"
  by (auto simp: put_back_def fun_eq_iff less_Suc_eq split: option.splits)

lemma not_clashes:
  assumes "\<And>j w. j \<noteq> i \<Longrightarrow> t j = Some w \<Longrightarrow> \<not> clash ks v w"
  shows "\<not> clashes ks n t i v"
  using assms by (auto simp: clashes_def list_ex_iff split: option.splits)

text \<open>
  The two loops: putting old values back over rows with the same keys never clashes, and neither does putting
  removed rows back into a part of a table without clashes.
\<close>

lemma restore_old_loop:
  assumes "unique ks t" and "\<And>i v. olds i = Some v \<Longrightarrow> alike_row ks v (t i)"
  shows "for_each (restore_old ks n olds) [0..<n] t = Inr (put_back olds t n)"
proof -
  have row: "alike_row ks w (t j)" if "put_back olds t k j = Some w" for k j w
    using that assms(2) by (auto simp: put_back_def split: if_splits)
  have "restore_old ks n olds k (put_back olds t k) = Inr (put_back olds t (Suc k))" for k
  proof (cases "olds k")
    case (Some v)
    obtain x where x: "t k = Some x" "alike ks v x" using assms(2) [OF Some] by (cases "t k") auto
    have "\<not> clash ks v w" if j: "j \<noteq> k" "put_back olds t k j = Some w" for j w
    proof -
      obtain y where y: "t j = Some y" "alike ks w y" using row [OF j(2)] by (cases "t j") auto
      then show ?thesis using uniqueD [OF assms(1) j(1) [symmetric] x(1) y(1)] clash_alike [OF x(2) y(2)] by simp
    qed
    then have "\<not> clashes ks n (put_back olds t k) k v" by (rule not_clashes)
    with Some x show ?thesis by (simp add: restore_old_def put_back_Suc) (simp add: put_back_def)
  qed (simp add: restore_old_def put_back_Suc)
  from for_each_upto [where T = "put_back olds t" and f = "restore_old ks n olds", OF this] show ?thesis by simp
qed

lemma restore_removed_loop:
  assumes "unique ks (put_back removed t n)" and "\<And>i v. removed i = Some v \<Longrightarrow> t i = None"
  shows "for_each (restore_removed ks n removed) [0..<n] t = Inr (put_back removed t n)"
proof -
  have part: "put_back removed t n j = Some w" if "put_back removed t k j = Some w" "k \<le> n" for k j w
    using that assms(2) [of j] by (cases "removed j") (auto simp: put_back_def split: if_splits)
  have "restore_removed ks n removed k (put_back removed t k) = Inr (put_back removed t (Suc k))" if k: "k < n" for k
  proof (cases "removed k")
    case (Some v)
    have "\<not> clash ks v w" if j: "j \<noteq> k" "put_back removed t k j = Some w" for j w
    proof (rule uniqueD [OF assms(1) j(1) [symmetric] _ part [OF j(2)]])
      show "put_back removed t n k = Some v" using k Some by (simp add: put_back_def)
    qed (use k in simp)
    then have "\<not> clashes ks n (put_back removed t k) k v" by (rule not_clashes)
    with Some assms(2) show ?thesis by (simp add: restore_removed_def put_back_Suc) (simp add: put_back_def)
  qed (simp add: restore_removed_def put_back_Suc)
  from for_each_upto [where T = "put_back removed t" and f = "restore_removed ks n removed", OF this] show ?thesis by simp
qed

lemma restored_put_back:
  assumes "fits ks u t n"
  shows "restored u t = put_back (removed_values u) (put_back (old_values u) (\<lambda>i. if i \<in> new_ids u then None else t i)
    (old_next_id u)) (old_next_id u)"
proof
  fix i
  show "restored u t i = put_back (removed_values u) (put_back (old_values u) (\<lambda>i. if i \<in> new_ids u then None else t i)
    (old_next_id u)) (old_next_id u) i"
    using fitsD(4,6) [OF assms, of i] new_not_old [OF assms, of i]
    by (cases "removed_values u i"; cases "old_values u i") (auto simp: restored_def put_back_def)
qed

lemma undo_exact:
  assumes "good_stack ks (u # us) (indices s) (next_id s)" and "undo_stack s = u # us"
  shows "undo ks s = Inr (s\<lparr>indices := restored u (indices s), next_id := old_next_id u, undo_stack := us,
    index_revision := index_revision s - 1\<rparr>)"
proof -
  let ?t = "\<lambda>i. if i \<in> new_ids u then None else indices s i" and ?n = "old_next_id u"
  have F: "fits ks u (indices s) (next_id s)" and U: "unique ks (indices s)" "unique ks (restored u (indices s))"
    using assms(1) goodD(2) by auto
  have "unique ks ?t" using U(1) unfolding unique_def by (meson option.distinct(1))
  moreover have "alike_row ks v (?t i)" if "old_values u i = Some v" for i v
    using fitsD(5) [OF F that] new_not_old [OF F, of i] that by auto
  ultimately have old: "for_each (restore_old ks ?n (old_values u)) [0..<?n] ?t = Inr (put_back (old_values u) ?t ?n)"
    by (rule restore_old_loop)
  have "put_back (old_values u) ?t ?n i = None" if "removed_values u i = Some v" for i v
    using fitsD(7) [OF F that] fitsD(5) [OF F, of i] by (cases "old_values u i") (auto simp: put_back_def)
  then have "for_each (restore_removed ks ?n (removed_values u)) [0..<?n] (put_back (old_values u) ?t ?n)
      = Inr (restored u (indices s))"
    unfolding restored_put_back [OF F] by (rule restore_removed_loop [OF U(2) [unfolded restored_put_back [OF F]]])
  with old show ?thesis by (simp add: undo_def assms(2) Let_def)
qed

section \<open>The abstract index\<close>

text \<open>
  What the index stands for: its rows, the next id, the revision, and one saved copy of rows and next id for
  each open session, the latest first.
\<close>

record 'v saved_index =
  rows :: "nat \<rightharpoonup> 'v"
  next_row :: nat
  current_revision :: int
  saved :: "((nat \<rightharpoonup> 'v) \<times> nat \<times> int) list"

definition abs_index :: "'v generic_index \<Rightarrow> 'v saved_index" where
  "abs_index s = \<lparr>rows = indices s, next_row = next_id s, current_revision = index_revision s,
     saved = snapshots (undo_stack s) (indices s)\<rparr>"

datatype 'v index_op =
    Emplace 'v
  | Modify nat "'v \<Rightarrow> 'v"
  | Remove nat
  | Remove_Object nat
  | Start bool
  | Undo
  | Squash
  | Commit int
  | Undo_All
  | Set_Revision u64

fun index_call :: "('v \<Rightarrow> 'c) list \<Rightarrow> 'v index_op \<Rightarrow> 'v generic_index \<Rightarrow> 'v generic_index indexed" where
  "index_call ks (Emplace v) s = bind_res (emplace ks v s) (\<lambda>(i, s). Inr s)"
| "index_call ks (Modify i m) s = modify ks i m s"
| "index_call ks (Remove i) s = remove i s"
| "index_call ks (Remove_Object i) s = remove_object i s"
| "index_call ks (Start enabled) s = Inr (snd (start_undo_session enabled s))"
| "index_call ks Undo s = undo ks s"
| "index_call ks Squash s = Inr (squash s)"
| "index_call ks (Commit r) s = Inr (commit r s)"
| "index_call ks Undo_All s = undo_all ks s"
| "index_call ks (Set_Revision r) s = set_revision r s"

fun saved_call :: "('v \<Rightarrow> 'c) list \<Rightarrow> 'v index_op \<Rightarrow> 'v saved_index \<Rightarrow> 'v saved_index indexed" where
  "saved_call ks (Emplace v) a =
     (if clashes ks (next_row a) (rows a) (next_row a) v then Inl uniqueness_violation
      else Inr (a\<lparr>rows := (rows a)(next_row a \<mapsto> v), next_row := Suc (next_row a)\<rparr>))"
| "saved_call ks (Modify i m) a =
     (case rows a i of None \<Rightarrow> Inl stale_iterator
      | Some v \<Rightarrow> if clashes ks (next_row a) (rows a) i (m v) then Inl aborted else Inr (a\<lparr>rows := (rows a)(i \<mapsto> m v)\<rparr>))"
| "saved_call ks (Remove i) a = (if rows a i = None then Inl stale_iterator else Inr (a\<lparr>rows := table_erase (rows a) i\<rparr>))"
| "saved_call ks (Remove_Object i) a = (if rows a i = None then Inl out_of_range else Inr (a\<lparr>rows := table_erase (rows a) i\<rparr>))"
| "saved_call ks (Start enabled) a =
     Inr (if enabled then a\<lparr>current_revision := current_revision a + 1, saved := (rows a, next_row a, current_revision a + 1) # saved a\<rparr> else a)"
| "saved_call ks Undo a =
     Inr (case saved a of [] \<Rightarrow> a
          | (t, n, r) # rest \<Rightarrow> a\<lparr>rows := t, next_row := n, current_revision := current_revision a - 1, saved := rest\<rparr>)"
| "saved_call ks Squash a =
     Inr (case saved a of [] \<Rightarrow> a | _ # rest \<Rightarrow> a\<lparr>current_revision := current_revision a - 1, saved := rest\<rparr>)"
| "saved_call ks (Commit r) a = Inr (a\<lparr>saved := rev (dropWhile (\<lambda>(t, n, q). q \<le> r) (rev (saved a)))\<rparr>)"
| "saved_call ks Undo_All a =
     Inr (if saved a = [] then a
          else let (t, n, r) = last (saved a)
               in a\<lparr>rows := t, next_row := n, current_revision := current_revision a - int (length (saved a)), saved := []\<rparr>)"
| "saved_call ks (Set_Revision r) a =
     (if saved a \<noteq> [] then Inl undo_stack_exists
      else if uint r > 2 ^ 63 - 1 then Inl revision_too_high else Inr (a\<lparr>current_revision := uint r\<rparr>))"

text \<open>
  The precondition of \<open>modify\<close>, in a form one can check: within a session the modifier keeps the unique keys
  of a row, unless the session created the row.
\<close>

fun allowed :: "('v \<Rightarrow> 'c) list \<Rightarrow> 'v index_op \<Rightarrow> 'v generic_index \<Rightarrow> bool" where
  "allowed ks (Modify i m) s =
     (case undo_stack s of [] \<Rightarrow> True
      | u # us \<Rightarrow> i \<in> new_ids u \<or> (case indices s i of None \<Rightarrow> True | Some v \<Rightarrow> alike ks v (m v)))"
| "allowed ks _ s = True"

definition index_ok :: "('v \<Rightarrow> 'c) list \<Rightarrow> 'v generic_index \<Rightarrow> bool" where
  "index_ok ks s \<longleftrightarrow> good_stack ks (undo_stack s) (indices s) (next_id s) \<and> int (length (undo_stack s)) \<le> index_revision s"

text \<open>A call implements its specification: the same result, and the invariant afterwards.\<close>

definition implements :: "('v \<Rightarrow> 'c) list \<Rightarrow> 'v saved_index indexed \<Rightarrow> 'v generic_index indexed \<Rightarrow> bool" where
  "implements ks spec r = (case r of Inl e \<Rightarrow> spec = Inl e | Inr s \<Rightarrow> spec = Inr (abs_index s) \<and> index_ok ks s)"

lemma implements_Inl [simp]: "implements ks spec (Inl e) \<longleftrightarrow> spec = Inl e"
  by (simp add: implements_def)

lemma implements_Inr [simp]: "implements ks spec (Inr s) \<longleftrightarrow> spec = Inr (abs_index s) \<and> index_ok ks s"
  by (simp add: implements_def)

lemma length_on_head [simp]: "length (on_head f us) = length us"
  by (simp add: on_head_def split: list.splits)

lemma abs_index_sel [simp]:
  "rows (abs_index s) = indices s" "next_row (abs_index s) = next_id s" "current_revision (abs_index s) = index_revision s"
  "saved (abs_index s) = snapshots (undo_stack s) (indices s)"
  by (simp_all add: abs_index_def)

lemma length_snapshots [simp]: "length (snapshots us t) = length us"
  by (induction us arbitrary: t) simp_all

lemma snapshots_Nil [simp]: "snapshots us t = [] \<longleftrightarrow> us = []"
  by (cases us) simp_all

lemma bounded_upd: "bounded t n \<Longrightarrow> bounded (t(n \<mapsto> v)) (Suc n)"
  by (auto simp: bounded_def less_Suc_eq)

lemma bounded_same: "bounded t n \<Longrightarrow> t i \<noteq> None \<Longrightarrow> bounded (t(i := x)) n"
  by (auto simp: bounded_def)

lemma row_change:
  assumes "index_ok ks s" and "bounded t' n'" and "unique ks t'"
    and "\<And>u rest. undo_stack s = u # rest \<Longrightarrow> fits ks (f u) t' n' \<and> restored (f u) t' = restored u (indices s)
      \<and> old_next_id (f u) = old_next_id u \<and> state_revision (f u) = state_revision u"
  shows "index_ok ks (s\<lparr>indices := t', next_id := n', undo_stack := on_head f (undo_stack s)\<rparr>)
    \<and> snapshots (on_head f (undo_stack s)) t' = snapshots (undo_stack s) (indices s)"
  using change_head [where us = "undo_stack s" and t = "indices s" and n = "next_id s", OF _ assms(2-4)] assms(1)
  by (simp add: index_ok_def)

lemma emplace_implements:
  assumes "index_ok ks s"
  shows "implements ks (saved_call ks (Emplace v) (abs_index s)) (index_call ks (Emplace v) s)"
proof (cases "clashes ks (next_id s) (indices s) (next_id s) v")
  case False
  have g: "bounded (indices s) (next_id s)" "unique ks (indices s)" using assms goodD by (auto simp: index_ok_def)
  have "index_ok ks (s\<lparr>indices := (indices s)(next_id s \<mapsto> v), next_id := Suc (next_id s), undo_stack := on_head (on_create (next_id s)) (undo_stack s)\<rparr>)
      \<and> snapshots (on_head (on_create (next_id s)) (undo_stack s)) ((indices s)(next_id s \<mapsto> v)) = snapshots (undo_stack s) (indices s)"
    using assms g create_fits
    by (intro row_change [OF assms bounded_upd [OF g(1)] unique_upd [OF g(2) False g(1)]])
      (auto simp: index_ok_def on_create_def)
  with False show ?thesis by (simp add: emplace_def Let_def abs_index_def)
qed (simp add: emplace_def Let_def)

lemma modify_implements:
  assumes "index_ok ks s" and "allowed ks (Modify i m) s"
  shows "implements ks (saved_call ks (Modify i m) (abs_index s)) (index_call ks (Modify i m) s)"
proof (cases "indices s i")
  case (Some v)
  have g: "bounded (indices s) (next_id s)" "unique ks (indices s)" using assms(1) goodD by (auto simp: index_ok_def)
  show ?thesis
  proof (cases "clashes ks (next_id s) (indices s) i (m v)")
    case False
    have "index_ok ks (s\<lparr>indices := (indices s)(i \<mapsto> m v), next_id := next_id s, undo_stack := on_head (on_modify i v) (undo_stack s)\<rparr>)
        \<and> snapshots (on_head (on_modify i v) (undo_stack s)) ((indices s)(i \<mapsto> m v)) = snapshots (undo_stack s) (indices s)"
    proof (intro row_change [OF assms(1) bounded_same [OF g(1)] unique_upd [OF g(2) False g(1)]])
      fix u rest
      assume u: "undo_stack s = u # rest"
      then have "fits ks u (indices s) (next_id s)" "alike ks v (m v) \<or> i \<in> new_ids u"
        using assms Some by (auto simp: index_ok_def)
      from modify_fits [OF this(1) Some this(2)]
      show "fits ks (on_modify i v u) ((indices s)(i \<mapsto> m v)) (next_id s)
        \<and> restored (on_modify i v u) ((indices s)(i \<mapsto> m v)) = restored u (indices s)
        \<and> old_next_id (on_modify i v u) = old_next_id u \<and> state_revision (on_modify i v u) = state_revision u"
        by (simp add: on_modify_def)
    qed (simp add: Some)
    with False Some show ?thesis by (simp add: modify_def abs_index_def)
  qed (simp add: modify_def Some)
qed (simp add: modify_def)

lemma remove_ok:
  assumes "index_ok ks s" and "indices s i = Some v"
  shows "implements ks (Inr ((abs_index s)\<lparr>rows := table_erase (indices s) i\<rparr>)) (remove i s)"
proof -
  have g: "bounded (indices s) (next_id s)" "unique ks (indices s)" using assms(1) goodD by (auto simp: index_ok_def)
  have "bounded (table_erase (indices s) i) (next_id s)" using g(1) by (auto simp: bounded_def)
  moreover have "fits ks (on_remove i v u) (table_erase (indices s) i) (next_id s)
      \<and> restored (on_remove i v u) (table_erase (indices s) i) = restored u (indices s)
      \<and> old_next_id (on_remove i v u) = old_next_id u \<and> state_revision (on_remove i v u) = state_revision u"
    if "undo_stack s = u # rest" for u rest
    using remove_fits [where u = u and t = "indices s" and i = i and v = v and n = "next_id s", OF _ assms(2)] assms(1) that
    by (auto simp: index_ok_def on_remove_def split: option.splits)
  ultimately have "index_ok ks (s\<lparr>indices := table_erase (indices s) i, next_id := next_id s, undo_stack := on_head (on_remove i v) (undo_stack s)\<rparr>)
      \<and> snapshots (on_head (on_remove i v) (undo_stack s)) (table_erase (indices s) i) = snapshots (undo_stack s) (indices s)"
    by (intro row_change [OF assms(1) _ unique_erase [OF g(2)]]) blast+
  then show ?thesis using assms(2) by (simp add: remove_def abs_index_def)
qed

text \<open>The next state of the stack, for the operations on sessions.\<close>

lemma fits_start:
  "bounded t n \<Longrightarrow> fits ks \<lparr>old_values = Map.empty, removed_values = Map.empty, new_ids = {}, old_next_id = n, state_revision = r\<rparr> t n"
  by (auto simp: fits_def bounded_def)

lemma restored_start:
  "restored \<lparr>old_values = Map.empty, removed_values = Map.empty, new_ids = {}, old_next_id = n, state_revision = r\<rparr> t = t"
  by (simp add: restored_def fun_eq_iff)

lemma start_implements:
  assumes "index_ok ks s"
  shows "implements ks (saved_call ks (Start enabled) (abs_index s)) (index_call ks (Start enabled) s)"
  using assms goodD [of ks "undo_stack s" "indices s" "next_id s"]
  by (simp add: start_undo_session_def index_ok_def abs_index_def fits_start restored_start Let_def)

lemma undo_implements:
  assumes "index_ok ks s"
  shows "implements ks (saved_call ks Undo (abs_index s)) (undo ks s)"
proof (cases "undo_stack s")
  case Nil
  with assms show ?thesis by (simp add: undo_def)
next
  case (Cons u us)
  with assms have "good_stack ks (u # us) (indices s) (next_id s)" by (simp add: index_ok_def)
  from undo_exact [OF this Cons] this Cons assms show ?thesis by (simp add: index_ok_def abs_index_def)
qed

lemma squash_implements:
  assumes "index_ok ks s"
  shows "implements ks (saved_call ks Squash (abs_index s)) (Inr (squash s))"
proof (cases "undo_stack s" rule: remdups_adj.cases)
  case 1
  with assms show ?thesis by (simp add: squash_def)
next
  case (2 u)
  with assms show ?thesis by (simp add: squash_def abs_index_def index_ok_def)
next
  case (3 b a us)
  with assms have g: "good_stack ks (b # a # us) (indices s) (next_id s)" by (simp add: index_ok_def)
  then have f: "fits ks b (indices s) (next_id s)" "fits ks a (restored b (indices s)) (old_next_id b)"
    "bounded (restored b (indices s)) (old_next_id b)" by simp_all
  from merge_restores [OF f] merge_fits [OF f] g 3 assms show ?thesis
    by (simp add: squash_def abs_index_def index_ok_def merge_sel(4,5))
qed

lemma good_stack_front: "good_stack ks (us @ vs) t n \<Longrightarrow> good_stack ks us t n"
  by (induction us arbitrary: t n) (auto dest: goodD)

lemma snapshots_append: "\<exists>t'. snapshots (us @ vs) t = snapshots us t @ snapshots vs t'"
  by (induction us arbitrary: t) auto

lemma snapshots_drop:
  "rev (dropWhile (\<lambda>(t, n, q). q \<le> r) (rev (snapshots us t))) = snapshots (rev (dropWhile (\<lambda>u. state_revision u \<le> r) (rev us))) t"
proof (induction us rule: rev_induct)
  case (snoc u us)
  obtain t' where "snapshots (us @ [u]) t = snapshots us t @ snapshots [u] t'" using snapshots_append by blast
  with snoc show ?case by simp
qed simp

lemma commit_implements:
  assumes "index_ok ks s"
  shows "implements ks (saved_call ks (Commit r) (abs_index s)) (Inr (commit r s))"
proof -
  let ?us = "rev (dropWhile (\<lambda>u. state_revision u \<le> r) (rev (undo_stack s)))"
  have "undo_stack s = ?us @ rev (takeWhile (\<lambda>u. state_revision u \<le> r) (rev (undo_stack s)))"
    by (metis rev_append rev_rev_ident takeWhile_dropWhile_id)
  then have "good_stack ks ?us (indices s) (next_id s)" and "length ?us \<le> length (undo_stack s)"
    using assms good_stack_front unfolding index_ok_def by (metis, metis length_dropWhile_le length_rev)
  then show ?thesis using assms by (simp add: commit_def abs_index_def index_ok_def snapshots_drop)
qed

lemma undo_loop_implements:
  assumes "index_ok ks s" and "length (undo_stack s) = n"
  shows "implements ks (saved_call ks Undo_All (abs_index s)) (undo_loop ks n s)"
  using assms
proof (induction n arbitrary: s)
  case 0
  then show ?case by simp
next
  case (Suc n)
  then obtain u us where us: "undo_stack s = u # us" by (cases "undo_stack s") auto
  with Suc.prems have g: "good_stack ks (u # us) (indices s) (next_id s)" by (simp add: index_ok_def)
  let ?s = "s\<lparr>indices := restored u (indices s), next_id := old_next_id u, undo_stack := us, index_revision := index_revision s - 1\<rparr>"
  have "index_ok ks ?s" "length (undo_stack ?s) = n" using Suc.prems us g by (simp_all add: index_ok_def)
  from Suc.IH [OF this] undo_exact [OF g us] us
  show ?case by (cases us) (simp_all add: abs_index_def Let_def algebra_simps split: prod.splits if_splits)
qed

lemma set_revision_implements:
  assumes "index_ok ks s"
  shows "implements ks (saved_call ks (Set_Revision r) (abs_index s)) (set_revision r s)"
  using assms by (auto simp: set_revision_def check_def index_ok_def abs_index_def)

lemma index_call_implements:
  assumes "index_ok ks s" and "allowed ks op s"
  shows "implements ks (saved_call ks op (abs_index s)) (index_call ks op s)"
proof (cases op)
  case (Remove i)
  then show ?thesis using remove_ok [OF assms(1), of i] by (cases "indices s i") (simp_all add: remove_def)
next
  case (Remove_Object i)
  then show ?thesis using remove_ok [OF assms(1), of i] by (cases "indices s i") (simp_all add: remove_object_def)
next
  case Undo_All
  then show ?thesis using undo_loop_implements [OF assms(1)] by (simp add: undo_all_def)
qed (use assms emplace_implements [OF assms(1)] modify_implements [OF assms(1)] start_implements [OF assms(1)] undo_implements [OF assms(1)]
      squash_implements [OF assms(1)] commit_implements [OF assms(1)] set_revision_implements [OF assms(1)] in
    \<open>simp_all del: saved_call.simps\<close>)

text \<open>
  C16: The index implements saved copies. On an index that satisfies the invariant, every operation returns
  exactly what the specification returns on the saved copies it stands for, errors included, and keeps the invariant:
  creating, changing and removing rows leaves the saved copies alone, \<open>undo\<close> takes the latest one back without ever
  aborting, \<open>squash\<close> forgets it, \<open>commit\<close> forgets the oldest and \<open>undo_all\<close> ends at the oldest. The
  only condition is that of \<open>modify\<close>: within a session the unique keys of an older row stay.
\<close>

theorem chainbase_refines:
  fixes s :: "'v generic_index"
  assumes "index_ok ks s" and "allowed ks op s"
  shows "(case index_call ks op s of
            Inl e \<Rightarrow> saved_call ks op (abs_index s) = Inl e
          | Inr s' \<Rightarrow> saved_call ks op (abs_index s) = Inr (abs_index s') \<and> index_ok ks s')
    \<and> index_ok ks (empty_index :: 'v generic_index)"
  using index_call_implements [OF assms] unfolding implements_def
  by (auto simp: index_ok_def empty_index_def bounded_def unique_def split: sum.splits)

section \<open>Nested sessions\<close>

text \<open>
  What runs within a session: allowed changes of rows, and nested sessions that end by \<open>squash\<close> or by
  \<open>undo\<close>, as the session object does at the end of its scope.
\<close>

fun row_op :: "'v index_op \<Rightarrow> bool" where
  "row_op (Emplace v) = True"
| "row_op (Modify i m) = True"
| "row_op (Remove i) = True"
| "row_op (Remove_Object i) = True"
| "row_op _ = False"

inductive session_run :: "('v \<Rightarrow> 'c) list \<Rightarrow> 'v generic_index \<Rightarrow> 'v generic_index \<Rightarrow> bool" for ks where
  session_idle: "session_run ks s s"
| session_row: "session_run ks s s' \<Longrightarrow> row_op op \<Longrightarrow> allowed ks op s' \<Longrightarrow> index_call ks op s' = Inr s'' \<Longrightarrow> session_run ks s s''"
| session_merged: "session_run ks s s' \<Longrightarrow> start_undo_session True s' = (r, t) \<Longrightarrow> session_run ks t t' \<Longrightarrow>
    session_squash (make_session r) t' = (w, s'') \<Longrightarrow> session_run ks s s''"
| session_undone: "session_run ks s s' \<Longrightarrow> start_undo_session True s' = (r, t) \<Longrightarrow> session_run ks t t' \<Longrightarrow>
    session_undo ks (make_session r) t' = Inr (w, s'') \<Longrightarrow> session_run ks s s''"

text \<open>Within a session the states below the latest and all the saved copies stay.\<close>

definition same_session :: "('v \<Rightarrow> 'c) list \<Rightarrow> 'v generic_index \<Rightarrow> 'v generic_index \<Rightarrow> bool" where
  "same_session ks s s' \<longleftrightarrow> index_ok ks s' \<and> undo_stack s' \<noteq> [] \<and> tl (undo_stack s') = tl (undo_stack s)
     \<and> snapshots (undo_stack s') (indices s') = snapshots (undo_stack s) (indices s) \<and> index_revision s' = index_revision s"

lemma implements_Inr_D: "implements ks spec r \<Longrightarrow> r = Inr s \<Longrightarrow> spec = Inr (abs_index s) \<and> index_ok ks s"
  by simp

lemma tl_on_head [simp]: "tl (on_head f us) = tl us" "on_head f us = [] \<longleftrightarrow> us = []"
  by (simp_all add: on_head_def split: list.splits)

lemma row_op_stack:
  assumes "row_op op" and "index_call ks op s = Inr s'"
  shows "tl (undo_stack s') = tl (undo_stack s) \<and> (undo_stack s' = [] \<longleftrightarrow> undo_stack s = [])"
  using assms
  by (cases op) (auto simp: emplace_def modify_def remove_def remove_object_def Let_def bind_res_Inr_iff check_Inr_iff split: if_splits)

lemma row_op_spec:
  assumes "row_op op" and "saved_call ks op a = Inr a'"
  shows "saved a' = saved a \<and> current_revision a' = current_revision a"
  using assms by (cases op) (auto split: if_splits option.splits)

lemma row_op_same:
  assumes "row_op op" and "allowed ks op s" and "index_call ks op s = Inr s'" and "index_ok ks s" and "undo_stack s \<noteq> []"
  shows "same_session ks s s'"
proof -
  from implements_Inr_D [OF index_call_implements [OF assms(4,2)] assms(3)]
  have spec: "saved_call ks op (abs_index s) = Inr (abs_index s')" and ok: "index_ok ks s'" by auto
  show ?thesis
    using row_op_spec [OF assms(1) spec] row_op_stack [OF assms(1,3)] ok assms(5) by (simp add: same_session_def)
qed

lemma same_session_trans: "same_session ks s t \<Longrightarrow> same_session ks t u \<Longrightarrow> same_session ks s u"
  by (simp add: same_session_def)

text \<open>A session that was started, has run and ends leaves the states below its own.\<close>

lemma started:
  assumes "start_undo_session True s = (r, t)" and "index_ok ks s"
  shows "index_ok ks t" and "undo_stack t \<noteq> []" and "tl (undo_stack t) = undo_stack s"
    and "snapshots (undo_stack t) (indices t) = (indices s, next_id s, r) # snapshots (undo_stack s) (indices s)"
    and "index_revision t = index_revision s + 1" and "session_apply (make_session r)"
proof -
  have t: "index_call ks (Start True) s = Inr t" and r: "r = index_revision s + 1"
    using assms(1) by (auto simp: start_undo_session_def Let_def)
  from implements_Inr_D [OF start_implements [OF assms(2)] t]
  show "index_ok ks t" "snapshots (undo_stack t) (indices t) = (indices s, next_id s, r) # snapshots (undo_stack s) (indices s)"
    "index_revision t = index_revision s + 1" by (auto simp: abs_index_def r)
  show "undo_stack t \<noteq> []" "tl (undo_stack t) = undo_stack s" using assms(1) by (auto simp: start_undo_session_def Let_def)
  show "session_apply (make_session r)" using assms(2) by (simp add: make_session_def r index_ok_def)
qed

lemma ended_by_undo:
  assumes "start_undo_session True s = (r, t)" and "index_ok ks s" and "same_session ks t t'"
  shows "undo ks t' = Inr s"
proof -
  note st = started [OF assms(1,2)]
  obtain u where u: "undo_stack t' = u # undo_stack s"
    using assms(3) st(3) by (cases "undo_stack t'") (auto simp: same_session_def)
  have "good_stack ks (u # undo_stack s) (indices t') (next_id t')"
    using assms(3) u by (auto simp: same_session_def index_ok_def)
  from undo_exact [OF this u] u assms(3) st(4,5) show ?thesis by (simp add: same_session_def)
qed

lemma ended_by_squash:
  assumes "start_undo_session True s = (r, t)" and "index_ok ks s" and "same_session ks t t'" and "undo_stack s \<noteq> []"
  shows "same_session ks s (squash t')"
proof -
  note st = started [OF assms(1,2)]
  obtain u v us where u: "undo_stack t' = u # v # us" "undo_stack s = v # us"
    using assms(3,4) st(3) by (cases "undo_stack t'"; cases "undo_stack s") (auto simp: same_session_def)
  have ok: "index_ok ks t'" using assms(3) by (simp add: same_session_def)
  from implements_Inr_D [OF squash_implements [OF ok] refl]
  have "index_ok ks (squash t')" "snapshots (undo_stack (squash t')) (indices (squash t')) = tl (snapshots (undo_stack t') (indices t'))"
    using u by (auto simp: abs_index_def)
  moreover have "undo_stack (squash t') = merge_states v u # us" "index_revision (squash t') = index_revision t' - 1"
    using u by (simp_all add: squash_def)
  ultimately show ?thesis using assms(3) st u by (simp add: same_session_def)
qed

lemma session_run_same:
  assumes "session_run ks s s'" and "index_ok ks s" and "undo_stack s \<noteq> []"
  shows "same_session ks s s'"
  using assms
proof (induction rule: session_run.induct)
  case (session_idle s)
  then show ?case by (simp add: same_session_def)
next
  case (session_row s s' op s'')
  then have "same_session ks s s'" by simp
  with row_op_same [OF session_row.hyps(2-4)] same_session_trans show ?case by (auto simp: same_session_def)
next
  case (session_merged s s' r t t' w s'')
  then have s': "same_session ks s s'" by simp
  then have ok: "index_ok ks s'" "undo_stack s' \<noteq> []" by (simp_all add: same_session_def)
  note st = started [OF session_merged.hyps(2) ok(1)]
  have "same_session ks t t'" using session_merged.IH(2) st by simp
  from ended_by_squash [OF session_merged.hyps(2) ok(1) this ok(2)] session_merged.hyps(4) st(6)
  show ?case using same_session_trans [OF s'] by (auto simp: session_squash_def)
next
  case (session_undone s s' r t t' w s'')
  then have s': "same_session ks s s'" by simp
  then have ok: "index_ok ks s'" by (simp add: same_session_def)
  note st = started [OF session_undone.hyps(2) ok]
  have "same_session ks t t'" using session_undone.IH(2) st by simp
  from ended_by_undo [OF session_undone.hyps(2) ok this] session_undone.hyps(4) st(6) s'
  show ?case by (simp add: session_undo_def)
qed

text \<open>
  C5: Undo gives everything back. Start a session on an index that satisfies the invariant, let it create, change
  and remove rows and open further sessions to any depth, each ended by \<open>squash\<close> or by \<open>undo\<close>: the
  session object that is undone then leaves exactly the index from before the start, rows, next id, revision
  and undo stack, and never aborts.
\<close>

theorem undo_restores:
  assumes "index_ok ks s" and "start_undo_session True s = (r, t)" and "session_run ks t t'"
  shows "session_undo ks (make_session r) t' = Inr (session_push (make_session r), s)"
proof -
  note st = started [OF assms(2,1)]
  have "undo ks t' = Inr s"
    using ended_by_undo [OF assms(2,1) session_run_same [OF assms(3) st(1,2)]] .
  then show ?thesis using st(6) by (simp add: session_undo_def session_push_def)
qed

section \<open>A run\<close>

text \<open>
  Rows with a key and a value; one row, and a session that creates a row, changes the first one in a nested
  session that is merged, and removes it.
\<close>

definition demo_index :: "(nat \<times> nat) generic_index" where
  "demo_index = \<lparr>indices = [0 \<mapsto> (1, 2)], next_id = 1, undo_stack = [], index_revision = 0\<rparr>"

definition demo_step :: "(nat \<times> nat) index_op \<Rightarrow> (nat \<times> nat) generic_index \<Rightarrow> (nat \<times> nat) generic_index" where
  "demo_step op s = (case index_call [fst] op s of Inr s' \<Rightarrow> s' | Inl e \<Rightarrow> s)"

definition demo_started :: "(nat \<times> nat) generic_index" where
  "demo_started = snd (start_undo_session True demo_index)"

definition demo_grown :: "(nat \<times> nat) generic_index" where
  "demo_grown = demo_step (Emplace (3, 4)) demo_started"

definition demo_nested :: "(nat \<times> nat) generic_index" where
  "demo_nested = demo_step (Modify 0 (\<lambda>v. (fst v, 7))) (snd (start_undo_session True demo_grown))"

definition demo_ended :: "(nat \<times> nat) generic_index" where
  "demo_ended = demo_step (Remove 0) (squash demo_nested)"

lemmas demo_unfold = demo_step_def emplace_def modify_def remove_def on_head_def on_create_def on_modify_def on_remove_def
  start_undo_session_def clashes_def clash_def squash_def merge_states_def merge_old_def Let_def

lemma demo_index_ok: "index_ok [fst] demo_index"
  by (auto simp: index_ok_def demo_index_def bounded_def unique_def split: if_splits)

lemma demo_started_eq:
  "demo_started = \<lparr>indices = [0 \<mapsto> (1, 2)], next_id = 1, undo_stack = [\<lparr>old_values = Map.empty, removed_values = Map.empty, new_ids = {},
     old_next_id = 1, state_revision = 1\<rparr>], index_revision = 1\<rparr>"
  by (simp add: demo_started_def demo_index_def demo_unfold)

lemma demo_grown_eq:
  "demo_grown = \<lparr>indices = [0 \<mapsto> (1, 2), 1 \<mapsto> (3, 4)], next_id = 2, undo_stack = [\<lparr>old_values = Map.empty, removed_values = Map.empty,
     new_ids = {1}, old_next_id = 1, state_revision = 1\<rparr>], index_revision = 1\<rparr>"
  by (simp add: demo_grown_def demo_started_eq demo_unfold upt_rec)

lemma demo_nested_eq:
  "demo_nested = \<lparr>indices = [0 \<mapsto> (1, 7), 1 \<mapsto> (3, 4)], next_id = 2, undo_stack = [\<lparr>old_values = [0 \<mapsto> (1, 2)], removed_values = Map.empty,
     new_ids = {}, old_next_id = 2, state_revision = 2\<rparr>, \<lparr>old_values = Map.empty, removed_values = Map.empty,
     new_ids = {1}, old_next_id = 1, state_revision = 1\<rparr>], index_revision = 2\<rparr>"
  by (simp add: demo_nested_def demo_grown_eq demo_unfold upt_rec numeral_2_eq_2 fun_upd_twist)

lemma demo_session_run: "session_run [fst] demo_started demo_ended"
proof -
  have created: "session_run [fst] demo_started demo_grown"
    by (rule session_row [OF session_idle, where op = "Emplace (3, 4)"])
      (simp_all add: demo_grown_def demo_started_eq demo_unfold upt_rec)
  have nested: "session_run [fst] (snd (start_undo_session True demo_grown)) demo_nested"
    by (rule session_row [OF session_idle, where op = "Modify 0 (\<lambda>v. (fst v, 7))"])
      (simp_all add: demo_nested_def demo_grown_eq demo_unfold upt_rec numeral_2_eq_2 alike_def)
  have "session_run [fst] demo_started (squash demo_nested)"
    by (rule session_merged [OF created _ nested, where r = 2])
      (simp_all add: demo_grown_eq session_squash_def make_session_def start_undo_session_def Let_def)
  then show ?thesis
    by (rule session_row [where op = "Remove 0"])
      (simp_all add: demo_ended_def demo_nested_eq demo_unfold)
qed

theorem undo_restores_witness:
  "index_ok [fst] demo_index \<and> start_undo_session True demo_index = (1, demo_started) \<and> session_run [fst] demo_started demo_ended
   \<and> indices demo_ended = [1 \<mapsto> (3, 4)]
   \<and> session_undo [fst] (make_session 1) demo_ended = Inr (session_push (make_session 1), demo_index)"
proof -
  have st: "start_undo_session True demo_index = (1, demo_started)"
    by (simp add: demo_started_def demo_index_def start_undo_session_def Let_def)
  have "indices demo_ended = [1 \<mapsto> (3, 4)]"
    by (auto simp: demo_ended_def demo_nested_eq demo_unfold fun_eq_iff)
  with undo_restores [OF demo_index_ok st demo_session_run] demo_index_ok st demo_session_run show ?thesis by blast
qed

theorem chainbase_refines_witness:
  "index_ok [fst] demo_started \<and> allowed [fst] (Modify 0 (\<lambda>v. (fst v, 7))) demo_started
   \<and> saved_call [fst] (Modify 0 (\<lambda>v. (fst v, 7))) (abs_index demo_started)
      = Inr (abs_index (demo_step (Modify 0 (\<lambda>v. (fst v, 7))) demo_started))"
proof -
  have ok: "index_ok [fst] demo_started"
    using started(1) [of demo_index 1 demo_started "[fst]"] demo_index_ok
    by (simp add: demo_started_def demo_index_def start_undo_session_def Let_def)
  moreover have op: "allowed [fst] (Modify 0 (\<lambda>v. (fst v, 7))) demo_started" by (simp add: demo_started_eq alike_def)
  moreover have "index_call [fst] (Modify 0 (\<lambda>v. (fst v, 7))) demo_started = Inr (demo_step (Modify 0 (\<lambda>v. (fst v, 7))) demo_started)"
    by (simp add: demo_started_eq demo_unfold upt_rec)
  ultimately show ?thesis
    using conjunct1 [OF chainbase_refines [OF ok op]] by (simp only: sum.case)
qed

end
