(* ===== verification/Block_Header_State.thy ===== *)
theory Block_Header_State
  imports Merkle Name_Type
begin

text \<open>
  The chain of block headers (\<open>libraries/chain/block_header_state.cpp\<close> with \<open>block_header.cpp\<close>,
  \<open>producer_schedule.hpp\<close>, \<open>block_timestamp.hpp\<close> and \<open>protocol_feature_activation.cpp\<close>): which producer may sign the
  next block, how confirmations make blocks irreversible, how a new schedule takes over, and which headers are
  accepted. Hash functions, signature recovery and the unpacking of extension data are done by library code and are
  the fields of \<open>header_env\<close>. A block timestamp is its slot number.
\<close>

section \<open>Data\<close>

type_synonym block_id_type = digest_type

record 'k producer_key =
  producer_name :: name
  signing_key :: 'k

record 'k producer_schedule =
  version :: u32
  producers :: "'k producer_key list"

record 'k schedule_info =
  schedule_lib_num :: u32
  schedule_hash :: digest_type
  schedule :: "'k producer_schedule"

record 'k block_header =
  timestamp :: u32
  producer :: name
  confirmed :: u16
  previous :: block_id_type
  transaction_mroot :: digest_type
  action_mroot :: digest_type
  schedule_version :: u32
  new_producers :: "'k producer_schedule option"
  header_extensions :: "(u16 \<times> u8 list) list"

record ('k, 'g) signed_block_header = "'k block_header" +
  producer_signature :: 'g

record 'k block_header_state_common =
  block_num :: u32
  dpos_proposed_irreversible_blocknum :: u32
  dpos_irreversible_blocknum :: u32
  active_schedule :: "'k producer_schedule"
  blockroot_merkle :: incremental_merkle
  producer_to_last_produced :: "(name \<times> u32) list"
  producer_to_last_implied_irb :: "(name \<times> u32) list"
  block_signing_key :: 'k
  confirm_count :: "u8 list"

record 'k pending_block_header_state = "'k block_header_state_common" +
  prev_activated_protocol_features :: "digest_type set"
  prev_pending_schedule :: "'k schedule_info"
  was_pending_promoted :: bool
  pending_previous :: block_id_type
  pending_producer :: name
  pending_timestamp :: u32
  active_schedule_version :: u32
  pending_confirmed :: u16

record ('k, 'g) block_header_state = "'k block_header_state_common" +
  block_id :: block_id_type
  header :: "('k, 'g) signed_block_header"
  pending_schedule :: "'k schedule_info"
  activated_protocol_features :: "digest_type set"
  header_exts :: "digest_type list list"

record ('k, 'g) header_env =
  pair_digest :: pair_hash
  header_digest :: "'k block_header \<Rightarrow> digest_type"
  schedule_digest :: "'k producer_schedule \<Rightarrow> digest_type"
  recover_key :: "'g \<Rightarrow> digest_type \<Rightarrow> 'k"
  no_signature :: 'g
  no_key :: 'k
  pack_features :: "digest_type list \<Rightarrow> u8 list"
  unpack_features :: "u8 list \<Rightarrow> digest_type list option"

datatype header_error =
    block_validate_exception
  | producer_double_confirm
  | unlinkable_block_exception
  | wrong_producer
  | producer_schedule_exception
  | wrong_signing_key
  | invalid_block_header_extension
  | ill_formed_protocol_feature_activation
  | unpack_error
  | feature_rejected
  | division_by_zero
  | past_active_nodes
  | timestamp_overflow

type_synonym 'a headed = "(header_error, 'a) result"

section \<open>Timestamps, identifiers, schedules\<close>

definition timestamp_next :: "u32 \<Rightarrow> u32 headed" where
  "timestamp_next slot = check (- 1 - slot \<ge> 1) timestamp_overflow (Inr (slot + 1))"

definition timestamp_maximum :: u32 where
  "timestamp_maximum = 0xffff"

definition endian_reverse_u32 :: "u32 \<Rightarrow> u32" where
  "endian_reverse_u32 x =
     (drop_bit 0x18 x AND 0xFF) OR push_bit 0x08 (drop_bit 0x10 x AND 0xFF)
     OR push_bit 0x10 (drop_bit 0x08 x AND 0xFF) OR push_bit 0x18 (x AND 0xFF)"

definition num_from_id :: "block_id_type \<Rightarrow> u32" where
  "num_from_id i = endian_reverse_u32 (ucast (hash0 i))"

definition header_block_num :: "('k, 'z) block_header_scheme \<Rightarrow> u32" where
  "header_block_num h = num_from_id (previous h) + 1"

definition header_id :: "('k, 'g) header_env \<Rightarrow> ('k, 'z) block_header_scheme \<Rightarrow> block_id_type" where
  "header_id E h =
     (let result = header_digest E (block_header.truncate h) in
      Digest ((hash0 result AND 0xffffffff00000000) + ucast (endian_reverse_u32 (header_block_num h)))
        (hash1 result) (hash2 result) (hash3 result))"

fun get_producer_key :: "'k \<Rightarrow> name \<Rightarrow> 'k producer_key list \<Rightarrow> 'k" where
  "get_producer_key none p [] = none"
| "get_producer_key none p (i # is) = (if producer_name i = p then signing_key i else get_producer_key none p is)"

text \<open>A \<open>flat_map\<close>, a vector of pairs sorted by the key: \<open>m[k] = v\<close>.\<close>

fun flat_put :: "'a :: linorder \<Rightarrow> 'b \<Rightarrow> ('a \<times> 'b) list \<Rightarrow> ('a \<times> 'b) list" where
  "flat_put k v [] = [(k, v)]"
| "flat_put k v ((k', v') # m) =
     (if k < k' then (k, v) # (k', v') # m else if k = k' then (k, v) # m else (k', v') # flat_put k v m)"

section \<open>Extensions\<close>

text \<open>
  The only extension is the list of protocol features, with the id 0. Reading it checks that it is not
  empty and has no repetition (\<open>reflector_init\<close>).
\<close>

definition reflector_init :: "digest_type list \<Rightarrow> digest_type list headed" where
  "reflector_init fs =
     check (length fs > 0) ill_formed_protocol_feature_activation
    (check (distinct fs) ill_formed_protocol_feature_activation (Inr fs))"

definition extract_extension :: "('k, 'g) header_env \<Rightarrow> u16 \<Rightarrow> u8 list \<Rightarrow> digest_type list headed" where
  "extract_extension E i bytes =
     (if i = 0
      then (case unpack_features E bytes of None \<Rightarrow> Inl unpack_error | Some fs \<Rightarrow> reflector_init fs)
      else Inl invalid_block_header_extension)"

fun extension_loop :: "('k, 'g) header_env \<Rightarrow> bool \<Rightarrow> u16 \<Rightarrow> (u16 \<times> u8 list) list \<Rightarrow> digest_type list list headed" where
  "extension_loop E first bound [] = Inr []"
| "extension_loop E first bound ((i, bytes) # es) =
     check (i \<ge> bound) invalid_block_header_extension
    (bind_res (extract_extension E i bytes) (\<lambda>fs.
     check (first \<or> i > bound) invalid_block_header_extension
    (bind_res (extension_loop E False i es) (\<lambda>results. Inr (fs # results)))))"

definition validate_and_extract_header_extensions ::
  "('k, 'g) header_env \<Rightarrow> ('k, 'z) block_header_scheme \<Rightarrow> digest_type list list headed" where
  "validate_and_extract_header_extensions E h = extension_loop E True 0 (header_extensions h)"

definition activate_features :: "digest_type set \<Rightarrow> digest_type list \<Rightarrow> digest_type set headed" where
  "activate_features s1 s2 =
     check (list_all (\<lambda>f. f \<notin> s1) s2) invalid_block_header_extension (Inr (s1 \<union> set s2))"

definition get_new_protocol_feature_activations :: "('k, 'g, 'z) block_header_state_scheme \<Rightarrow> digest_type list" where
  "get_new_protocol_feature_activations s = (case header_exts s of [] \<Rightarrow> [] | fs # _ \<Rightarrow> fs)"

section \<open>The next header\<close>

definition producer_repetitions :: nat where
  "producer_repetitions = 12"

definition maximum_tracked_dpos_confirmations :: nat where
  "maximum_tracked_dpos_confirmations = 1024"

definition is_active_producer :: "name \<Rightarrow> ('k, 'z) block_header_state_common_scheme \<Rightarrow> bool" where
  "is_active_producer n s \<longleftrightarrow> map_of (producer_to_last_produced s) n \<noteq> None"

definition has_pending_producers :: "('k, 'g, 'z) block_header_state_scheme \<Rightarrow> bool" where
  "has_pending_producers s \<longleftrightarrow> producers (schedule (pending_schedule s)) \<noteq> []"

definition get_scheduled_producer :: "u32 \<Rightarrow> ('k, 'z) block_header_state_common_scheme \<Rightarrow> 'k producer_key headed" where
  "get_scheduled_producer t s =
     (let ps = producers (active_schedule s) in
      check (ps \<noteq> []) division_by_zero
     (let index = unat t mod (length ps * producer_repetitions);
          index = index div producer_repetitions
      in Inr (ps ! index)))"

definition implied_blocknums :: "name \<Rightarrow> ('k, 'z) block_header_state_common_scheme \<Rightarrow> u32 list" where
  "implied_blocknums p s =
     map (\<lambda>(n, b). if n = p then dpos_proposed_irreversible_blocknum s else b) (producer_to_last_implied_irb s)"

definition calc_dpos_last_irreversible :: "name \<Rightarrow> ('k, 'z) block_header_state_common_scheme \<Rightarrow> u32" where
  "calc_dpos_last_irreversible producer_of_next_block s =
     (let blocknums = implied_blocknums producer_of_next_block s in
      if length blocknums = 0 then 0
      else let index = (length blocknums - 1) div 3 in sort blocknums ! index)"

definition grow_confirm_count :: "nat \<Rightarrow> u8 list \<Rightarrow> u8 list" where
  "grow_confirm_count num_active_producers counts =
     (let required_confs = of_nat (num_active_producers * 2 div 3) + 1 :: u32 in
      if length counts < maximum_tracked_dpos_confirmations then counts @ [ucast required_confs]
      else tl counts @ [ucast required_confs])"

text \<open>The loop that counts confirmations, from the last entry down; its first argument is one more than the \<open>i\<close> of the code.\<close>

fun confirm_loop :: "nat \<Rightarrow> u32 \<Rightarrow> u32 \<Rightarrow> u8 list \<Rightarrow> u32 \<Rightarrow> u8 list \<times> u32" where
  "confirm_loop 0 bn blocks_to_confirm counts proposed = (counts, proposed)"
| "confirm_loop (Suc i) bn blocks_to_confirm counts proposed =
     (if blocks_to_confirm = 0 then (counts, proposed)
      else let counts = counts[i := counts ! i - 1] in
           if counts ! i = 0 then (drop (Suc i) counts, bn - of_nat (length counts - 1 - i))
           else confirm_loop i bn (blocks_to_confirm - 1) counts proposed)"

text \<open>The two maps of a schedule that becomes active: what is known of a producer stays, a new one starts at a default.\<close>

definition promoted_map :: "name \<Rightarrow> u32 \<Rightarrow> u32 \<Rightarrow> (name \<times> u32) list \<Rightarrow> 'k producer_key list \<Rightarrow> (name \<times> u32) list" where
  "promoted_map p own initial old ps =
     fold (\<lambda>pro m. flat_put (producer_name pro)
       (if producer_name pro = p then own
        else case map_of old (producer_name pro) of Some b \<Rightarrow> b | None \<Rightarrow> initial) m) ps []"

text \<open>The fields of the pending state, once the producer, the slot and the new Merkle tree are known.\<close>

definition pending_state ::
  "u32 \<Rightarrow> u16 \<Rightarrow> 'k producer_key \<Rightarrow> incremental_merkle \<Rightarrow> ('k, 'g, 'z) block_header_state_scheme \<Rightarrow> 'k pending_block_header_state" where
  "pending_state when num_prev_blocks_to_confirm prokey root s =
     (let bn = block_num s + 1;
          p = producer_name prokey;
          counts = grow_confirm_count (length (producers (active_schedule s))) (confirm_count s);
          confirmation = confirm_loop (length counts) bn (ucast num_prev_blocks_to_confirm + 1) counts
            (dpos_proposed_irreversible_blocknum s);
          irreversible = calc_dpos_last_irreversible p s;
          promote = (producers (schedule (pending_schedule s)) \<noteq> []
            \<and> irreversible \<ge> schedule_lib_num (pending_schedule s));
          next_schedule = (if promote then schedule (pending_schedule s) else active_schedule s)
      in \<lparr>block_num = bn,
          dpos_proposed_irreversible_blocknum = snd confirmation,
          dpos_irreversible_blocknum = irreversible,
          active_schedule = next_schedule,
          blockroot_merkle = root,
          producer_to_last_produced =
            (if promote
             then flat_put p bn (promoted_map p bn irreversible (producer_to_last_produced s) (producers next_schedule))
             else flat_put p bn (producer_to_last_produced s)),
          producer_to_last_implied_irb =
            (if promote
             then promoted_map p (dpos_proposed_irreversible_blocknum s) irreversible (producer_to_last_implied_irb s)
                    (producers next_schedule)
             else flat_put p (dpos_proposed_irreversible_blocknum s) (producer_to_last_implied_irb s)),
          block_signing_key = signing_key prokey,
          confirm_count = fst confirmation,
          prev_activated_protocol_features = activated_protocol_features s,
          prev_pending_schedule = pending_schedule s,
          was_pending_promoted = promote,
          pending_previous = block_id s,
          pending_producer = p,
          pending_timestamp = when,
          active_schedule_version = version (active_schedule s),
          pending_confirmed = num_prev_blocks_to_confirm\<rparr>)"

definition next_slot :: "u32 \<Rightarrow> ('k, 'g, 'z) block_header_state_scheme \<Rightarrow> u32 headed" where
  "next_slot when s =
     (if when \<noteq> 0 then check (when > timestamp (header s)) block_validate_exception (Inr when)
      else Inr (timestamp (header s) + 1))"

definition check_confirmed_range :: "name \<Rightarrow> u16 \<Rightarrow> ('k, 'z) block_header_state_common_scheme \<Rightarrow> unit headed" where
  "check_confirmed_range p num_prev_blocks_to_confirm s =
     (case map_of (producer_to_last_produced s) p of
        None \<Rightarrow> Inr ()
      | Some last_num \<Rightarrow>
          check (last_num < (block_num s + 1) - ucast num_prev_blocks_to_confirm) producer_double_confirm (Inr ()))"

definition next_pending ::
  "('k, 'g) header_env \<Rightarrow> u32 \<Rightarrow> u16 \<Rightarrow> ('k, 'g, 'z) block_header_state_scheme \<Rightarrow> 'k pending_block_header_state headed" where
  "next_pending E when num_prev_blocks_to_confirm s =
     bind_res (next_slot when s) (\<lambda>when.
     bind_res (get_scheduled_producer when s) (\<lambda>prokey.
     bind_res (check_confirmed_range (producer_name prokey) num_prev_blocks_to_confirm s) (\<lambda>_.
     case merkle_append (pair_digest E) (block_id s) (blockroot_merkle s) of
       None \<Rightarrow> Inl past_active_nodes
     | Some root \<Rightarrow> Inr (pending_state when num_prev_blocks_to_confirm prokey root s))))"

definition make_block_header ::
  "('k, 'g) header_env \<Rightarrow> digest_type \<Rightarrow> digest_type \<Rightarrow> 'k producer_schedule option \<Rightarrow> digest_type list \<Rightarrow>
   'k pending_block_header_state \<Rightarrow> ('k, 'g) signed_block_header" where
  "make_block_header E tx_root act_root next_producers features s =
     \<lparr>timestamp = pending_timestamp s, producer = pending_producer s, confirmed = pending_confirmed s,
      previous = pending_previous s, transaction_mroot = tx_root, action_mroot = act_root,
      schedule_version = active_schedule_version s, new_producers = next_producers,
      header_extensions = (if length features > 0 then [(0, pack_features E features)] else []),
      producer_signature = no_signature E\<rparr>"

text \<open>
  The pending schedule after the block: the one the header announces, else what is left of the one before. After
  a promotion only its version stays.
\<close>

definition next_schedule_info ::
  "('k, 'g) header_env \<Rightarrow> 'k producer_schedule option \<Rightarrow> 'k pending_block_header_state \<Rightarrow> 'k schedule_info" where
  "next_schedule_info E announced s =
     (case announced of
        Some sch \<Rightarrow> \<lparr>schedule_lib_num = block_num s, schedule_hash = schedule_digest E sch, schedule = sch\<rparr>
      | None \<Rightarrow>
          (prev_pending_schedule s)\<lparr>schedule :=
             (if was_pending_promoted s
              then \<lparr>version = version (schedule (prev_pending_schedule s)), producers = []\<rparr>
              else schedule (prev_pending_schedule s))\<rparr>)"

type_synonym feature_validator = "u32 \<Rightarrow> digest_type set \<Rightarrow> digest_type list \<Rightarrow> bool"

definition check_new_producers :: "'k producer_schedule option \<Rightarrow> 'k pending_block_header_state \<Rightarrow> unit headed" where
  "check_new_producers announced s =
     (case announced of
        None \<Rightarrow> Inr ()
      | Some sch \<Rightarrow>
          check (\<not> was_pending_promoted s) producer_schedule_exception
         (check (version sch = version (active_schedule s) + 1) producer_schedule_exception
         (check (producers (schedule (prev_pending_schedule s)) = []) producer_schedule_exception (Inr ()))))"

definition next_features :: "feature_validator \<Rightarrow> digest_type list list \<Rightarrow> 'k pending_block_header_state \<Rightarrow> digest_type set headed" where
  "next_features validator exts s =
     (case exts of
        [] \<Rightarrow> Inr (prev_activated_protocol_features s)
      | fs # _ \<Rightarrow>
          check (validator (pending_timestamp s) (prev_activated_protocol_features s) fs) feature_rejected
         (activate_features (prev_activated_protocol_features s) fs))"

definition finish_next_unsigned ::
  "('k, 'g) header_env \<Rightarrow> feature_validator \<Rightarrow> ('k, 'g) signed_block_header \<Rightarrow> 'k pending_block_header_state \<Rightarrow>
   ('k, 'g) block_header_state headed" where
  "finish_next_unsigned E validator h s =
     check (timestamp h = pending_timestamp s) block_validate_exception
    (check (previous h = pending_previous s) unlinkable_block_exception
    (check (confirmed h = pending_confirmed s) block_validate_exception
    (check (producer h = pending_producer s) wrong_producer
    (check (schedule_version h = active_schedule_version s) producer_schedule_exception
    (bind_res (check_new_producers (new_producers h) s) (\<lambda>_.
     bind_res (validate_and_extract_header_extensions E h) (\<lambda>exts.
     bind_res (next_features validator exts s) (\<lambda>features.
     Inr (block_header_state_common.extend (block_header_state_common.truncate s)
       \<lparr>block_id = header_id E h, header = h, pending_schedule = next_schedule_info E (new_producers h) s,
        activated_protocol_features = features, header_exts = exts\<rparr>)))))))))"

section \<open>Signatures\<close>

definition sig_digest :: "('k, 'g) header_env \<Rightarrow> ('k, 'g, 'z) block_header_state_scheme \<Rightarrow> digest_type" where
  "sig_digest E s =
     (let header_bmroot = pair_digest E (header_digest E (block_header.truncate (header s)), get_root (blockroot_merkle s))
      in pair_digest E (header_bmroot, schedule_hash (pending_schedule s)))"

definition signee :: "('k, 'g) header_env \<Rightarrow> ('k, 'g, 'z) block_header_state_scheme \<Rightarrow> 'k" where
  "signee E s = recover_key E (producer_signature (header s)) (sig_digest E s)"

definition verify_signee :: "'k \<Rightarrow> ('k, 'g, 'z) block_header_state_scheme \<Rightarrow> unit headed" where
  "verify_signee k s = check (block_signing_key s = k) wrong_signing_key (Inr ())"

definition sign_header ::
  "('k, 'g) header_env \<Rightarrow> (digest_type \<Rightarrow> 'g) \<Rightarrow> ('k, 'g) block_header_state \<Rightarrow> ('k, 'g) block_header_state headed" where
  "sign_header E signer s =
     (let d = sig_digest E s; g = signer d in
      check (block_signing_key s = recover_key E g d) wrong_signing_key
     (Inr (s\<lparr>header := (header s)\<lparr>producer_signature := g\<rparr>\<rparr>)))"

definition finish_next ::
  "('k, 'g) header_env \<Rightarrow> feature_validator \<Rightarrow> bool \<Rightarrow> ('k, 'g) signed_block_header \<Rightarrow> 'k pending_block_header_state \<Rightarrow>
   ('k, 'g) block_header_state headed" where
  "finish_next E validator skip_validate_signee h s =
     bind_res (finish_next_unsigned E validator h s) (\<lambda>result.
     if skip_validate_signee then Inr result
     else bind_res (verify_signee (signee E result) result) (\<lambda>_. Inr result))"

definition finish_next_signed ::
  "('k, 'g) header_env \<Rightarrow> feature_validator \<Rightarrow> (digest_type \<Rightarrow> 'g) \<Rightarrow> ('k, 'g) signed_block_header \<Rightarrow>
   'k pending_block_header_state \<Rightarrow> (('k, 'g) block_header_state \<times> ('k, 'g) signed_block_header) headed" where
  "finish_next_signed E validator signer h s =
     bind_res (finish_next_unsigned E validator h s) (\<lambda>result.
     bind_res (sign_header E signer result) (\<lambda>result.
     Inr (result, h\<lparr>producer_signature := producer_signature (header result)\<rparr>)))"

definition next_header ::
  "('k, 'g) header_env \<Rightarrow> feature_validator \<Rightarrow> bool \<Rightarrow> ('k, 'g) signed_block_header \<Rightarrow> ('k, 'g, 'z) block_header_state_scheme \<Rightarrow>
   ('k, 'g) block_header_state headed" where
  "next_header E validator skip_validate_signee h s =
     bind_res (next_pending E (timestamp h) (confirmed h) s) (finish_next E validator skip_validate_signee h)"

section \<open>The first header\<close>

definition genesis_header_state ::
  "('k, 'g) header_env \<Rightarrow> u32 \<Rightarrow> digest_type \<Rightarrow> 'k \<Rightarrow> ('k, 'g) block_header_state" where
  "genesis_header_state E initial_timestamp chain_id initial_key =
     (let initial_schedule = \<lparr>version = 0, producers = [\<lparr>producer_name = string_to_name ''eosio'', signing_key = initial_key\<rparr>]\<rparr>;
          h = \<lparr>timestamp = initial_timestamp, producer = 0, confirmed = 1, previous = null_digest,
               transaction_mroot = null_digest, action_mroot = chain_id, schedule_version = 0, new_producers = None,
               header_extensions = [], producer_signature = no_signature E\<rparr>
      in \<lparr>block_num = header_block_num h, dpos_proposed_irreversible_blocknum = 0, dpos_irreversible_blocknum = 0,
          active_schedule = initial_schedule, blockroot_merkle = empty_incremental_merkle,
          producer_to_last_produced = [], producer_to_last_implied_irb = [], block_signing_key = no_key E, confirm_count = [],
          block_id = header_id E h, header = h,
          pending_schedule = \<lparr>schedule_lib_num = 0, schedule_hash = schedule_digest E initial_schedule,
            schedule = initial_schedule\<rparr>,
          activated_protocol_features = {}, header_exts = []\<rparr>)"

section \<open>Block numbers in identifiers\<close>

lemma bit_255: "bit (255 :: u32) n \<longleftrightarrow> n < 8"
proof -
  have "(255 :: u32) = mask 8" by (simp add: mask_eq_exp_minus_1)
  moreover have "bit (mask 8 :: u32) n \<longleftrightarrow> n < 8" by (simp only: bit_mask_iff) auto
  ultimately show ?thesis by (simp only:)
qed

lemma bit_endian_reverse:
  "bit (endian_reverse_u32 x) n \<longleftrightarrow> n < 8 \<and> bit x (24 + n) \<or> 8 \<le> n \<and> n < 16 \<and> bit x (16 + (n - 8))
     \<or> 16 \<le> n \<and> n < 24 \<and> bit x (8 + (n - 16)) \<or> 24 \<le> n \<and> n < 32 \<and> bit x (n - 24)"
proof -
  have "n - 8 < 8 \<longleftrightarrow> n < 16" "n - 16 < 8 \<longleftrightarrow> n < 24" "n - 24 < 8 \<longleftrightarrow> n < 32" by linarith+
  then show ?thesis
    by (simp only: endian_reverse_u32_def bit_or_iff bit_push_bit_iff bit_and_iff bit_drop_bit_eq comp_apply bit_255)
      auto
qed

lemma endian_reverse_twice: "endian_reverse_u32 (endian_reverse_u32 x) = x"
proof (rule bit_word_eqI)
  fix n
  assume "n < LENGTH(32)"
  then consider "n < 8" | "8 \<le> n" "n < 16" | "16 \<le> n" "n < 24" | "24 \<le> n" "n < 32" by fastforce
  then show "bit (endian_reverse_u32 (endian_reverse_u32 x)) n = bit x n"
    by cases (simp_all add: bit_endian_reverse less_diff_conv2 le_diff_conv2)
qed

lemma bit_high_half: "bit (0xffffffff00000000 :: u64) n \<longleftrightarrow> 32 \<le> n \<and> n < 64"
proof -
  have "(0xffffffff00000000 :: u64) = push_bit 32 (mask 32)" by (simp add: mask_eq_exp_minus_1 push_bit_eq_mult)
  moreover have "bit (push_bit 32 (mask 32) :: u64) n \<longleftrightarrow> 32 \<le> n \<and> n < 64"
    by (simp only: bit_push_bit_iff bit_mask_iff) auto
  ultimately show ?thesis by (simp only:)
qed

lemma low_half: "ucast ((a AND 0xffffffff00000000) + ucast y :: u64) = (y :: u32)"
proof -
  define h :: u64 where "h = a AND 0xffffffff00000000"
  have low: "\<not> bit h n" if "n < 32" for n
    using that bit_high_half [of n] unfolding h_def by (metis bit_and_iff leD)
  have "\<not> bit h n \<or> \<not> bit (ucast y :: u64) n" for n
    using low [of n] bit_imp_le_length [of y n] by (cases "n < 32") (auto simp: bit_ucast_iff)
  then have or: "h + ucast y = h OR (ucast y :: u64)" by (rule disjunctive_add)
  have "ucast (h OR (ucast y :: u64)) = y"
  proof (rule bit_word_eqI)
    fix n
    assume "n < LENGTH(32)"
    then have n: "n < 32" by simp
    show "bit (ucast (h OR (ucast y :: u64)) :: u32) n = bit y n"
      using n low [OF n] by (simp add: bit_ucast_iff bit_or_iff)
  qed
  then show ?thesis unfolding h_def [symmetric] or .
qed

lemma num_from_header_id: "num_from_id (header_id E h) = header_block_num h"
  by (simp add: num_from_id_def header_id_def Let_def low_half endian_reverse_twice)

section \<open>The quorum\<close>

lemma quorum_element:
  fixes xs :: "'a :: linorder list"
  assumes "k < length xs"
  shows "length xs - k \<le> length (filter (\<lambda>x. sort xs ! k \<le> x) xs)"
    and "sort xs ! k < w \<Longrightarrow> length (filter (\<lambda>x. w \<le> x) xs) < length xs - k"
proof -
  have len: "length (filter P xs) = card {i. i < length xs \<and> P (sort xs ! i)}" for P
    using length_filter_conv_card [of P "sort xs"] by (metis filter_sort length_sort)
  have le: "sort xs ! i \<le> sort xs ! j" if "i \<le> j" "j < length xs" for i j
    using that by (simp add: sorted_nth_mono)
  have "{k..<length xs} \<subseteq> {i. i < length xs \<and> sort xs ! k \<le> sort xs ! i}" using le by auto
  from card_mono [OF _ this] show "length xs - k \<le> length (filter (\<lambda>x. sort xs ! k \<le> x) xs)" by (simp add: len)
  assume w: "sort xs ! k < w"
  have "{i. i < length xs \<and> w \<le> sort xs ! i} \<subseteq> {Suc k..<length xs}"
  proof (clarsimp simp: Suc_le_eq)
    fix i
    assume i: "i < length xs" "w \<le> sort xs ! i"
    show "k < i"
    proof (rule ccontr)
      assume "\<not> k < i"
      then have "sort xs ! i \<le> sort xs ! k" using le [of i k] assms by simp
      with w i(2) show False by simp
    qed
  qed
  from card_mono [OF _ this] show "length (filter (\<lambda>x. w \<le> x) xs) < length xs - k" using assms by (simp add: len)
qed

lemma calc_member:
  assumes "producer_to_last_implied_irb s \<noteq> []"
  shows "calc_dpos_last_irreversible p s \<in> set (implied_blocknums p s)"
proof -
  let ?nums = "implied_blocknums p s"
  have "0 < length ?nums" using assms by (simp add: implied_blocknums_def)
  then have "(length ?nums - 1) div 3 < length (sort ?nums)" by (simp only: length_sort)
  from nth_mem [OF this] \<open>0 < length ?nums\<close> show ?thesis by (simp add: calc_dpos_last_irreversible_def Let_def)
qed

text \<open>
  C8: The irreversible block number has its quorum. Of the producers whose last implied irreversible block is
  known, more than two thirds imply at least the number \<open>calc_dpos_last_irreversible\<close> returns, one of them exactly this number,
  and no larger number has that support: fewer than the needed count of producers imply more.
\<close>

theorem irreversible_quorum:
  assumes "producer_to_last_implied_irb s \<noteq> []"
  shows "let nums = implied_blocknums p s; n = length nums; v = calc_dpos_last_irreversible p s in
    2 * n < 3 * length (filter (\<lambda>b. v \<le> b) nums) \<and> v \<in> set nums
    \<and> (\<forall>w > v. length (filter (\<lambda>b. w \<le> b) nums) < n - (n - 1) div 3)"
proof -
  define nums n v where "nums = implied_blocknums p s" and "n = length nums" and "v = calc_dpos_last_irreversible p s"
  have n: "0 < n" using assms by (simp add: nums_def n_def implied_blocknums_def)
  then have k: "(n - 1) div 3 < length nums" unfolding n_def by linarith
  have v: "v = sort nums ! ((n - 1) div 3)"
    using n by (simp add: v_def calc_dpos_last_irreversible_def nums_def [symmetric] n_def Let_def)
  have "n - (n - 1) div 3 \<le> length (filter (\<lambda>b. v \<le> b) nums)"
    using quorum_element(1) [OF k] by (simp add: v n_def)
  moreover have "2 * n < 3 * (n - (n - 1) div 3)" using n by linarith
  ultimately have "2 * n < 3 * length (filter (\<lambda>b. v \<le> b) nums)" by linarith
  moreover have "v \<in> set nums" using calc_member [OF assms] by (simp add: v_def nums_def)
  moreover have "length (filter (\<lambda>b. w \<le> b) nums) < n - (n - 1) div 3" if "w > v" for w
    using quorum_element(2) [OF k, of w] that by (simp add: v n_def)
  ultimately show ?thesis by (simp add: nums_def n_def v_def Let_def)
qed

section \<open>Confirmations\<close>

lemma confirm_loop_sound:
  assumes "i \<le> length counts" and "0 \<notin> set counts" and "confirm_loop i bn b counts proposed = (counts', proposed')"
  shows "0 \<notin> set counts' \<and> (length counts' = length counts \<and> proposed' = proposed
    \<or> length counts' < length counts \<and> proposed' = bn - of_nat (length counts'))"
  using assms
proof (induction i arbitrary: b counts)
  case (Suc i)
  let ?c = "counts[i := counts ! i - 1]"
  have i: "i < length counts" using Suc.prems(1) by simp
  show ?case
  proof (cases "b = 0 \<or> counts ! i - 1 = 0")
    case True
    have "0 \<notin> set (drop (Suc i) ?c)" using Suc.prems(2) by (auto dest: in_set_dropD)
    with True Suc.prems i show ?thesis by (auto simp: Let_def split: if_splits)
  next
    case False
    then have "0 \<notin> set ?c" using Suc.prems(2) set_update_subset_insert [of counts i] by fastforce
    from Suc.IH [OF _ this] False Suc.prems i show ?thesis by (simp add: Let_def)
  qed
qed auto

lemma grow_sound:
  assumes "0 \<notin> set counts" and "n \<le> 125" and "length counts \<le> 1024"
  shows "0 \<notin> set (grow_confirm_count n counts)" and "length (grow_confirm_count n counts) \<le> 1024"
    and "length (grow_confirm_count n counts) \<le> length counts + 1" and "grow_confirm_count n counts \<noteq> []"
proof -
  have "n * 2 div 3 < 255" using assms(2) by simp
  then have k: "n * 2 div 3 + 1 < 256" by simp
  then have "ucast (of_nat (n * 2 div 3 + 1) :: u32) = (of_nat (n * 2 div 3 + 1) :: u8)"
    by (simp only: unsigned_of_nat take_bit_nat_eq_self) (simp add: take_bit_nat_eq_self)
  moreover have "(of_nat (n * 2 div 3 + 1) :: u8) \<noteq> 0"
    using k nat_dvd_not_less [of "n * 2 div 3 + 1" 256] by (simp only: word_of_nat_eq_0_iff) simp
  ultimately have "(ucast (of_nat (n * 2 div 3) + 1 :: u32) :: u8) \<noteq> 0" by (simp add: add.commute)
  moreover have "0 \<notin> set (tl counts)" using assms(1) by (cases counts) auto
  ultimately show "0 \<notin> set (grow_confirm_count n counts)" "length (grow_confirm_count n counts) \<le> 1024"
    "length (grow_confirm_count n counts) \<le> length counts + 1" "grow_confirm_count n counts \<noteq> []"
    using assms(1,3) by (auto simp: grow_confirm_count_def maximum_tracked_dpos_confirmations_def Let_def)
qed

lemma flat_put_set: "set (map snd (flat_put k v m)) \<subseteq> insert v (set (map snd m))"
  by (induction k v m rule: flat_put.induct) auto

lemma promoted_map_values:
  assumes "b \<in> set (map snd (promoted_map p own initial old ps))"
  shows "b = own \<or> b = initial \<or> b \<in> set (map snd old)"
proof -
  let ?step = "\<lambda>pro m. flat_put (producer_name pro)
       (if producer_name pro = p then own
        else case map_of old (producer_name pro) of Some b \<Rightarrow> b | None \<Rightarrow> initial) m"
  have "b \<in> set (map snd m) \<or> b = own \<or> b = initial \<or> b \<in> set (map snd old)"
    if "b \<in> set (map snd (fold ?step ps m))" for m
    using that
  proof (induction ps arbitrary: m)
    case (Cons pro ps)
    from Cons.prems Cons.IH [of "?step pro m"] flat_put_set [of "producer_name pro" "(if producer_name pro = p then own
        else case map_of old (producer_name pro) of Some b \<Rightarrow> b | None \<Rightarrow> initial)" m]
    show ?case by (auto split: if_splits option.splits dest!: map_of_SomeD) (force dest: map_of_SomeD)
  qed simp
  from this [of "[]"] assms show ?thesis by (simp add: promoted_map_def)
qed

section \<open>Chains of headers\<close>

text \<open>A schedule the chain accepts has at most \<open>config::max_producers\<close> producers (checked where it is proposed).\<close>

definition max_producers :: nat where
  "max_producers = 125"

definition schedule_within :: "('k, 'z) block_header_scheme \<Rightarrow> bool" where
  "schedule_within h = (case new_producers h of None \<Rightarrow> True | Some sch \<Rightarrow> length (producers sch) \<le> max_producers)"

text \<open>The states that headers lead to from a first one, with the identifiers of the blocks before.\<close>

inductive header_chain ::
  "('k, 'g) header_env \<Rightarrow> feature_validator \<Rightarrow> ('k, 'g) block_header_state \<Rightarrow> block_id_type list \<Rightarrow> ('k, 'g) block_header_state \<Rightarrow> bool"
  for E V s0 where
  chain_start: "header_chain E V s0 [] s0"
| chain_next: "header_chain E V s0 ids s \<Longrightarrow> schedule_within h \<Longrightarrow> next_header E V skip h s = Inr s' \<Longrightarrow>
    header_chain E V s0 (ids @ [block_id s]) s'"

definition counters_ok :: "('k, 'z) block_header_state_common_scheme \<Rightarrow> bool" where
  "counters_ok s \<longleftrightarrow> 0 \<notin> set (confirm_count s) \<and> length (confirm_count s) \<le> 1024
     \<and> unat (dpos_proposed_irreversible_blocknum s) + length (confirm_count s) \<le> unat (block_num s)
     \<and> dpos_irreversible_blocknum s \<le> dpos_proposed_irreversible_blocknum s
     \<and> (\<forall>b \<in> set (map snd (producer_to_last_implied_irb s)). b \<le> dpos_proposed_irreversible_blocknum s)"

definition schedules_ok :: "'k producer_schedule \<Rightarrow> 'k producer_schedule \<Rightarrow> bool" where
  "schedules_ok active pending \<longleftrightarrow> producers active \<noteq> [] \<and> length (producers active) \<le> max_producers
     \<and> length (producers pending) \<le> max_producers"

definition header_ok :: "('k, 'g) header_env \<Rightarrow> block_id_type list \<Rightarrow> ('k, 'g) block_header_state \<Rightarrow> bool" where
  "header_ok E ids s \<longleftrightarrow> unat (block_num s) = length ids + 1 \<and> num_from_id (block_id s) = block_num s
     \<and> (ids \<noteq> [] \<longrightarrow> previous (header s) = last ids) \<and> holds_leaves (pair_digest E) ids (blockroot_merkle s)
     \<and> counters_ok s \<and> schedules_ok (active_schedule s) (schedule (pending_schedule s))"

lemma unat_Suc_u32: "unat x + 1 < 2 ^ 32 \<Longrightarrow> unat (x + 1 :: u32) = unat x + 1"
  by (simp add: unat_word_ariths)

lemma unat_minus_of_nat: "k \<le> unat x \<Longrightarrow> unat (x - of_nat k :: u32) = unat x - k"
proof -
  assume k: "k \<le> unat x"
  have "unat x < 2 ^ 32" using unsigned_less [of x] by simp
  with k have "k < 2 ^ 32" by linarith
  then have "unat (of_nat k :: u32) = k" by (rule unat_of_nat_u32)
  with k show ?thesis by (simp add: unat_sub word_le_nat_alt)
qed

lemma calc_bounded:
  assumes "\<forall>b \<in> set (map snd (producer_to_last_implied_irb s)). b \<le> dpos_proposed_irreversible_blocknum s"
  shows "calc_dpos_last_irreversible p s \<le> dpos_proposed_irreversible_blocknum s"
proof (cases "producer_to_last_implied_irb s = []")
  case False
  then have "calc_dpos_last_irreversible p s \<in> set (implied_blocknums p s)"
    using calc_member by blast
  with assms show ?thesis by (auto simp: implied_blocknums_def)
qed (simp add: calc_dpos_last_irreversible_def implied_blocknums_def)

lemma next_pending_Inr:
  assumes "next_pending E t c s = Inr pd"
  shows "merkle_append (pair_digest E) (block_id s) (blockroot_merkle s) = Some (blockroot_merkle pd)"
    and "block_num pd = block_num s + 1" and "pending_previous pd = block_id s"
    and "let counts = grow_confirm_count (length (producers (active_schedule s))) (confirm_count s) in
      confirm_loop (length counts) (block_num s + 1) (ucast c + 1) counts (dpos_proposed_irreversible_blocknum s)
        = (confirm_count pd, dpos_proposed_irreversible_blocknum pd)"
    and "dpos_irreversible_blocknum pd = calc_dpos_last_irreversible (pending_producer pd) s"
    and "prev_pending_schedule pd = pending_schedule s"
    and "active_schedule pd = (if was_pending_promoted pd then schedule (pending_schedule s) else active_schedule s)"
    and "was_pending_promoted pd \<Longrightarrow> producers (schedule (pending_schedule s)) \<noteq> []"
    and "producer_to_last_implied_irb pd = (if was_pending_promoted pd
       then promoted_map (pending_producer pd) (dpos_proposed_irreversible_blocknum s) (dpos_irreversible_blocknum pd)
              (producer_to_last_implied_irb s) (producers (schedule (pending_schedule s)))
       else flat_put (pending_producer pd) (dpos_proposed_irreversible_blocknum s) (producer_to_last_implied_irb s))"
proof -
  obtain slot prokey root where root: "merkle_append (pair_digest E) (block_id s) (blockroot_merkle s) = Some root"
    and pd: "pd = pending_state slot c prokey root s"
    using assms by (auto simp: next_pending_def split: option.splits)
  then show "merkle_append (pair_digest E) (block_id s) (blockroot_merkle s) = Some (blockroot_merkle pd)"
    by (simp add: pending_state_def Let_def)
qed (use assms in \<open>auto simp: next_pending_def pending_state_def Let_def split: option.splits\<close>)

lemma finish_Inr:
  assumes "finish_next_unsigned E V h pd = Inr s"
  shows "previous h = pending_previous pd" and "header s = h" and "block_id s = header_id E h"
    and "pending_schedule s = next_schedule_info E (new_producers h) pd"
    and "block_header_state_common.truncate s = block_header_state_common.truncate pd"
  using assms by (auto simp: finish_next_unsigned_def block_header_state_common.defs)

lemma next_header_Inr:
  assumes "next_header E V skip h s = Inr s'"
  obtains pd where "next_pending E (timestamp h) (confirmed h) s = Inr pd" "finish_next_unsigned E V h pd = Inr s'"
  using assms by (auto simp: next_header_def finish_next_def split: if_splits)

lemma common_eq:
  assumes "block_header_state_common.truncate s = block_header_state_common.truncate pd"
  shows "block_num s = block_num pd" "dpos_proposed_irreversible_blocknum s = dpos_proposed_irreversible_blocknum pd"
    "dpos_irreversible_blocknum s = dpos_irreversible_blocknum pd" "active_schedule s = active_schedule pd"
    "blockroot_merkle s = blockroot_merkle pd" "producer_to_last_produced s = producer_to_last_produced pd"
    "producer_to_last_implied_irb s = producer_to_last_implied_irb pd" "block_signing_key s = block_signing_key pd"
    "confirm_count s = confirm_count pd"
  using assms by (simp_all add: block_header_state_common.defs)

lemma counters_next:
  assumes "next_pending E t c s = Inr pd" and "counters_ok s" and "unat (block_num s) + 1 < 2 ^ 32"
    and "length (producers (active_schedule s)) \<le> max_producers"
  shows "counters_ok pd \<and> dpos_proposed_irreversible_blocknum s \<le> dpos_proposed_irreversible_blocknum pd"
proof -
  note c = assms(2) [unfolded counters_ok_def]
  note pd = next_pending_Inr [OF assms(1), unfolded Let_def]
  let ?cs = "confirm_count pd" and ?proposed = "dpos_proposed_irreversible_blocknum pd" and ?p = "pending_producer pd"
  let ?g = "grow_confirm_count (length (producers (active_schedule s))) (confirm_count s)"
  note g = grow_sound [OF conjunct1 [OF c] assms(4) [unfolded max_producers_def] conjunct1 [OF conjunct2 [OF c]]]
  note loop = confirm_loop_sound [OF order_refl g(1) pd(4)]
  have bn: "unat (block_num pd) = unat (block_num s) + 1" using pd(2) unat_Suc_u32 [OF assms(3)] by simp
  have bound: "unat (dpos_proposed_irreversible_blocknum s) + length ?g \<le> unat (block_num pd)"
    using c g(3) bn by simp
  have up: "unat (dpos_proposed_irreversible_blocknum s) \<le> unat ?proposed \<and> unat ?proposed + length ?cs \<le> unat (block_num pd)"
  proof (cases "length ?cs = length ?g \<and> ?proposed = dpos_proposed_irreversible_blocknum s")
    case False
    with loop have l: "length ?cs < length ?g" "?proposed = block_num pd - of_nat (length ?cs)" using pd(2) by auto
    then have "unat ?proposed = unat (block_num pd) - length ?cs" using bound by (simp add: unat_minus_of_nat)
    then show ?thesis using l(1) bound by simp
  qed (use bound in simp)
  then have le: "dpos_proposed_irreversible_blocknum s \<le> ?proposed" by (simp add: word_le_nat_alt)
  have irr: "calc_dpos_last_irreversible ?p s \<le> dpos_proposed_irreversible_blocknum s" using calc_bounded c by blast
  have "b \<le> ?proposed" if b: "b \<in> set (map snd (producer_to_last_implied_irb pd))" for b
  proof -
    consider "b = dpos_proposed_irreversible_blocknum s" | "b = calc_dpos_last_irreversible ?p s"
      | "b \<in> set (map snd (producer_to_last_implied_irb s))"
    proof (cases "was_pending_promoted pd")
      case True
      from promoted_map_values [OF b [unfolded pd(9) if_P [OF True]]] pd(5) that show ?thesis by auto
    next
      case False
      from subsetD [OF flat_put_set b [unfolded pd(9) if_not_P [OF False]]] that show ?thesis by auto
    qed
    then show ?thesis using c irr le by cases (auto intro: order.trans)
  qed
  moreover have "length ?cs \<le> 1024" using loop g(2) by linarith
  moreover have "dpos_irreversible_blocknum pd \<le> ?proposed" using order.trans [OF irr le] by (simp add: pd(5))
  ultimately show ?thesis using conjunct1 [OF loop] up le unfolding counters_ok_def by blast
qed

lemma header_ok_next:
  assumes "header_ok E ids s" and "next_header E V skip h s = Inr s'" and "schedule_within h" and "length ids + 2 < 2 ^ 32"
  shows "header_ok E (ids @ [block_id s]) s'"
proof -
  note ok = assms(1) [unfolded header_ok_def]
  obtain pd where pd: "next_pending E (timestamp h) (confirmed h) s = Inr pd" and fin: "finish_next_unsigned E V h pd = Inr s'"
    by (rule next_header_Inr [OF assms(2)])
  note n = next_pending_Inr [OF pd] and f = finish_Inr [OF fin] and same = common_eq [OF finish_Inr(5) [OF fin]]
  have bn: "unat (block_num s) + 1 < 2 ^ 32" using ok assms(4) by simp
  have num: "unat (block_num s') = length ids + 2" using n(2) unat_Suc_u32 [OF bn] ok by (simp add: same)
  have "num_from_id (block_id s') = block_num s'"
    using ok n(2,3) f(1,3) by (simp add: num_from_header_id header_block_num_def same)
  moreover have "holds_leaves (pair_digest E) (ids @ [block_id s]) (blockroot_merkle s')"
    using merkle_append_holds [of "pair_digest E" ids "blockroot_merkle s" "block_id s"] ok assms(4) n(1) by (auto simp: same)
  moreover have "counters_ok s'"
    using counters_next [OF pd _ bn] ok by (simp add: schedules_ok_def counters_ok_def same)
  moreover have "schedules_ok (active_schedule s') (schedule (pending_schedule s'))"
    using ok assms(3) n(6-8) f(4)
    by (auto simp: schedules_ok_def same next_schedule_info_def schedule_within_def split: option.splits)
  ultimately show ?thesis using num f(1,2) n(3) by (simp add: header_ok_def)
qed

lemma header_ok_genesis: "header_ok E [] (genesis_header_state E t c k)"
proof -
  have "num_from_id null_digest = 0" by (simp add: num_from_id_def null_digest_def endian_reverse_u32_def)
  then show ?thesis
    by (simp add: header_ok_def genesis_header_state_def Let_def header_block_num_def num_from_header_id holds_leaves_empty
        counters_ok_def schedules_ok_def max_producers_def)
qed

lemma header_chain_ok:
  assumes "header_chain E V (genesis_header_state E t c k) ids s" and "length ids + 1 < 2 ^ 32"
  shows "header_ok E ids s"
  using assms by (induction rule: header_chain.induct) (auto intro: header_ok_genesis header_ok_next)

text \<open>Which errors a header can meet.\<close>

lemma extension_errors: "extension_loop E first bound es = Inl e \<Longrightarrow> e \<noteq> division_by_zero \<and> e \<noteq> past_active_nodes"
  by (induction E first bound es rule: extension_loop.induct)
    (auto simp: bind_res_Inl_iff check_Inl_iff extract_extension_def reflector_init_def split: if_splits option.splits)

lemma check_new_producers_errors: "check_new_producers a pd = Inl e \<Longrightarrow> e = producer_schedule_exception"
  by (auto simp: check_new_producers_def check_Inl_iff split: option.splits if_splits)

lemma next_features_errors: "next_features V exts pd = Inl e \<Longrightarrow> e = feature_rejected \<or> e = invalid_block_header_extension"
  by (cases exts) (auto simp: next_features_def activate_features_def check_Inl_iff split: if_splits)

lemma finish_errors: "finish_next E V skip h pd = Inl e \<Longrightarrow> e \<noteq> division_by_zero \<and> e \<noteq> past_active_nodes"
  by (auto simp: finish_next_def finish_next_unsigned_def bind_res_Inl_iff check_Inl_iff verify_signee_def
      validate_and_extract_header_extensions_def
      dest: extension_errors check_new_producers_errors next_features_errors split: if_splits)

lemma pending_errors:
  assumes "header_ok E ids s" and "length ids < 2 ^ 63" and "next_pending E t c s = Inl e"
  shows "e \<noteq> division_by_zero \<and> e \<noteq> past_active_nodes"
  using assms merkle_append_holds [of "pair_digest E" ids "blockroot_merkle s" "block_id s"]
  by (auto simp: header_ok_def schedules_ok_def next_pending_def next_slot_def get_scheduled_producer_def check_confirmed_range_def
      bind_res_Inl_iff check_Inl_iff Let_def split: if_splits option.splits)

text \<open>
  C7: Well-formed chains of headers. For every state that accepted headers lead to from the genesis block, with less
  than \<open>2 ^ 32\<close> blocks: the block number is the length of the chain and stands in the block identifier; the
  header names the block before; the Merkle root the next producer signs is the root over all the identifiers before; no
  confirmation counter is zero, so that none ever wraps below, and at most 1024 are kept, all for blocks
  after the proposed irreversible one; irreversible \<open>\<le>\<close> proposed irreversible \<open>\<le>\<close> current block number; there is a producer to ask for
  every slot, and no header makes the code divide by zero or read past the nodes of the tree.
\<close>

theorem header_chain_wellformed:
  assumes "header_chain E V (genesis_header_state E t c k) ids s" and "length ids + 1 < 2 ^ 32"
  shows "unat (block_num s) = length ids + 1 \<and> num_from_id (block_id s) = block_num s
    \<and> (ids \<noteq> [] \<longrightarrow> previous (header s) = last ids) \<and> get_root (blockroot_merkle s) = merkle (pair_digest E) ids
    \<and> 0 \<notin> set (confirm_count s) \<and> length (confirm_count s) \<le> maximum_tracked_dpos_confirmations
    \<and> unat (dpos_proposed_irreversible_blocknum s) + length (confirm_count s) \<le> unat (block_num s)
    \<and> dpos_irreversible_blocknum s \<le> dpos_proposed_irreversible_blocknum s
    \<and> (\<forall>slot. \<exists>p \<in> set (producers (active_schedule s)). get_scheduled_producer slot s = Inr p)
    \<and> (\<forall>h skip e. next_header E V skip h s = Inl e \<longrightarrow> e \<noteq> division_by_zero \<and> e \<noteq> past_active_nodes)"
proof -
  note ok = header_chain_ok [OF assms, unfolded header_ok_def counters_ok_def schedules_ok_def]
  have root: "get_root (blockroot_merkle s) = merkle (pair_digest E) ids"
    using ok assms(2) by (intro holds_leaves_root) simp_all
  have sched: "\<exists>p \<in> set (producers (active_schedule s)). get_scheduled_producer slot s = Inr p" for slot
  proof -
    let ?ps = "producers (active_schedule s)"
    have "0 < length ?ps" using ok by simp
    then have "unat slot mod (length ?ps * producer_repetitions) < producer_repetitions * length ?ps"
      by (simp add: producer_repetitions_def mult.commute)
    then have "unat slot mod (length ?ps * producer_repetitions) div producer_repetitions < length ?ps"
      by (simp add: producer_repetitions_def less_mult_imp_div_less mult.commute)
    with ok show ?thesis by (auto simp: get_scheduled_producer_def Let_def)
  qed
  have err: "e \<noteq> division_by_zero \<and> e \<noteq> past_active_nodes" if "next_header E V skip h s = Inl e" for h skip e
    using that pending_errors [OF header_chain_ok [OF assms]] assms(2)
    by (cases "next_pending E (timestamp h) (confirmed h) s") (auto simp: next_header_def dest: finish_errors)
  show ?thesis using ok root sched err by (auto simp: maximum_tracked_dpos_confirmations_def)
qed

text \<open>
  The range of blocks a producer confirms is compared in 32 bits: a header that claims to confirm more blocks
  than there are passes the check against confirming a block twice.
\<close>

lemma double_confirm_wraps:
  assumes "unat (block_num s) + 1 < unat c" and "unat b \<le> unat (block_num s)"
    and "map_of (producer_to_last_produced s) p = Some b"
  shows "check_confirmed_range p c s = Inr ()"
proof -
  let ?x = "block_num s + 1" and ?c = "ucast c :: u32"
  have c: "unat ?c = unat c" "unat c < 2 ^ 16" by (rule unat_u16_32, rule unat_less_u16)
  then have x: "unat ?x = unat (block_num s) + 1" using assms(1) by (intro unat_Suc_u32) simp
  then have "unat (?x - ?c) = unat ?x + 2 ^ 32 - unat c" using assms(1) c by (simp add: unat_sub_if_size word_size)
  then have "b < ?x - ?c" using assms(1,2) c(2) x by (simp add: word_less_nat_alt)
  with assms(3) show ?thesis by (simp add: check_confirmed_range_def)
qed

section \<open>A chain of two blocks\<close>

text \<open>Keys and signatures are numbers and every signature is by the key 7.\<close>

definition demo_header_env :: "(nat, nat) header_env" where
  "demo_header_env = \<lparr>pair_digest = sample_hash, header_digest = (\<lambda>h. Digest 5 0 0 0), schedule_digest = (\<lambda>sch. Digest 9 0 0 0),
     recover_key = (\<lambda>g d. 7), no_signature = 0, no_key = 0, pack_features = (\<lambda>fs. []), unpack_features = (\<lambda>b. None)\<rparr>"

definition demo_genesis :: "(nat, nat) block_header_state" where
  "demo_genesis = genesis_header_state demo_header_env 0 null_digest 7"

definition demo_header :: "(nat, nat) signed_block_header" where
  "demo_header = \<lparr>timestamp = 1, producer = string_to_name ''eosio'', confirmed = 0, previous = block_id demo_genesis,
     transaction_mroot = null_digest, action_mroot = null_digest, schedule_version = 0, new_producers = None,
     header_extensions = [], producer_signature = 3\<rparr>"

definition accept_all :: feature_validator where
  "accept_all = (\<lambda>t cur fs. True)"

definition demo_second :: "(nat, nat) block_header_state" where
  "demo_second = (case next_header demo_header_env accept_all False demo_header demo_genesis of Inl e \<Rightarrow> demo_genesis | Inr s \<Rightarrow> s)"

lemma demo_accepted: "case next_header demo_header_env accept_all False demo_header demo_genesis of Inl e \<Rightarrow> False | Inr s \<Rightarrow> True"
  by code_simp

lemma demo_header_chain: "header_chain demo_header_env accept_all demo_genesis [block_id demo_genesis] demo_second"
proof -
  have "next_header demo_header_env accept_all False demo_header demo_genesis = Inr demo_second"
    using demo_accepted by (auto simp: demo_second_def split: sum.splits)
  moreover have "schedule_within demo_header" by (simp add: schedule_within_def demo_header_def)
  ultimately show ?thesis using chain_next [OF chain_start] by fastforce
qed

theorem header_chain_wellformed_witness:
  "header_chain demo_header_env accept_all demo_genesis [block_id demo_genesis] demo_second
   \<and> unat (block_num demo_second) = 2 \<and> previous (header demo_second) = block_id demo_genesis
   \<and> get_root (blockroot_merkle demo_second) = merkle sample_hash [block_id demo_genesis]"
  using header_chain_wellformed [OF demo_header_chain [unfolded demo_genesis_def]] demo_header_chain
  by (simp add: demo_genesis_def demo_header_env_def)

definition demo_votes :: "(nat, nat) block_header_state" where
  "demo_votes = demo_genesis\<lparr>producer_to_last_implied_irb := [(1, 5), (2, 9), (3, 7), (4, 8)], dpos_proposed_irreversible_blocknum := 11\<rparr>"

theorem irreversible_quorum_witness:
  "producer_to_last_implied_irb demo_votes \<noteq> [] \<and> calc_dpos_last_irreversible 1 demo_votes = 8
   \<and> 2 * length (implied_blocknums 1 demo_votes) < 3 * length (filter (\<lambda>b. 8 \<le> b) (implied_blocknums 1 demo_votes))"
proof -
  have ne: "producer_to_last_implied_irb demo_votes \<noteq> []" by (simp add: demo_votes_def)
  have "calc_dpos_last_irreversible 1 demo_votes = 8"
    by (simp add: calc_dpos_last_irreversible_def implied_blocknums_def demo_votes_def)
  then show ?thesis using irreversible_quorum [OF ne, of 1] ne by (simp add: Let_def)
qed

end
