(* ===== verification/Spec2Isabelle.thy ===== *)
theory Spec2Isabelle
  imports Prelude Name_Type Merkle Safe_Int Asset Double64 Dreamoji_Links Authority Resource_Limits Native_Contract Chainbase Block_Header_State
begin

text \<open>
  A verification library for the DreamChain repository.
\<close>

end
